(* ===== verification/Prelude.thy ===== *)
theory Prelude
  imports
    Main
    "HOL-Library.Word"
    "HOL-Library.Multiset"
    "HOL-Library.Product_Lexorder"
begin

text \<open>
  What the components share: the machine integers and bounds of the Rust code, its
  strings and their UTF-8 validation, the error values every fallible operation
  returns, and the iterator and vector operations of the Rust standard library the
  reader and the writer use, with the lemmas about them.

  A failure (\<open>anyhow::Error\<close>) is a value of \<open>error\<close>, one constructor per place
  of the source that fails; a panic is the constructor \<open>Panicked\<close>, because the FFI
  boundary turns both into the same status.
\<close>

section \<open>Integers\<close>

type_synonym byte = "8 word"
type_synonym bytes = "byte list"
type_synonym i64 = int
type_synonym usize = nat

definition i64_MIN :: i64 where
  "i64_MIN = - (2 ^ 63)"

definition i64_MAX :: i64 where
  "i64_MAX = 2 ^ 63 - 1"

text \<open>Addition on \<open>i64\<close> and \<open>u64\<close> in the release profile: it wraps.\<close>

definition wrap_i64 :: "int \<Rightarrow> i64" where
  "wrap_i64 x = (x + 2 ^ 63) mod 2 ^ 64 - 2 ^ 63"

definition wrap_u64 :: "nat \<Rightarrow> nat" where
  "wrap_u64 n = n mod 2 ^ 64"

lemma wrap_i64_id: "i64_MIN \<le> x \<Longrightarrow> x \<le> i64_MAX \<Longrightarrow> wrap_i64 x = x"
  by (simp add: wrap_i64_def i64_MIN_def i64_MAX_def)

lemma wrap_u64_id: "n < 2 ^ 64 \<Longrightarrow> wrap_u64 n = n"
  by (simp add: wrap_u64_def)

lemma wrap_u64_add: "wrap_u64 (a + wrap_u64 b + c) = wrap_u64 (a + b + c)"
proof -
  have "(a + b mod m + c) mod m = (a + b + c) mod m" for m :: nat
    by (metis mod_add_left_eq mod_add_right_eq)
  then show ?thesis by (simp add: wrap_u64_def)
qed

section \<open>Errors\<close>

datatype error =
    UnknownProfile string
  | ConfigSyntax
  | NoRepresentations
  | DropContradiction string
  | EmptyRecordingId
  | BadServerUri string
  | NotReflectable string
  | External string
  | OpenFailed
  | NoRecording
  | NoTopics
  | NotAStruct
  | NoPayload nat
  | NoPlan nat
  | FieldCount nat nat
  | FixedSize nat nat
  | WStringUnsupported
  | Downcast string
  | NoSuchTopic nat
  | NullPointer string
  | NotUtf8
  | Panicked string

type_synonym 'a result = "error + 'a"

section \<open>Strings\<close>

text \<open>
  A Rust \<open>str\<close> is modelled by its UTF-8 bytes as a \<open>string\<close>. \<open>utf8_decode\<close> is the
  validation of \<open>std::str::from_utf8\<close>: it refuses overlong forms, surrogates, values
  above \<open>10FFFF\<close> and truncated sequences, and yields the code points otherwise.
\<close>

definition continuation :: "nat \<Rightarrow> bool" where
  "continuation b = (128 \<le> b \<and> b \<le> 191)"

fun utf8_decode :: "nat list \<Rightarrow> nat list option" where
  "utf8_decode [] = Some []"
| "utf8_decode (a # rest) =
     (if a < 128 then map_option ((#) a) (utf8_decode rest)
      else if 194 \<le> a \<and> a \<le> 223 then
        (case rest of
           b # r \<Rightarrow>
             if continuation b
             then map_option ((#) ((a - 192) * 64 + (b - 128))) (utf8_decode r) else None
         | _ \<Rightarrow> None)
      else if 224 \<le> a \<and> a \<le> 239 then
        (case rest of
           b # c # r \<Rightarrow>
             if continuation b \<and> continuation c \<and> (a = 224 \<longrightarrow> 160 \<le> b) \<and> (a = 237 \<longrightarrow> b \<le> 159)
             then map_option ((#) ((a - 224) * 4096 + (b - 128) * 64 + (c - 128))) (utf8_decode r)
             else None
         | _ \<Rightarrow> None)
      else if 240 \<le> a \<and> a \<le> 244 then
        (case rest of
           b # c # d # r \<Rightarrow>
             if continuation b \<and> continuation c \<and> continuation d
                \<and> (a = 240 \<longrightarrow> 144 \<le> b) \<and> (a = 244 \<longrightarrow> b \<le> 143)
             then map_option ((#) ((a - 240) * 262144 + (b - 128) * 4096 + (c - 128) * 64 + (d - 128)))
                    (utf8_decode r)
             else None
         | _ \<Rightarrow> None)
      else None)"

definition byte_char :: "byte \<Rightarrow> char" where
  "byte_char b = char_of (unat b)"

definition char_byte :: "char \<Rightarrow> byte" where
  "char_byte c = word_of_nat (of_char c)"

definition string_bytes :: "string \<Rightarrow> bytes" where
  "string_bytes s = map char_byte s"

definition from_utf8 :: "bytes \<Rightarrow> string option" where
  "from_utf8 bs = (if utf8_decode (map unat bs) = None then None else Some (map byte_char bs))"

text \<open>The \<open>White_Space\<close> code points \<open>str::trim\<close> removes.\<close>

definition is_whitespace :: "nat \<Rightarrow> bool" where
  "is_whitespace c =
     (9 \<le> c \<and> c \<le> 13 \<or> c = 32 \<or> c = 133 \<or> c = 160 \<or> c = 5760 \<or> 8192 \<le> c \<and> c \<le> 8202
      \<or> c = 8232 \<or> c = 8233 \<or> c = 8239 \<or> c = 8287 \<or> c = 12288)"

text \<open>\<open>s.trim().is_empty()\<close>\<close>

definition blank :: "string \<Rightarrow> bool" where
  "blank s =
     (case utf8_decode (map of_char s) of
        None \<Rightarrow> False
      | Some cs \<Rightarrow> list_all is_whitespace cs)"

text \<open>\<open>s.split(sep)\<close>, \<open>parts.join(sep)\<close> and \<open>s.lines()\<close>\<close>

fun split_on :: "'a \<Rightarrow> 'a list \<Rightarrow> 'a list list" where
  "split_on sep [] = [[]]"
| "split_on sep (c # cs) =
     (if c = sep then [] # split_on sep cs
      else (case split_on sep cs of [] \<Rightarrow> [[c]] | w # ws \<Rightarrow> (c # w) # ws))"

fun join_with :: "'a list \<Rightarrow> 'a list list \<Rightarrow> 'a list" where
  "join_with sep [] = []"
| "join_with sep [w] = w"
| "join_with sep (w # v # ws) = w @ sep @ join_with sep (v # ws)"

definition strip_cr :: "string \<Rightarrow> string" where
  "strip_cr l = (if l \<noteq> [] \<and> last l = CHR 0x0D then butlast l else l)"

text \<open>A carriage return is only part of a line ending before a line feed, so the text
  after the last line feed keeps its own.\<close>

definition str_lines :: "string \<Rightarrow> string list" where
  "str_lines s =
     (let ls = split_on (CHR 0x0A) s
      in map strip_cr (butlast ls) @ (if last ls = [] then [] else [last ls]))"

lemma split_on_not_Nil [simp]: "split_on sep cs \<noteq> []"
  by (induction cs) (auto split: list.splits)

lemma split_on_word: "sep \<notin> set w \<Longrightarrow> split_on sep w = [w]"
  by (induction w) auto

lemma split_on_append:
  "sep \<notin> set w \<Longrightarrow> split_on sep (w @ sep # cs) = w # split_on sep cs"
  by (induction w) auto

lemma split_on_join:
  "ws \<noteq> [] \<Longrightarrow> \<forall>w \<in> set ws. sep \<notin> set w \<Longrightarrow> split_on sep (join_with [sep] ws) = ws"
  by (induction "[sep]" ws rule: join_with.induct) (auto simp: split_on_word split_on_append)

lemma utf8_decode_ascii: "\<forall>b \<in> set bs. b < 128 \<Longrightarrow> utf8_decode bs = Some bs"
  by (induction bs) auto

lemma unat_byte_less: "unat (b :: byte) < 256"
proof -
  have "unat b < 2 ^ LENGTH(8)" by (rule unsigned_less)
  then show ?thesis by simp
qed

lemma byte_char_byte [simp]: "char_byte (byte_char b) = b"
  using unat_byte_less [of b] by (simp add: char_byte_def byte_char_def)

lemma char_byte_char [simp]: "byte_char (char_byte c) = c"
  by (simp add: char_byte_def byte_char_def unat_of_nat)

lemma unat_char_byte: "unat (char_byte c) = of_char c"
  by (simp add: char_byte_def unat_of_nat)

lemma from_utf8_string:
  "utf8_decode (map of_char s) \<noteq> None \<Longrightarrow> from_utf8 (string_bytes s) = Some s"
  by (simp add: from_utf8_def string_bytes_def comp_def unat_char_byte)

section \<open>Iterators and vectors\<close>

text \<open>
  \<open>Iterator::min_by_key\<close> returns the first of several least elements,
  \<open>Iterator::max_by_key\<close> the last of several greatest ones.
\<close>

fun min_by_key :: "('a \<Rightarrow> 'k::linorder) \<Rightarrow> 'a list \<Rightarrow> 'a option" where
  "min_by_key f [] = None"
| "min_by_key f (x # xs) =
     (case min_by_key f xs of
        None \<Rightarrow> Some x
      | Some y \<Rightarrow> if f x \<le> f y then Some x else Some y)"

fun max_by_key :: "('a \<Rightarrow> 'k::linorder) \<Rightarrow> 'a list \<Rightarrow> 'a option" where
  "max_by_key f [] = None"
| "max_by_key f (x # xs) =
     (case max_by_key f xs of
        None \<Rightarrow> Some x
      | Some y \<Rightarrow> if f y < f x then Some x else Some y)"

fun filter_map :: "('a \<Rightarrow> 'b option) \<Rightarrow> 'a list \<Rightarrow> 'b list" where
  "filter_map f [] = []"
| "filter_map f (x # xs) =
     (case f x of None \<Rightarrow> filter_map f xs | Some y \<Rightarrow> y # filter_map f xs)"

text \<open>\<open>slice.get(i)\<close> and \<open>Iterator::position\<close>\<close>

definition get :: "'a list \<Rightarrow> usize \<Rightarrow> 'a option" where
  "get xs i = (if i < length xs then Some (xs ! i) else None)"

lemma get_simps [simp]:
  "get xs i = None \<longleftrightarrow> length xs \<le> i"
  "get xs i = Some x \<longleftrightarrow> i < length xs \<and> x = xs ! i"
  by (auto simp: get_def)

lemma get_eval [simp]:
  "i < length xs \<Longrightarrow> get xs i = Some (xs ! i)" "length xs \<le> i \<Longrightarrow> get xs i = None"
  by (simp_all add: get_def)

fun position :: "('a \<Rightarrow> bool) \<Rightarrow> 'a list \<Rightarrow> usize option" where
  "position P [] = None"
| "position P (x # xs) = (if P x then Some 0 else map_option Suc (position P xs))"

definition unwrap_or :: "'a option \<Rightarrow> 'a \<Rightarrow> 'a" where
  "unwrap_or x d = (case x of None \<Rightarrow> d | Some y \<Rightarrow> y)"

lemma unwrap_or_simps [simp]: "unwrap_or None d = d" "unwrap_or (Some y) d = y"
  by (simp_all add: unwrap_or_def)

text \<open>\<open>Vec::swap_remove\<close>\<close>

definition swap_remove :: "'a list \<Rightarrow> usize \<Rightarrow> 'a list" where
  "swap_remove xs i = butlast (xs[i := last xs])"

lemma min_by_key_None [simp]: "min_by_key f xs = None \<longleftrightarrow> xs = []"
  by (cases xs) (auto split: option.splits)

lemma max_by_key_None [simp]: "max_by_key f xs = None \<longleftrightarrow> xs = []"
  by (cases xs) (auto split: option.splits)

lemma min_by_key_Some:
  "min_by_key f xs = Some x \<Longrightarrow> x \<in> set xs \<and> (\<forall>y \<in> set xs. f x \<le> f y)"
  by (induction xs arbitrary: x) (fastforce split: option.splits if_splits)+

lemma max_by_key_Some:
  "max_by_key f xs = Some x \<Longrightarrow> x \<in> set xs \<and> (\<forall>y \<in> set xs. f y \<le> f x)"
  by (induction xs arbitrary: x) (fastforce split: option.splits if_splits)+

lemma set_filter_map [simp]: "set (filter_map f xs) = {y. \<exists>x \<in> set xs. f x = Some y}"
  by (induction xs) (auto split: option.splits)

lemma filter_map_Nil [simp]: "filter_map f xs = [] \<longleftrightarrow> (\<forall>x \<in> set xs. f x = None)"
  by (induction xs) (auto split: option.splits)

lemma filter_map_append [simp]: "filter_map f (xs @ ys) = filter_map f xs @ filter_map f ys"
  by (induction xs) (auto split: option.splits)

lemma list_all2_left:
  assumes "list_all2 P xs ys" "x \<in> set xs"
  shows "\<exists>y \<in> set ys. P x y"
  using assms by (induction rule: list_all2_induct) auto

lemma list_all2_right:
  assumes "list_all2 P xs ys" "y \<in> set ys"
  shows "\<exists>x \<in> set xs. P x y"
  using assms by (induction rule: list_all2_induct) auto

lemma filter_map_cong:
  "xs = ys \<Longrightarrow> (\<And>x. x \<in> set ys \<Longrightarrow> f x = g x) \<Longrightarrow> filter_map f xs = filter_map g ys"
  by (induction xs arbitrary: ys) (auto split: option.splits)

lemma filter_map_rev: "filter_map f (rev xs) = rev (filter_map f xs)"
  by (induction xs) (auto split: option.splits)

lemma position_Some:
  "position P xs = Some i \<Longrightarrow> i < length xs \<and> P (xs ! i) \<and> (\<forall>j < i. \<not> P (xs ! j))"
proof (induction xs arbitrary: i)
  case (Cons x xs)
  then show ?case
    by (auto split: if_splits simp: less_Suc_eq_0_disj)
qed simp

lemma position_None: "position P xs = None \<longleftrightarrow> (\<forall>x \<in> set xs. \<not> P x)"
  by (induction xs) auto

lemma mset_swap_remove:
  assumes "i < length xs"
  shows "mset (swap_remove xs i) = mset xs - {#xs ! i#}"
proof -
  define ys where "ys = xs[i := last xs]"
  have ne: "xs \<noteq> []" using assms by auto
  then have last: "last ys = last xs"
    by (simp add: ys_def last_list_update)
  have "mset ys = mset xs - {#xs ! i#} + {#last xs#}"
    using assms by (simp add: ys_def mset_update)
  moreover have "mset ys = mset (butlast ys) + {#last ys#}"
    using ne by (metis append_butlast_last_id length_greater_0_conv length_list_update
        mset_append mset_single_iff_right mset.simps(2) add_mset_add_single ys_def)
  ultimately show ?thesis
    by (simp add: swap_remove_def ys_def [symmetric] last)
qed

lemma length_swap_remove: "i < length xs \<Longrightarrow> length (swap_remove xs i) = length xs - 1"
  by (simp add: swap_remove_def)

lemma filter_mset_True_all: "(\<And>x. x \<in># M \<Longrightarrow> P x) \<Longrightarrow> filter_mset P M = M"
  by (metis filter_mset_cong filter_mset_True)

lemma filter_mset_False_all: "(\<And>x. x \<in># M \<Longrightarrow> \<not> P x) \<Longrightarrow> filter_mset P M = {#}"
  by (metis filter_mset_cong filter_mset_False)

lemma filter_filter_mset': "filter_mset P (filter_mset Q M) = filter_mset Q (filter_mset P M)"
  by (simp add: filter_filter_mset conj_commute)

section \<open>Ordered maps\<close>

text \<open>
  A \<open>BTreeMap\<close> is the list of its entries in key order. \<open>bt_entry k f m\<close> is
  \<open>m.entry(k)\<close> set to \<open>f\<close> of what the map holds there.
\<close>

fun bt_entry :: "'k::linorder \<Rightarrow> ('v option \<Rightarrow> 'v) \<Rightarrow> ('k \<times> 'v) list \<Rightarrow> ('k \<times> 'v) list" where
  "bt_entry k f [] = [(k, f None)]"
| "bt_entry k f ((k', v) # m) =
     (if k < k' then (k, f None) # (k', v) # m
      else if k = k' then (k', f (Some v)) # m
      else (k', v) # bt_entry k f m)"

definition bt_sorted :: "('k::linorder \<times> 'v) list \<Rightarrow> bool" where
  "bt_sorted m = sorted_wrt (<) (map fst m)"

lemma bt_sorted_simps [simp]:
  "bt_sorted []"
  "bt_sorted (e # m) \<longleftrightarrow> (\<forall>e' \<in> set m. fst e < fst e') \<and> bt_sorted m"
  by (auto simp: bt_sorted_def)

lemma bt_entry_keys: "set (map fst (bt_entry k f m)) = insert k (set (map fst m))"
  by (induction m rule: bt_entry.induct) auto

lemma bt_sorted_entry: "bt_sorted m \<Longrightarrow> bt_sorted (bt_entry k f m)"
proof (induction m rule: bt_entry.induct)
  case (2 k f k' v m)
  have "fst ` set (bt_entry k f m) = insert k (fst ` set m)"
    using bt_entry_keys [of k f m] by simp
  with 2 show ?case
    by (auto simp: image_iff Bex_def Ball_def set_eq_iff)
qed simp

lemma map_of_bt_entry:
  "bt_sorted m \<Longrightarrow> map_of (bt_entry k f m) = (map_of m)(k \<mapsto> f (map_of m k))"
proof (induction m rule: bt_entry.induct)
  case (2 k f k' v m)
  have "k < k' \<Longrightarrow> map_of m k = None"
    using "2.prems" by (auto simp: map_of_eq_None_iff dest: less_trans)
  with 2 show ?case by (auto simp: fun_eq_iff)
qed auto

lemma bt_sorted_distinct: "bt_sorted m \<Longrightarrow> distinct (map fst m)"
  by (simp add: bt_sorted_def strict_sorted_iff)

end
