(* ===== verification/Config.thy ===== *)
theory Config
  imports Prelude
begin

text \<open>
  \<open>config.rs\<close>: the representations a recording keeps, the flush policy, the preset
  profiles and the storage config file that overrides them. The YAML parser
  (\<open>serde_saphyr\<close>) and the parser of a \<open>ProxyUri\<close> are not part of the repository: they
  are the parameters \<open>parse_yaml\<close> and \<open>parse_uri\<close>, and nothing is assumed of them.
\<close>

section \<open>Data\<close>

datatype representation = Raw | Reflected | Lenses

fun representation_name :: "representation \<Rightarrow> string" where
  "representation_name Raw = ''raw''"
| "representation_name Reflected = ''reflected''"
| "representation_name Lenses = ''lenses''"

text \<open>The derived \<open>Ord\<close>: declaration order.\<close>

fun rung :: "representation \<Rightarrow> nat" where
  "rung Raw = 0"
| "rung Reflected = 1"
| "rung Lenses = 2"

lemma rung_inj: "rung a = rung b \<Longrightarrow> a = b"
  by (cases a; cases b) auto

instantiation representation :: linorder
begin

definition less_eq_representation :: "representation \<Rightarrow> representation \<Rightarrow> bool" where
  "less_eq_representation a b = (rung a \<le> rung b)"

definition less_representation :: "representation \<Rightarrow> representation \<Rightarrow> bool" where
  "less_representation a b = (rung a < rung b)"

instance
  by standard (auto simp: less_eq_representation_def less_representation_def rung_inj)

end

datatype unmatched = Keep | Drop

type_synonym representations = "representation set"

text \<open>A \<open>Duration\<close> is its number of nanoseconds.\<close>

type_synonym duration = nat

definition from_millis :: "nat \<Rightarrow> duration" where
  "from_millis ms = ms * 1000000"

record flush_policy =
  max_rows :: usize
  max_bytes :: usize
  max_latency :: "duration option"

record 'u recording_config =
  flush :: flush_policy
  representations :: representations
  unmatched :: unmatched
  recording_id :: "string option"
  server_uri :: "'u option"

record config_file =
  file_representations :: "representation list option"
  file_unmatched :: "unmatched option"
  file_recording_id :: "string option"
  file_server_uri :: "string option"
  file_max_rows :: "usize option"
  file_max_bytes :: "usize option"
  file_max_latency_ms :: "nat option"

section \<open>Operations\<close>

definition format_representations :: "representations \<Rightarrow> string" where
  "format_representations rs = join_with '','' (map representation_name (sorted_list_of_set rs))"

definition MIB :: usize where
  "MIB = 1024 * 1024"

definition profile_flush :: "string \<Rightarrow> flush_policy result" where
  "profile_flush name =
     (if name = [] \<or> name = ''none'' then
        Inr \<lparr>max_rows = 64, max_bytes = 8 * MIB, max_latency = Some (from_millis 200)\<rparr>
      else if name = ''low_latency'' then
        Inr \<lparr>max_rows = 0, max_bytes = 8 * MIB, max_latency = Some (1000000000 div 30)\<rparr>
      else if name = ''ultra_low_latency'' then
        Inr \<lparr>max_rows = 0, max_bytes = 8 * MIB, max_latency = Some (1000000000 div 60)\<rparr>
      else if name = ''high_throughput'' then
        Inr \<lparr>max_rows = 1024, max_bytes = 8 * MIB, max_latency = None\<rparr>
      else Inl (UnknownProfile name))"

definition from_profile :: "string \<Rightarrow> 'u recording_config result" where
  "from_profile name =
     (case profile_flush name of
        Inl e \<Rightarrow> Inl e
      | Inr fl \<Rightarrow>
          Inr \<lparr>flush = fl, representations = {Reflected}, unmatched = Keep,
               recording_id = None, server_uri = None\<rparr>)"

text \<open>
  \<open>ConfigFile::apply\<close>, one definition per block of its body. The record update is the
  assignment to the borrowed \<open>config\<close>; an error leaves through \<open>Inl\<close>.
\<close>

definition apply_representations ::
  "config_file \<Rightarrow> 'u recording_config \<Rightarrow> 'u recording_config result" where
  "apply_representations f c =
     (case file_representations f of
        None \<Rightarrow> Inr c
      | Some rs \<Rightarrow>
          if rs = [] then Inl NoRepresentations else Inr (c\<lparr>representations := set rs\<rparr>))"

definition apply_unmatched ::
  "config_file \<Rightarrow> 'u recording_config \<Rightarrow> 'u recording_config" where
  "apply_unmatched f c =
     (case file_unmatched f of None \<Rightarrow> c | Some u \<Rightarrow> c\<lparr>unmatched := u\<rparr>)"

definition drop_is_consistent :: "'u recording_config \<Rightarrow> bool" where
  "drop_is_consistent c =
     (unmatched c = Keep \<or> (Lenses \<in> representations c \<and> Reflected \<notin> representations c))"

definition apply_recording_id ::
  "config_file \<Rightarrow> 'u recording_config \<Rightarrow> 'u recording_config result" where
  "apply_recording_id f c =
     (case file_recording_id f of
        None \<Rightarrow> Inr c
      | Some i \<Rightarrow> if blank i then Inl EmptyRecordingId else Inr (c\<lparr>recording_id := Some i\<rparr>))"

definition apply_server_uri ::
  "(string \<Rightarrow> 'u option) \<Rightarrow> config_file \<Rightarrow> 'u recording_config \<Rightarrow> 'u recording_config result"
where
  "apply_server_uri parse_uri f c =
     (case file_server_uri f of
        None \<Rightarrow> Inr c
      | Some s \<Rightarrow>
          (case parse_uri s of
             None \<Rightarrow> Inl (BadServerUri s)
           | Some u \<Rightarrow> Inr (c\<lparr>server_uri := Some u\<rparr>)))"

definition apply_limits :: "config_file \<Rightarrow> flush_policy \<Rightarrow> flush_policy" where
  "apply_limits f p =
     (let p = (case file_max_rows f of None \<Rightarrow> p | Some n \<Rightarrow> p\<lparr>max_rows := n\<rparr>);
          p = (case file_max_bytes f of None \<Rightarrow> p | Some n \<Rightarrow> p\<lparr>max_bytes := n\<rparr>)
      in (case file_max_latency_ms f of
            None \<Rightarrow> p
          | Some ms \<Rightarrow> p\<lparr>max_latency := (if ms > 0 then Some (from_millis ms) else None)\<rparr>))"

definition apply_file ::
  "(string \<Rightarrow> 'u option) \<Rightarrow> config_file \<Rightarrow> 'u recording_config \<Rightarrow> 'u recording_config result"
where
  "apply_file parse_uri f c =
     (case apply_representations f c of
        Inl e \<Rightarrow> Inl e
      | Inr c \<Rightarrow>
          let c = apply_unmatched f c
          in if \<not> drop_is_consistent c
             then Inl (DropContradiction (format_representations (representations c)))
             else (case apply_recording_id f c of
                     Inl e \<Rightarrow> Inl e
                   | Inr c \<Rightarrow>
                       (case apply_server_uri parse_uri f c of
                          Inl e \<Rightarrow> Inl e
                        | Inr c \<Rightarrow> Inr (c\<lparr>flush := apply_limits f (flush c)\<rparr>))))"

definition resolve ::
  "(string \<Rightarrow> config_file option) \<Rightarrow> (string \<Rightarrow> 'u option) \<Rightarrow> string \<Rightarrow> string
   \<Rightarrow> 'u recording_config result" where
  "resolve parse_yaml parse_uri profile config_yaml =
     (case from_profile profile of
        Inl e \<Rightarrow> Inl e
      | Inr c \<Rightarrow>
          if blank config_yaml then Inr c
          else (case parse_yaml config_yaml of
                  None \<Rightarrow> Inl ConfigSyntax
                | Some f \<Rightarrow> apply_file parse_uri f c))"

section \<open>What a resolved configuration satisfies\<close>

text \<open>The rest of the program relies on these three facts about its configuration.\<close>

definition valid_config :: "'u recording_config \<Rightarrow> bool" where
  "valid_config c \<longleftrightarrow>
     representations c \<noteq> {} \<and> drop_is_consistent c
     \<and> (\<forall>i. recording_id c = Some i \<longrightarrow> \<not> blank i)"

lemma blank_Nil [simp]: "blank []"
  by (simp add: blank_def)

lemma from_profile_cases:
  "from_profile name = Inr c \<Longrightarrow>
     representations c = {Reflected} \<and> unmatched c = Keep \<and> recording_id c = None
     \<and> server_uri c = None \<and> max_bytes (flush c) = 8 * MIB"
  by (auto simp: from_profile_def profile_flush_def split: sum.splits if_splits)

lemma from_profile_valid: "from_profile name = Inr c \<Longrightarrow> valid_config c"
  by (drule from_profile_cases) (simp add: valid_config_def drop_is_consistent_def)

lemma apply_file_valid:
  "valid_config c \<Longrightarrow> apply_file parse_uri f c = Inr c' \<Longrightarrow> valid_config c'"
  by (auto simp: apply_file_def apply_representations_def apply_unmatched_def
        apply_recording_id_def apply_server_uri_def valid_config_def drop_is_consistent_def Let_def
      split: option.splits if_splits sum.splits)

text \<open>
  C33: whatever the profile and the config file say, a configuration that
  \<open>RecordingConfig::resolve\<close> accepts asks for at least one representation, never combines
  \<open>unmatched: drop\<close> with a representation that would contradict it, and never carries a
  blank recording id.
\<close>

theorem resolve_valid:
  assumes "resolve parse_yaml parse_uri profile yaml = Inr c"
  shows "valid_config c"
  using assms
  by (auto simp: resolve_def intro: from_profile_valid apply_file_valid
      split: sum.splits if_splits option.splits)

definition sample_file :: config_file where
  "sample_file =
     \<lparr>file_representations = Some [Lenses, Raw], file_unmatched = Some Drop,
      file_recording_id = Some ''abc-123'', file_server_uri = None,
      file_max_rows = Some 7, file_max_bytes = None, file_max_latency_ms = Some 0\<rparr>"

lemma resolve_sample:
  "resolve (\<lambda>_. Some sample_file) (\<lambda>_. None :: unit option) ''none'' ''x'' =
     Inr \<lparr>flush = \<lparr>max_rows = 7, max_bytes = 8 * MIB, max_latency = None\<rparr>,
          representations = {Lenses, Raw}, unmatched = Drop,
          recording_id = Some ''abc-123'', server_uri = None\<rparr>"
  by (simp add: resolve_def from_profile_def profile_flush_def apply_file_def sample_file_def
      apply_representations_def apply_unmatched_def drop_is_consistent_def apply_recording_id_def
      apply_server_uri_def apply_limits_def blank_def is_whitespace_def)

theorem resolve_valid_witness:
  "\<exists>c :: unit recording_config.
     resolve (\<lambda>_. Some sample_file) (\<lambda>_. None) ''none'' ''x'' = Inr c \<and> valid_config c"
  using resolve_valid [OF resolve_sample] resolve_sample by blast

lemma apply_limits_overrides:
  "apply_limits f p =
     \<lparr>max_rows = unwrap_or (file_max_rows f) (max_rows p),
      max_bytes = unwrap_or (file_max_bytes f) (max_bytes p),
      max_latency =
        (case file_max_latency_ms f of
           None \<Rightarrow> max_latency p
         | Some ms \<Rightarrow> if ms = 0 then None else Some (from_millis ms))\<rparr>"
  by (cases p) (simp add: apply_limits_def Let_def unwrap_or_def split: option.split)

lemma apply_unmatched_overrides:
  "apply_unmatched f c = c\<lparr>unmatched := unwrap_or (file_unmatched f) (unmatched c)\<rparr>"
  by (simp add: apply_unmatched_def unwrap_or_def split: option.split)

lemma apply_recording_id_overrides:
  "apply_recording_id f c = Inr c' \<longleftrightarrow>
     (case file_recording_id f of None \<Rightarrow> c' = c
      | Some i \<Rightarrow> \<not> blank i \<and> c' = c\<lparr>recording_id := Some i\<rparr>)"
  by (auto simp: apply_recording_id_def split: option.splits)

lemma apply_server_uri_overrides:
  "apply_server_uri parse_uri f c = Inr c' \<longleftrightarrow>
     (case file_server_uri f of None \<Rightarrow> c' = c
      | Some s \<Rightarrow> parse_uri s \<noteq> None \<and> c' = c\<lparr>server_uri := parse_uri s\<rparr>)"
  by (auto simp: apply_server_uri_def split: option.splits)

lemma apply_file_stages:
  "apply_file parse_uri f c = Inr c' \<longleftrightarrow>
     (\<exists>c1 c2 c3. apply_representations f c = Inr c1
        \<and> drop_is_consistent (apply_unmatched f c1)
        \<and> apply_recording_id f (apply_unmatched f c1) = Inr c2
        \<and> apply_server_uri parse_uri f c2 = Inr c3
        \<and> c' = c3\<lparr>flush := apply_limits f (flush c3)\<rparr>)"
  by (auto simp: apply_file_def Let_def split: sum.splits if_splits)

text \<open>
  C34: the config file overrides exactly the keys it sets. Applied to a configuration, it
  succeeds if and only if it names no empty representation list, the resulting
  combination of \<open>unmatched\<close> and representations is consistent, its recording id is not
  blank and its server address parses; and then every field of the result is the file's
  value where the file has one (with \<open>max_latency_ms: 0\<close> meaning no limit) and the
  profile's value elsewhere.
\<close>

theorem apply_file_overrides:
  "apply_file parse_uri f c = Inr c' \<longleftrightarrow>
     file_representations f \<noteq> Some []
     \<and> (let rs = (case file_representations f of None \<Rightarrow> representations c | Some l \<Rightarrow> set l);
            u = unwrap_or (file_unmatched f) (unmatched c)
        in (case u of Keep \<Rightarrow> True | Drop \<Rightarrow> Lenses \<in> rs \<and> Reflected \<notin> rs)
           \<and> (case file_recording_id f of None \<Rightarrow> True | Some i \<Rightarrow> \<not> blank i)
           \<and> (case file_server_uri f of None \<Rightarrow> True | Some s \<Rightarrow> parse_uri s \<noteq> None)
           \<and> c' = c\<lparr>flush :=
                      \<lparr>max_rows = unwrap_or (file_max_rows f) (max_rows (flush c)),
                       max_bytes = unwrap_or (file_max_bytes f) (max_bytes (flush c)),
                       max_latency =
                         (case file_max_latency_ms f of
                            None \<Rightarrow> max_latency (flush c)
                          | Some ms \<Rightarrow> if ms = 0 then None else Some (from_millis ms))\<rparr>,
                    representations := rs,
                    unmatched := u,
                    recording_id :=
                      (case file_recording_id f of None \<Rightarrow> recording_id c | Some i \<Rightarrow> Some i),
                    server_uri :=
                      (case file_server_uri f of None \<Rightarrow> server_uri c | Some s \<Rightarrow> parse_uri s)\<rparr>)"
proof (cases "file_representations f")
  case None
  then show ?thesis
    unfolding apply_file_stages apply_limits_overrides apply_unmatched_overrides
      apply_recording_id_overrides apply_server_uri_overrides apply_representations_def
      drop_is_consistent_def Let_def
    by (cases c; cases "file_recording_id f"; cases "file_server_uri f"; cases "file_max_latency_ms f";
        cases "unwrap_or (file_unmatched f) (unmatched c)") auto
next
  case (Some l)
  then show ?thesis
    unfolding apply_file_stages apply_limits_overrides apply_unmatched_overrides
      apply_recording_id_overrides apply_server_uri_overrides apply_representations_def
      drop_is_consistent_def Let_def
    by (cases c; cases "file_recording_id f"; cases "file_server_uri f"; cases "file_max_latency_ms f";
        cases "unwrap_or (file_unmatched f) (unmatched c)") auto
qed

end
