(* ===== verification/Arrow.thy ===== *)
theory Arrow
  imports Prelude
begin

text \<open>
  What the repository observes of the Arrow arrays and Rerun chunks it passes around.
  Both come from libraries (\<open>arrow\<close>, \<open>re_chunk\<close>): an array is a value of
  \<open>arrow\<close>, one constructor per array type the code downcasts to, laid out as the columnar
  format lays it out (a list array is a validity, the offsets of its rows and one child
  that holds every row's values); a chunk is the record of what its accessors return.
  What those libraries compute is never defined here: building a chunk, gathering rows
  and finishing a builder are parameters of the definitions that call them.
\<close>

section \<open>Arrays\<close>

datatype arrow =
    BoolA "bool list"
  | U8A "8 word list"
  | I8A "8 word list"
  | U16A "16 word list"
  | I16A "16 word list"
  | U32A "32 word list"
  | I32A "32 word list"
  | U64A "64 word list"
  | I64A "64 word list"
  | F32A "32 word list"
  | F64A "64 word list"
  | StrA "bool list" "string list"
  | BinA "bool list" "bytes list"
  | ListA "bool list" "nat list" arrow
  | StructA nat "(string \<times> arrow) list"
  | OtherA nat

fun arr_len :: "arrow \<Rightarrow> usize" where
  "arr_len (BoolA xs) = length xs"
| "arr_len (U8A xs) = length xs"
| "arr_len (I8A xs) = length xs"
| "arr_len (U16A xs) = length xs"
| "arr_len (I16A xs) = length xs"
| "arr_len (U32A xs) = length xs"
| "arr_len (I32A xs) = length xs"
| "arr_len (U64A xs) = length xs"
| "arr_len (I64A xs) = length xs"
| "arr_len (F32A xs) = length xs"
| "arr_len (F64A xs) = length xs"
| "arr_len (StrA v xs) = length xs"
| "arr_len (BinA v xs) = length xs"
| "arr_len (ListA v offs c) = length v"
| "arr_len (StructA n fs) = n"
| "arr_len (OtherA n) = n"

abbreviation window_of :: "nat \<Rightarrow> nat \<Rightarrow> 'a list \<Rightarrow> 'a list" where
  "window_of off n xs \<equiv> take n (drop off xs)"

text \<open>A slice of a list array moves its offsets and shares its child.\<close>

fun arr_slice :: "nat \<Rightarrow> nat \<Rightarrow> arrow \<Rightarrow> arrow" where
  "arr_slice off n (BoolA xs) = BoolA (window_of off n xs)"
| "arr_slice off n (U8A xs) = U8A (window_of off n xs)"
| "arr_slice off n (I8A xs) = I8A (window_of off n xs)"
| "arr_slice off n (U16A xs) = U16A (window_of off n xs)"
| "arr_slice off n (I16A xs) = I16A (window_of off n xs)"
| "arr_slice off n (U32A xs) = U32A (window_of off n xs)"
| "arr_slice off n (I32A xs) = I32A (window_of off n xs)"
| "arr_slice off n (U64A xs) = U64A (window_of off n xs)"
| "arr_slice off n (I64A xs) = I64A (window_of off n xs)"
| "arr_slice off n (F32A xs) = F32A (window_of off n xs)"
| "arr_slice off n (F64A xs) = F64A (window_of off n xs)"
| "arr_slice off n (StrA v xs) = StrA (window_of off n v) (window_of off n xs)"
| "arr_slice off n (BinA v xs) = BinA (window_of off n v) (window_of off n xs)"
| "arr_slice off n (ListA v offs c) = ListA (window_of off n v) (window_of off (n + 1) offs) c"
| "arr_slice off n (StructA m fs) = StructA n (map (\<lambda>p. (fst p, arr_slice off n (snd p))) fs)"
| "arr_slice off n (OtherA m) = OtherA n"

fun arr_depth :: "arrow \<Rightarrow> nat" where
  "arr_depth (ListA v offs c) = Suc (arr_depth c)"
| "arr_depth (StructA n fs) = Suc (foldr max (map (\<lambda>p. arr_depth (snd p)) fs) 0)"
| "arr_depth _ = 0"

definition fields_depth :: "(string \<times> arrow) list \<Rightarrow> nat" where
  "fields_depth fs = foldr max (map (\<lambda>p. arr_depth (snd p)) fs) 0"

lemma fields_depth_simps [simp]:
  "fields_depth [] = 0"
  "fields_depth (f # fs) = max (arr_depth (snd f)) (fields_depth fs)"
  by (simp_all add: fields_depth_def)

lemma arr_depth_StructA [simp]: "arr_depth (StructA n fs) = Suc (fields_depth fs)"
  by (simp add: fields_depth_def)

declare arr_depth.simps(2) [simp del]

lemma arr_depth_slice [simp]: "arr_depth (arr_slice off n a) = arr_depth a"
proof (induction off n a rule: arr_slice.induct)
  case (15 off n m fs)
  then have "map (\<lambda>p. arr_depth (arr_slice off n (snd p))) fs = map (\<lambda>p. arr_depth (snd p)) fs"
    by (intro map_cong) auto
  then show ?case by (simp add: fields_depth_def comp_def cong: map_cong)
qed simp_all

section \<open>List arrays\<close>

record list_array =
  la_valid :: "bool list"
  la_offsets :: "nat list"
  la_values :: arrow

definition list_len :: "list_array \<Rightarrow> usize" where
  "list_len l = length (la_valid l)"

definition list_is_null :: "list_array \<Rightarrow> usize \<Rightarrow> bool" where
  "list_is_null l row = (\<not> la_valid l ! row)"

definition list_value :: "list_array \<Rightarrow> usize \<Rightarrow> arrow" where
  "list_value l row =
     arr_slice (la_offsets l ! row) (la_offsets l ! (row + 1) - la_offsets l ! row) (la_values l)"

text \<open>The downcasts of the code: \<open>None\<close> where the array has another type.\<close>

fun as_list :: "arrow \<Rightarrow> list_array option" where
  "as_list (ListA v offs c) = Some \<lparr>la_valid = v, la_offsets = offs, la_values = c\<rparr>"
| "as_list _ = None"

fun as_struct :: "arrow \<Rightarrow> (nat \<times> (string \<times> arrow) list) option" where
  "as_struct (StructA n fs) = Some (n, fs)"
| "as_struct _ = None"

fun as_bool :: "arrow \<Rightarrow> bool list option" where
  "as_bool (BoolA xs) = Some xs"
| "as_bool _ = None"

fun as_u8 :: "arrow \<Rightarrow> bytes option" where
  "as_u8 (U8A xs) = Some xs"
| "as_u8 _ = None"

fun as_i8 :: "arrow \<Rightarrow> 8 word list option" where
  "as_i8 (I8A xs) = Some xs"
| "as_i8 _ = None"

fun as_u16 :: "arrow \<Rightarrow> 16 word list option" where
  "as_u16 (U16A xs) = Some xs"
| "as_u16 _ = None"

fun as_i16 :: "arrow \<Rightarrow> 16 word list option" where
  "as_i16 (I16A xs) = Some xs"
| "as_i16 _ = None"

fun as_u32 :: "arrow \<Rightarrow> 32 word list option" where
  "as_u32 (U32A xs) = Some xs"
| "as_u32 _ = None"

fun as_i32 :: "arrow \<Rightarrow> 32 word list option" where
  "as_i32 (I32A xs) = Some xs"
| "as_i32 _ = None"

fun as_u64 :: "arrow \<Rightarrow> 64 word list option" where
  "as_u64 (U64A xs) = Some xs"
| "as_u64 _ = None"

fun as_i64 :: "arrow \<Rightarrow> 64 word list option" where
  "as_i64 (I64A xs) = Some xs"
| "as_i64 _ = None"

fun as_f32 :: "arrow \<Rightarrow> 32 word list option" where
  "as_f32 (F32A xs) = Some xs"
| "as_f32 _ = None"

fun as_f64 :: "arrow \<Rightarrow> 64 word list option" where
  "as_f64 (F64A xs) = Some xs"
| "as_f64 _ = None"

fun as_strings :: "arrow \<Rightarrow> (bool list \<times> string list) option" where
  "as_strings (StrA v xs) = Some (v, xs)"
| "as_strings _ = None"

fun as_binary :: "arrow \<Rightarrow> (bool list \<times> bytes list) option" where
  "as_binary (BinA v xs) = Some (v, xs)"
| "as_binary _ = None"

text \<open>A successful downcast keeps the length.\<close>

lemma as_bool_len: "as_bool a = Some xs \<Longrightarrow> arr_len a = length xs"
  by (cases a) simp_all

lemma as_u8_len: "as_u8 a = Some xs \<Longrightarrow> arr_len a = length xs"
  by (cases a) simp_all

lemma as_i8_len: "as_i8 a = Some xs \<Longrightarrow> arr_len a = length xs"
  by (cases a) simp_all

lemma as_u16_len: "as_u16 a = Some xs \<Longrightarrow> arr_len a = length xs"
  by (cases a) simp_all

lemma as_i16_len: "as_i16 a = Some xs \<Longrightarrow> arr_len a = length xs"
  by (cases a) simp_all

lemma as_u32_len: "as_u32 a = Some xs \<Longrightarrow> arr_len a = length xs"
  by (cases a) simp_all

lemma as_i32_len: "as_i32 a = Some xs \<Longrightarrow> arr_len a = length xs"
  by (cases a) simp_all

lemma as_u64_len: "as_u64 a = Some xs \<Longrightarrow> arr_len a = length xs"
  by (cases a) simp_all

lemma as_i64_len: "as_i64 a = Some xs \<Longrightarrow> arr_len a = length xs"
  by (cases a) simp_all

lemma as_f32_len: "as_f32 a = Some xs \<Longrightarrow> arr_len a = length xs"
  by (cases a) simp_all

lemma as_f64_len: "as_f64 a = Some xs \<Longrightarrow> arr_len a = length xs"
  by (cases a) simp_all

lemma as_strings_len: "as_strings a = Some vs \<Longrightarrow> arr_len a = length (snd vs)"
  by (cases a) auto

lemmas downcast_len =
  as_bool_len as_u8_len as_i8_len as_u16_len as_i16_len as_u32_len
  as_i32_len as_u64_len as_i64_len as_f32_len as_f64_len as_strings_len

section \<open>Chunks\<close>

record 'e chunk =
  ch_entity :: 'e
  ch_static :: bool
  ch_num_rows :: usize
  ch_timelines :: "(string \<times> i64 list) list"
  ch_components :: "(string \<times> list_array) list"

definition column :: "'e chunk \<Rightarrow> string \<Rightarrow> list_array option" where
  "column c component = map_of (ch_components c) component"

definition times :: "'e chunk \<Rightarrow> string \<Rightarrow> i64 list option" where
  "times c name = map_of (ch_timelines c) name"

text \<open>
  \<open>Chunk::from_auto_row_ids\<close>, with \<open>ChunkId::new\<close> folded in: it takes an entity, the
  time columns and the component columns. Its documented behaviour is the law
  \<open>builds_chunks\<close>: columns that all cover the same rows make a chunk that returns them.
\<close>

type_synonym 'e chunk_builder =
  "'e \<Rightarrow> (string \<times> i64 list) list \<Rightarrow> (string \<times> list_array) list \<Rightarrow> 'e chunk result"

definition same_rows ::
  "nat \<Rightarrow> (string \<times> i64 list) list \<Rightarrow> (string \<times> list_array) list \<Rightarrow> bool" where
  "same_rows n ts cs \<longleftrightarrow>
     (\<forall>t \<in> set ts. length (snd t) = n) \<and> (\<forall>c \<in> set cs. list_len (snd c) = n)"

definition builds_chunks :: "'e chunk_builder \<Rightarrow> bool" where
  "builds_chunks build \<longleftrightarrow>
     (\<forall>e ts cs n.
        same_rows n ts cs \<longrightarrow> cs \<noteq> [] \<longrightarrow> distinct (map fst ts) \<longrightarrow> distinct (map fst cs) \<longrightarrow>
        (\<exists>c. build e ts cs = Inr c \<and> ch_entity c = e \<and> ch_num_rows c = n
           \<and> ch_static c = (ts = [])
           \<and> map_of (ch_timelines c) = map_of ts
           \<and> map_of (ch_components c) = map_of cs
           \<and> fst ` set (ch_components c) = fst ` set cs))"

text \<open>An instance of the law, for the witnesses.\<close>

definition plain_builder :: "'e chunk_builder" where
  "plain_builder e ts cs =
     Inr \<lparr>ch_entity = e, ch_static = (ts = []),
          ch_num_rows = (case cs of [] \<Rightarrow> 0 | c # _ \<Rightarrow> list_len (snd c)),
          ch_timelines = ts, ch_components = cs\<rparr>"

lemma plain_builder_builds: "builds_chunks plain_builder"
  by (auto simp: builds_chunks_def plain_builder_def same_rows_def split: list.splits)

lemma builds_chunksE:
  assumes "builds_chunks build" "same_rows n ts cs" "cs \<noteq> []"
    "distinct (map fst ts)" "distinct (map fst cs)"
  obtains c where "build e ts cs = Inr c" "ch_entity c = e" "ch_num_rows c = n"
    "ch_static c = (ts = [])" "\<And>name. times c name = map_of ts name"
    "\<And>comp. column c comp = map_of cs comp" "fst ` set (ch_components c) = fst ` set cs"
  using assms unfolding builds_chunks_def column_def times_def by metis

end
