(* ===== verification/Columns.thy ===== *)
theory Columns
  imports Arrow
begin

text \<open>
  The part of \<open>pipeline.rs\<close> the reader shares: the timelines and the components a
  topic's messages are stored under, and how a chunk is told to hold messages.
  \<open>ArchetypeName::try_new\<close> is a parameter, \<open>archetype_ok\<close>: whether a name is usable.
  A component identifier is written \<open>archetype:component\<close>, as in the source's comments.
\<close>

definition RECV_TIMESTAMP :: string where "RECV_TIMESTAMP = ''recv_timestamp''"
definition SEND_TIMESTAMP :: string where "SEND_TIMESTAMP = ''send_timestamp''"
definition SEQUENCE_NUMBER :: string where "SEQUENCE_NUMBER = ''sequence_number''"
definition HEADER_STAMP :: string where "HEADER_STAMP = ''header_stamp''"
definition REFLECTABLE_ENCODING :: string where "REFLECTABLE_ENCODING = ''ros2msg''"

definition descriptor :: "string \<Rightarrow> string \<Rightarrow> string" where
  "descriptor archetype component = archetype @ '':'' @ component"

definition raw_descriptor :: string where
  "raw_descriptor = descriptor ''rosbag2.SerializedBagMessage'' ''serialized_data''"

definition dotted :: "string \<Rightarrow> string" where
  "dotted type_name = map (\<lambda>c. if c = CHR ''/'' then CHR ''.'' else c) type_name"

definition reflected_descriptor :: "(string \<Rightarrow> bool) \<Rightarrow> string \<Rightarrow> string result" where
  "reflected_descriptor archetype_ok type_name =
     (if archetype_ok (dotted type_name) then Inr (descriptor (dotted type_name) ''message'')
      else Inl (NotReflectable type_name))"

record columns =
  col_raw :: string
  col_reflected :: "string option"

definition columns_for_type :: "(string \<Rightarrow> bool) \<Rightarrow> string \<Rightarrow> columns" where
  "columns_for_type archetype_ok type_name =
     \<lparr>col_raw = raw_descriptor,
      col_reflected =
        (case reflected_descriptor archetype_ok type_name of Inl _ \<Rightarrow> None | Inr d \<Rightarrow> Some d)\<rparr>"

definition holds_messages :: "columns \<Rightarrow> string list \<Rightarrow> bool" where
  "holds_messages cols components =
     list_ex (\<lambda>c. c = col_raw cols \<or> Some c = col_reflected cols) components"

definition holds_structs :: "columns \<Rightarrow> string list \<Rightarrow> bool" where
  "holds_structs cols components = list_ex (\<lambda>c. Some c = col_reflected cols) components"

text \<open>
  The struct column of a type is never the blob column: the component part of one is
  \<open>message\<close>, of the other \<open>serialized_data\<close>.
\<close>

lemma reflected_not_raw:
  "reflected_descriptor archetype_ok type_name = Inr d \<Longrightarrow> d \<noteq> raw_descriptor"
proof -
  assume "reflected_descriptor archetype_ok type_name = Inr d"
  then have "last d = CHR ''e''"
    by (auto simp: reflected_descriptor_def descriptor_def split: if_splits)
  moreover have "last raw_descriptor = CHR ''a''"
    by (simp add: raw_descriptor_def descriptor_def)
  ultimately show ?thesis by auto
qed

lemma columns_for_type_raw [simp]: "col_raw (columns_for_type ok t) = raw_descriptor"
  by (simp add: columns_for_type_def)

lemma columns_for_type_reflected [simp]:
  "col_reflected (columns_for_type ok t) = Some d \<longleftrightarrow> reflected_descriptor ok t = Inr d"
  by (auto simp: columns_for_type_def split: sum.splits)

lemmas timeline_names =
  RECV_TIMESTAMP_def SEND_TIMESTAMP_def SEQUENCE_NUMBER_def HEADER_STAMP_def

end
