(* ===== verification/Statics.thy ===== *)
theory Statics
  imports Columns
begin

text \<open>
  \<open>statics.rs\<close>: what a topic is, written as one static chunk when the topic is created
  and taken apart again when a recording is opened. The path of the bag metadata
  property (\<open>EntityPath::properties()\<close> joined with \<open>METADATA_PROPERTY\<close>) is a parameter.
\<close>

section \<open>Descriptors and records\<close>

definition METADATA_PROPERTY :: string where "METADATA_PROPERTY = ''rosbag2''"
definition TOPIC_METADATA :: string where "TOPIC_METADATA = ''rosbag2.TopicMetadata''"
definition MESSAGE_DEFINITION :: string where "MESSAGE_DEFINITION = ''rosbag2.MessageDefinition''"
definition FIELD_NAME :: string where "FIELD_NAME = ''name''"
definition FIELD_TYPE :: string where "FIELD_TYPE = ''type''"
definition FIELD_SERIALIZATION_FORMAT :: string where
  "FIELD_SERIALIZATION_FORMAT = ''serialization_format''"
definition FIELD_OFFERED_QOS_PROFILES :: string where
  "FIELD_OFFERED_QOS_PROFILES = ''offered_qos_profiles''"
definition FIELD_TYPE_DESCRIPTION_HASH :: string where
  "FIELD_TYPE_DESCRIPTION_HASH = ''type_description_hash''"
definition FIELD_ENCODING :: string where "FIELD_ENCODING = ''encoding''"
definition FIELD_ENCODED_MESSAGE_DEFINITION :: string where
  "FIELD_ENCODED_MESSAGE_DEFINITION = ''encoded_message_definition''"

lemmas statics_names =
  METADATA_PROPERTY_def TOPIC_METADATA_def MESSAGE_DEFINITION_def FIELD_NAME_def FIELD_TYPE_def
  FIELD_SERIALIZATION_FORMAT_def FIELD_OFFERED_QOS_PROFILES_def FIELD_TYPE_DESCRIPTION_HASH_def
  FIELD_ENCODING_def FIELD_ENCODED_MESSAGE_DEFINITION_def

definition metadata_descriptor :: string where
  "metadata_descriptor = descriptor TOPIC_METADATA ''metadata''"

definition definition_descriptor :: string where
  "definition_descriptor = descriptor MESSAGE_DEFINITION ''definition''"

record topic_record =
  rec_topic :: string
  rec_type_name :: string
  rec_schema_encoding :: string
  rec_schema_text :: bytes
  rec_qos_profiles :: string
  rec_type_hash :: string

section \<open>Writing\<close>

text \<open>
  \<open>StructArray::try_new\<close> refuses columns of different lengths. The struct is wrapped in
  a fixed-size list of one instance per row, which as a list array has one valid row that
  spans the record.
\<close>

definition one_row :: "(string \<times> arrow) list \<Rightarrow> list_array result" where
  "one_row fs =
     (case fs of
        [] \<Rightarrow> Inl (External ''use StructArray::try_new_with_length'')
      | f # _ \<Rightarrow>
          if \<forall>g \<in> set fs. arr_len (snd g) = arr_len (snd f)
          then Inr \<lparr>la_valid = replicate (arr_len (snd f)) True,
                    la_offsets = [0..<arr_len (snd f) + 1],
                    la_values = StructA (arr_len (snd f)) fs\<rparr>
          else Inl (External ''incorrect array length''))"

definition utf8_row :: "(string \<times> string) list \<Rightarrow> list_array result" where
  "utf8_row values = one_row (map (\<lambda>p. (fst p, StrA [True] [snd p])) values)"

definition topic_statics_chunk :: "'e chunk_builder \<Rightarrow> 'e \<Rightarrow> topic_record \<Rightarrow> 'e chunk result" where
  "topic_statics_chunk build entity r =
     (case utf8_row
             [(FIELD_NAME, rec_topic r),
              (FIELD_TYPE, rec_type_name r),
              (FIELD_SERIALIZATION_FORMAT, ''cdr''),
              (FIELD_OFFERED_QOS_PROFILES, rec_qos_profiles r),
              (FIELD_TYPE_DESCRIPTION_HASH, rec_type_hash r)] of
        Inl e \<Rightarrow> Inl e
      | Inr metadata \<Rightarrow>
          (case one_row
                  [(FIELD_ENCODING, StrA [True] [rec_schema_encoding r]),
                   (FIELD_ENCODED_MESSAGE_DEFINITION, BinA [True] [rec_schema_text r])] of
             Inl e \<Rightarrow> Inl e
           | Inr defn \<Rightarrow>
               build entity [] [(metadata_descriptor, metadata), (definition_descriptor, defn)]))"

section \<open>Reading\<close>

record topic_statics =
  st_topic :: "string option"
  st_type_name :: "string option"
  st_schema_encoding :: "string option"
  st_schema_text :: "bytes option"
  st_qos_profiles :: "string option"
  st_type_hash :: "string option"

definition no_statics :: topic_statics where
  "no_statics =
     \<lparr>st_topic = None, st_type_name = None, st_schema_encoding = None, st_schema_text = None,
      st_qos_profiles = None, st_type_hash = None\<rparr>"

definition blob_at :: "list_array \<Rightarrow> usize \<Rightarrow> bytes option" where
  "blob_at list row =
     (if row \<ge> list_len list \<or> list_is_null list row then None
      else (case as_list (list_value list row) of
              None \<Rightarrow> None
            | Some bytes \<Rightarrow>
                if list_len bytes = 0 then None else as_u8 (list_value bytes 0)))"

definition struct_row :: "'e chunk \<Rightarrow> string \<Rightarrow> (string \<times> arrow) list option" where
  "struct_row chunk component =
     (case column chunk component of
        None \<Rightarrow> None
      | Some list \<Rightarrow>
          if list_len list = 0 \<or> list_is_null list 0 then None
          else (case as_struct (list_value list 0) of
                  None \<Rightarrow> None
                | Some (n, fs) \<Rightarrow> if n = 0 then None else Some fs))"

definition struct_field :: "(string \<times> arrow) list \<Rightarrow> string \<Rightarrow> arrow option" where
  "struct_field fs name = map_of fs name"

definition struct_string :: "(string \<times> arrow) list \<Rightarrow> string \<Rightarrow> string option" where
  "struct_string fs name =
     (case struct_field fs name of
        None \<Rightarrow> None
      | Some a \<Rightarrow>
          (case as_strings a of
             None \<Rightarrow> None
           | Some (v, xs) \<Rightarrow> if xs \<noteq> [] \<and> v ! 0 then Some (xs ! 0) else None))"

definition struct_bytes :: "(string \<times> arrow) list \<Rightarrow> string \<Rightarrow> bytes option" where
  "struct_bytes fs name =
     (case struct_field fs name of
        None \<Rightarrow> None
      | Some a \<Rightarrow>
          (case as_binary a of
             None \<Rightarrow> None
           | Some (v, xs) \<Rightarrow> if xs \<noteq> [] \<and> v ! 0 then Some (xs ! 0) else None))"

text \<open>\<open>list.value(0)\<close> panics on a property chunk without rows.\<close>

definition read_metadata_property :: "'e \<Rightarrow> 'e chunk \<Rightarrow> string option result" where
  "read_metadata_property property_path chunk =
     (if ch_entity chunk \<noteq> property_path then Inr None
      else (case map_of (ch_components chunk) ''TextDocument:text'' of
              None \<Rightarrow> Inr None
            | Some list \<Rightarrow>
                if list_len list = 0 then Inl (Panicked ''index out of bounds'')
                else (case as_strings (list_value list 0) of
                        None \<Rightarrow> Inr None
                      | Some (v, xs) \<Rightarrow> Inr (if xs \<noteq> [] then Some (xs ! 0) else None))))"

definition set_metadata_fields :: "(string \<times> arrow) list \<Rightarrow> topic_statics \<Rightarrow> topic_statics" where
  "set_metadata_fields m s =
     s\<lparr>st_topic := struct_string m FIELD_NAME,
       st_type_name := struct_string m FIELD_TYPE,
       st_qos_profiles := struct_string m FIELD_OFFERED_QOS_PROFILES,
       st_type_hash := struct_string m FIELD_TYPE_DESCRIPTION_HASH\<rparr>"

definition set_definition_fields :: "(string \<times> arrow) list \<Rightarrow> topic_statics \<Rightarrow> topic_statics" where
  "set_definition_fields d s =
     s\<lparr>st_schema_encoding := struct_string d FIELD_ENCODING,
       st_schema_text := struct_bytes d FIELD_ENCODED_MESSAGE_DEFINITION\<rparr>"

type_synonym 'e found = "('e \<times> topic_statics) list"

definition collect :: "'e::linorder \<Rightarrow> 'e chunk \<Rightarrow> 'e found \<times> string option
    \<Rightarrow> ('e found \<times> string option) result" where
  "collect property_path chunk acc =
     (case read_metadata_property property_path chunk of
        Inl e \<Rightarrow> Inl e
      | Inr (Some yaml) \<Rightarrow> Inr (fst acc, Some yaml)
      | Inr None \<Rightarrow>
          (let metadata = struct_row chunk metadata_descriptor;
               defn = struct_row chunk definition_descriptor
           in if metadata = None \<and> defn = None then Inr acc
              else Inr (bt_entry (ch_entity chunk)
                          (\<lambda>old.
                             let s = unwrap_or old no_statics;
                                 s = (case metadata of None \<Rightarrow> s | Some m \<Rightarrow> set_metadata_fields m s)
                             in (case defn of None \<Rightarrow> s | Some d \<Rightarrow> set_definition_fields d s))
                          (fst acc),
                        snd acc)))"

fun collect_all :: "'e::linorder \<Rightarrow> 'e chunk list \<Rightarrow> 'e found \<times> string option
    \<Rightarrow> ('e found \<times> string option) result" where
  "collect_all property_path [] acc = Inr acc"
| "collect_all property_path (c # cs) acc =
     (case collect property_path c acc of
        Inl e \<Rightarrow> Inl e
      | Inr acc' \<Rightarrow> collect_all property_path cs acc')"

section \<open>What is written is what is read\<close>

definition statics_of :: "topic_record \<Rightarrow> topic_statics" where
  "statics_of r =
     \<lparr>st_topic = Some (rec_topic r), st_type_name = Some (rec_type_name r),
      st_schema_encoding = Some (rec_schema_encoding r),
      st_schema_text = Some (rec_schema_text r),
      st_qos_profiles = Some (rec_qos_profiles r), st_type_hash = Some (rec_type_hash r)\<rparr>"

lemma metadata_not_definition: "metadata_descriptor \<noteq> definition_descriptor"
  by (simp add: metadata_descriptor_def definition_descriptor_def descriptor_def statics_names)

lemma one_row_unit:
  "fs \<noteq> [] \<Longrightarrow> \<forall>f \<in> set fs. arr_len (snd f) = 1 \<Longrightarrow>
     one_row fs = Inr \<lparr>la_valid = [True], la_offsets = [0, 1], la_values = StructA 1 fs\<rparr>"
  by (cases fs) (auto simp: one_row_def upt_rec)

lemma struct_row_one_row:
  "column chunk d = Some \<lparr>la_valid = [True], la_offsets = [0, 1], la_values = StructA 1 fs\<rparr> \<Longrightarrow>
     struct_row chunk d = Some (map (\<lambda>p. (fst p, arr_slice 0 1 (snd p))) fs)"
  by (simp add: struct_row_def list_len_def list_is_null_def list_value_def)

lemma topic_statics_chunk_shape:
  assumes "builds_chunks build"
  obtains c where "topic_statics_chunk build entity r = Inr c" "ch_entity c = entity"
    "ch_static c" "struct_row c metadata_descriptor = Some
        [(FIELD_NAME, StrA [True] [rec_topic r]), (FIELD_TYPE, StrA [True] [rec_type_name r]),
         (FIELD_SERIALIZATION_FORMAT, StrA [True] [''cdr'']),
         (FIELD_OFFERED_QOS_PROFILES, StrA [True] [rec_qos_profiles r]),
         (FIELD_TYPE_DESCRIPTION_HASH, StrA [True] [rec_type_hash r])]"
    "struct_row c definition_descriptor = Some
        [(FIELD_ENCODING, StrA [True] [rec_schema_encoding r]),
         (FIELD_ENCODED_MESSAGE_DEFINITION, BinA [True] [rec_schema_text r])]"
proof -
  let ?m = "[(FIELD_NAME, StrA [True] [rec_topic r]), (FIELD_TYPE, StrA [True] [rec_type_name r]),
         (FIELD_SERIALIZATION_FORMAT, StrA [True] [''cdr'']),
         (FIELD_OFFERED_QOS_PROFILES, StrA [True] [rec_qos_profiles r]),
         (FIELD_TYPE_DESCRIPTION_HASH, StrA [True] [rec_type_hash r])]"
  let ?d = "[(FIELD_ENCODING, StrA [True] [rec_schema_encoding r]),
         (FIELD_ENCODED_MESSAGE_DEFINITION, BinA [True] [rec_schema_text r])]"
  let ?row = "\<lambda>fs. \<lparr>la_valid = [True], la_offsets = [0, 1], la_values = StructA 1 fs\<rparr>"
  let ?cs = "[(metadata_descriptor, ?row ?m), (definition_descriptor, ?row ?d)]"
  have eq: "topic_statics_chunk build entity r = build entity [] ?cs"
    by (simp add: topic_statics_chunk_def utf8_row_def one_row_unit)
  obtain c where c: "build entity [] ?cs = Inr c" "ch_entity c = entity" "ch_static c"
    "\<And>comp. column c comp = map_of ?cs comp"
    by (rule builds_chunksE [OF assms, of 1 "[]" ?cs entity])
      (auto simp: same_rows_def list_len_def metadata_not_definition)
  show thesis
    by (rule that [OF trans [OF eq c(1)] c(2,3)])
      (simp_all add: c(4) struct_row_one_row metadata_not_definition
        metadata_not_definition [symmetric])
qed

lemma fields_overwritten:
  "set_definition_fields
     [(FIELD_ENCODING, StrA [True] [rec_schema_encoding r]),
      (FIELD_ENCODED_MESSAGE_DEFINITION, BinA [True] [rec_schema_text r])]
     (set_metadata_fields
        [(FIELD_NAME, StrA [True] [rec_topic r]), (FIELD_TYPE, StrA [True] [rec_type_name r]),
         (FIELD_SERIALIZATION_FORMAT, StrA [True] [''cdr'']),
         (FIELD_OFFERED_QOS_PROFILES, StrA [True] [rec_qos_profiles r]),
         (FIELD_TYPE_DESCRIPTION_HASH, StrA [True] [rec_type_hash r])] s) = statics_of r"
  by (cases s)
    (simp add: set_metadata_fields_def set_definition_fields_def struct_string_def
      struct_bytes_def struct_field_def statics_names statics_of_def)

lemma collect_declared:
  assumes "builds_chunks build" "topic_statics_chunk build entity r = Inr c"
  shows "ch_entity c = entity" "ch_static c"
    "entity \<noteq> property_path \<Longrightarrow>
       collect property_path c (found, yaml) = Inr (bt_entry entity (\<lambda>_. statics_of r) found, yaml)"
proof -
  obtain c' where c': "topic_statics_chunk build entity r = Inr c'" "ch_entity c' = entity" "ch_static c'"
    "struct_row c' metadata_descriptor = Some
        [(FIELD_NAME, StrA [True] [rec_topic r]), (FIELD_TYPE, StrA [True] [rec_type_name r]),
         (FIELD_SERIALIZATION_FORMAT, StrA [True] [''cdr'']),
         (FIELD_OFFERED_QOS_PROFILES, StrA [True] [rec_qos_profiles r]),
         (FIELD_TYPE_DESCRIPTION_HASH, StrA [True] [rec_type_hash r])]"
    "struct_row c' definition_descriptor = Some
        [(FIELD_ENCODING, StrA [True] [rec_schema_encoding r]),
         (FIELD_ENCODED_MESSAGE_DEFINITION, BinA [True] [rec_schema_text r])]"
    by (rule topic_statics_chunk_shape [OF assms(1)])
  then have c: "c' = c" using assms(2) by simp
  show "ch_entity c = entity" "ch_static c" using c' c by simp_all
  assume "entity \<noteq> property_path"
  then show "collect property_path c (found, yaml) = Inr (bt_entry entity (\<lambda>_. statics_of r) found, yaml)"
    using c' c by (simp add: collect_def read_metadata_property_def fields_overwritten Let_def)
qed

text \<open>
  C25: what \<open>create_topic\<close> writes down about a topic is what opening the recording reads
  back. Whatever was found before, collecting the static chunk of a topic record sets the
  topic's entity to exactly the name, type, definition, encoding, QoS and hash that were
  recorded, overriding what an earlier chunk said, and leaves every other topic and the
  bag metadata alone.
\<close>

theorem collect_topic_statics:
  assumes "builds_chunks build" and "entity \<noteq> property_path" and "bt_sorted found"
  shows "\<exists>c found'. topic_statics_chunk build entity r = Inr c
           \<and> collect property_path c (found, yaml) = Inr (found', yaml)
           \<and> bt_sorted found' \<and> map_of found' = (map_of found)(entity \<mapsto> statics_of r)"
proof -
  obtain c where c: "topic_statics_chunk build entity r = Inr c"
    by (rule topic_statics_chunk_shape [OF assms(1)])
  show ?thesis
    using c collect_declared(3) [OF assms(1) c assms(2)] assms(3)
    by (auto simp: map_of_bt_entry bt_sorted_entry)
qed

definition sample_record :: topic_record where
  "sample_record =
     \<lparr>rec_topic = ''/chatter'', rec_type_name = ''std_msgs/msg/String'',
      rec_schema_encoding = ''ros2msg'', rec_schema_text = string_bytes ''string data'',
      rec_qos_profiles = ''- history: 3'', rec_type_hash = ''RIHS01_deadbeef''\<rparr>"

theorem collect_topic_statics_witness:
  "\<exists>c found'. topic_statics_chunk plain_builder (1::nat) sample_record = Inr c
     \<and> collect 0 c ([(1, no_statics), (2, no_statics)], None) = Inr (found', None)
     \<and> bt_sorted found'
     \<and> map_of found' = (map_of [(1, no_statics), (2, no_statics)])(1 \<mapsto> statics_of sample_record)"
  by (rule collect_topic_statics [OF plain_builder_builds]) simp_all

end
