(* ===== verification/Replay.thy ===== *)
theory Replay
  imports Arrow
begin

text \<open>
  \<open>replay.rs\<close>: one row of a decoded message column back out as CDR, walking the decode
  plan in field order. The plan (\<open>re_ros_msg\<close>) is the record of what the code reads from
  it. The writer (\<open>re_cdr\<close>'s \<open>CdrWriter\<close> on a byte buffer) is a parameter: one function
  per write the code calls, from the buffer before to the buffer after.
\<close>

section \<open>Plans and the CDR writer\<close>

datatype built_in =
    BoolT | ByteT | CharT | Int8T | UInt8T | Int16T | UInt16T | Int32T | UInt32T
  | Int64T | UInt64T | Float32T | Float64T | StringT "nat option" | WStringT "nat option"

datatype array_size = Fixed nat | Bounded nat | Unbounded

datatype value_layout = BuiltIn built_in | Message nat | Array value_layout array_size

record plan =
  plan_name :: string
  plan_root :: nat
  plan_message :: "nat \<Rightarrow> (string \<times> value_layout) list"

record cdr_writer =
  write_bool :: "bool \<Rightarrow> bytes \<Rightarrow> bytes"
  write_u8 :: "8 word \<Rightarrow> bytes \<Rightarrow> bytes"
  write_i8 :: "8 word \<Rightarrow> bytes \<Rightarrow> bytes"
  write_u16 :: "16 word \<Rightarrow> bytes \<Rightarrow> bytes"
  write_i16 :: "16 word \<Rightarrow> bytes \<Rightarrow> bytes"
  write_u32 :: "32 word \<Rightarrow> bytes \<Rightarrow> bytes"
  write_i32 :: "32 word \<Rightarrow> bytes \<Rightarrow> bytes"
  write_u64 :: "64 word \<Rightarrow> bytes \<Rightarrow> bytes"
  write_i64 :: "64 word \<Rightarrow> bytes \<Rightarrow> bytes"
  write_f32 :: "32 word \<Rightarrow> bytes \<Rightarrow> bytes"
  write_f64 :: "64 word \<Rightarrow> bytes \<Rightarrow> bytes"
  write_string :: "string \<Rightarrow> bytes \<Rightarrow> bytes"
  write_sequence_length :: "nat \<Rightarrow> bytes \<Rightarrow> bytes"

definition ENCAPSULATION :: bytes where
  "ENCAPSULATION = [0, 1, 0, 0]"

section \<open>Built-in values\<close>

text \<open>
  \<open>downcast(..)?.value(row)\<close> written with one of the writer's operations: the downcast
  fails on an array of another type, \<open>value\<close> panics past the end of the array.
\<close>

definition write_value ::
  "string \<Rightarrow> 'a list option \<Rightarrow> ('a \<Rightarrow> bytes \<Rightarrow> bytes) \<Rightarrow> usize \<Rightarrow> bytes \<Rightarrow> bytes result" where
  "write_value label cast write row w =
     (case cast of
        None \<Rightarrow> Inl (Downcast label)
      | Some xs \<Rightarrow>
          if row < length xs then Inr (write (xs ! row) w)
          else Inl (Panicked ''index out of bounds''))"

fun encode_builtin :: "cdr_writer \<Rightarrow> built_in \<Rightarrow> arrow \<Rightarrow> usize \<Rightarrow> bytes \<Rightarrow> bytes result" where
  "encode_builtin cw BoolT a row w = write_value ''bool'' (as_bool a) (write_bool cw) row w"
| "encode_builtin cw ByteT a row w = write_value ''uint8'' (as_u8 a) (write_u8 cw) row w"
| "encode_builtin cw CharT a row w = write_value ''uint8'' (as_u8 a) (write_u8 cw) row w"
| "encode_builtin cw UInt8T a row w = write_value ''uint8'' (as_u8 a) (write_u8 cw) row w"
| "encode_builtin cw Int8T a row w = write_value ''int8'' (as_i8 a) (write_i8 cw) row w"
| "encode_builtin cw Int16T a row w = write_value ''int16'' (as_i16 a) (write_i16 cw) row w"
| "encode_builtin cw UInt16T a row w = write_value ''uint16'' (as_u16 a) (write_u16 cw) row w"
| "encode_builtin cw Int32T a row w = write_value ''int32'' (as_i32 a) (write_i32 cw) row w"
| "encode_builtin cw UInt32T a row w = write_value ''uint32'' (as_u32 a) (write_u32 cw) row w"
| "encode_builtin cw Int64T a row w = write_value ''int64'' (as_i64 a) (write_i64 cw) row w"
| "encode_builtin cw UInt64T a row w = write_value ''uint64'' (as_u64 a) (write_u64 cw) row w"
| "encode_builtin cw Float32T a row w = write_value ''float32'' (as_f32 a) (write_f32 cw) row w"
| "encode_builtin cw Float64T a row w = write_value ''float64'' (as_f64 a) (write_f64 cw) row w"
| "encode_builtin cw (StringT b) a row w =
     write_value ''string'' (map_option snd (as_strings a)) (write_string cw) row w"
| "encode_builtin cw (WStringT b) a row w = Inl WStringUnsupported"

text \<open>
  The macro \<open>write_each!\<close> of the array routine: one downcast, then every element; the loop
  over \<open>0..values.len()\<close> is \<open>fold\<close> over the elements in order.
\<close>

definition write_each ::
  "string \<Rightarrow> 'a list option \<Rightarrow> ('a \<Rightarrow> bytes \<Rightarrow> bytes) \<Rightarrow> bytes \<Rightarrow> bytes result" where
  "write_each label cast write w =
     (case cast of None \<Rightarrow> Inl (Downcast label) | Some xs \<Rightarrow> Inr (fold write xs w))"

fun encode_builtin_array :: "cdr_writer \<Rightarrow> built_in \<Rightarrow> arrow \<Rightarrow> bytes \<Rightarrow> bytes result" where
  "encode_builtin_array cw ByteT a w = write_each ''uint8'' (as_u8 a) (write_u8 cw) w"
| "encode_builtin_array cw CharT a w = write_each ''uint8'' (as_u8 a) (write_u8 cw) w"
| "encode_builtin_array cw UInt8T a w = write_each ''uint8'' (as_u8 a) (write_u8 cw) w"
| "encode_builtin_array cw Int8T a w = write_each ''int8'' (as_i8 a) (write_i8 cw) w"
| "encode_builtin_array cw Int16T a w = write_each ''int16'' (as_i16 a) (write_i16 cw) w"
| "encode_builtin_array cw UInt16T a w = write_each ''uint16'' (as_u16 a) (write_u16 cw) w"
| "encode_builtin_array cw Int32T a w = write_each ''int32'' (as_i32 a) (write_i32 cw) w"
| "encode_builtin_array cw UInt32T a w = write_each ''uint32'' (as_u32 a) (write_u32 cw) w"
| "encode_builtin_array cw Int64T a w = write_each ''int64'' (as_i64 a) (write_i64 cw) w"
| "encode_builtin_array cw UInt64T a w = write_each ''uint64'' (as_u64 a) (write_u64 cw) w"
| "encode_builtin_array cw Float32T a w = write_each ''float32'' (as_f32 a) (write_f32 cw) w"
| "encode_builtin_array cw Float64T a w = write_each ''float64'' (as_f64 a) (write_f64 cw) w"
| "encode_builtin_array cw BoolT a w = write_each ''bool'' (as_bool a) (write_bool cw) w"
| "encode_builtin_array cw (StringT b) a w =
     write_each ''string'' (map_option snd (as_strings a)) (write_string cw) w"
| "encode_builtin_array cw (WStringT b) a w = Inl WStringUnsupported"

section \<open>Messages\<close>

text \<open>
  \<open>encode_message\<close> writes a message's fields in declaration order, \<open>encode_fields\<close> is its
  loop over the zipped fields and columns, \<open>encode_value\<close> writes one value and
  \<open>encode_elements\<close> is its loop over the elements \<open>index..len\<close> of an array. The recursion
  follows the nesting of the Arrow arrays, which slicing does not change.
\<close>

lemma as_struct_depth: "as_struct a = Some (n, fs) \<Longrightarrow> fields_depth fs < arr_depth a"
  by (cases a) auto

lemma list_value_depth: "as_list a = Some l \<Longrightarrow> arr_depth (list_value l row) < arr_depth a"
  by (cases a) (auto simp: list_value_def)

function encode_message ::
    "cdr_writer \<Rightarrow> plan \<Rightarrow> nat \<Rightarrow> (string \<times> arrow) list \<Rightarrow> usize \<Rightarrow> bytes \<Rightarrow> bytes result"
  and encode_fields ::
    "cdr_writer \<Rightarrow> plan \<Rightarrow> (string \<times> value_layout) list \<Rightarrow> (string \<times> arrow) list \<Rightarrow> usize \<Rightarrow> bytes
     \<Rightarrow> bytes result"
  and encode_value ::
    "cdr_writer \<Rightarrow> plan \<Rightarrow> value_layout \<Rightarrow> arrow \<Rightarrow> usize \<Rightarrow> bytes \<Rightarrow> bytes result"
  and encode_elements ::
    "cdr_writer \<Rightarrow> plan \<Rightarrow> value_layout \<Rightarrow> arrow \<Rightarrow> usize \<Rightarrow> usize \<Rightarrow> bytes \<Rightarrow> bytes result"
where
  "encode_message cw plan message_id message row w =
     (if length (plan_message plan message_id) \<noteq> length message
      then Inl (FieldCount (length message) (length (plan_message plan message_id)))
      else encode_fields cw plan (plan_message plan message_id) message row w)"
| "encode_fields cw plan [] columns row w = Inr w"
| "encode_fields cw plan (f # fs) [] row w = Inr w"
| "encode_fields cw plan (f # fs) (c # cs) row w =
     (case encode_value cw plan (snd f) (snd c) row w of
        Inl e \<Rightarrow> Inl e
      | Inr w' \<Rightarrow> encode_fields cw plan fs cs row w')"
| "encode_value cw plan (BuiltIn ty) array row w = encode_builtin cw ty array row w"
| "encode_value cw plan (Message message_id) array row w =
     (case as_struct array of
        None \<Rightarrow> Inl (Downcast ''struct'')
      | Some (n, nested) \<Rightarrow> encode_message cw plan message_id nested row w)"
| "encode_value cw plan (Array element sz) array row w =
     (case as_list array of
        None \<Rightarrow> Inl (Downcast ''list'')
      | Some list \<Rightarrow>
          if row + 1 \<ge> length (la_offsets list) then Inl (Panicked ''index out of bounds'')
          else
            (let len = arr_len (list_value list row)
             in (case (case sz of
                         Fixed expected \<Rightarrow>
                           if len = expected then Inr w else Inl (FixedSize len expected)
                       | Bounded _ \<Rightarrow> Inr (write_sequence_length cw len w)
                       | Unbounded \<Rightarrow> Inr (write_sequence_length cw len w)) of
                   Inl e \<Rightarrow> Inl e
                 | Inr w' \<Rightarrow>
                     (case element of
                        BuiltIn ty \<Rightarrow> encode_builtin_array cw ty (list_value list row) w'
                      | _ \<Rightarrow> encode_elements cw plan element (list_value list row) 0 len w'))))"
| "encode_elements cw plan element array index len w =
     (if index < len
      then (case encode_value cw plan element array index w of
              Inl e \<Rightarrow> Inl e
            | Inr w' \<Rightarrow> encode_elements cw plan element array (Suc index) len w')
      else Inr w)"
  by pat_completeness auto

termination
  by (relation
      "measures
         [\<lambda>x. case x of
            Inl (Inl (cw, plan, i, m, row, w)) \<Rightarrow> fields_depth m
          | Inl (Inr (cw, plan, fs, cs, row, w)) \<Rightarrow> fields_depth cs
          | Inr (Inl (cw, plan, l, a, row, w)) \<Rightarrow> arr_depth a
          | Inr (Inr (cw, plan, l, a, i, n, w)) \<Rightarrow> arr_depth a,
          \<lambda>x. case x of
            Inl (Inl _) \<Rightarrow> 2
          | Inl (Inr _) \<Rightarrow> 1
          | Inr (Inl _) \<Rightarrow> 0
          | Inr (Inr _) \<Rightarrow> 1,
          \<lambda>x. case x of
            Inl (Inl _) \<Rightarrow> 0
          | Inl (Inr (cw, plan, fs, cs, row, w)) \<Rightarrow> length fs
          | Inr (Inl _) \<Rightarrow> 0
          | Inr (Inr (cw, plan, l, a, i, n, w)) \<Rightarrow> n - i]")
    (auto dest: as_struct_depth list_value_depth simp: le_max_iff_disj not_le)

declare encode_elements.simps [simp del]

definition encode ::
  "cdr_writer \<Rightarrow> plan \<Rightarrow> (string \<times> arrow) list \<Rightarrow> usize \<Rightarrow> bytes result" where
  "encode cw plan root row =
     (case encode_message cw plan (plan_root plan) root row [] of
        Inl e \<Rightarrow> Inl e
      | Inr body \<Rightarrow> Inr (ENCAPSULATION @ body))"

section \<open>The array routine against the element loop\<close>

lemma encode_elements_fold:
  assumes "\<And>index w. index < len \<Longrightarrow>
    encode_value cw plan element a index w = Inr (write (xs ! index) w)"
    and "len = length xs" and "index \<le> len"
  shows "encode_elements cw plan element a index len w = Inr (fold write (drop index xs) w)"
  using assms(3)
proof (induction "len - index" arbitrary: index w)
  case 0
  then show ?case using assms(2) by (simp add: encode_elements.simps)
next
  case (Suc n)
  then have less: "index < length xs" using assms(2) by simp
  then have "drop index xs = xs ! index # drop (Suc index) xs"
    by (simp add: Cons_nth_drop_Suc)
  with less Suc assms(1,2) show ?case
    by (simp add: encode_elements.simps [of cw plan element a index])
qed

lemma encode_elements_error:
  "0 < len \<Longrightarrow> encode_value cw plan element a 0 w = Inl e \<Longrightarrow>
     encode_elements cw plan element a 0 len w = Inl e"
  by (simp add: encode_elements.simps [of cw plan element a 0])

lemma write_each_loop:
  assumes "\<And>index w. encode_value cw plan element a index w = write_value label cast write index w"
    and "\<And>xs. cast = Some xs \<Longrightarrow> arr_len a = length xs" and "0 < arr_len a"
  shows "write_each label cast write w = encode_elements cw plan element a 0 (arr_len a) w"
proof (cases cast)
  case None
  then show ?thesis
    using assms(1,3) by (simp add: write_each_def write_value_def encode_elements_error)
next
  case (Some xs)
  then have "encode_elements cw plan element a 0 (arr_len a) w = Inr (fold write (drop 0 xs) w)"
    using assms(1,2) by (intro encode_elements_fold) (auto simp: write_value_def)
  with Some show ?thesis by (simp add: write_each_def)
qed

text \<open>
  C27: the array routine, which downcasts once and writes all the elements, computes what
  writing the elements one at a time through \<open>encode_value\<close> computes: the same bytes, or
  the same error, for every built-in type and every non-empty array.
\<close>

theorem encode_builtin_array_is_element_loop:
  assumes "0 < arr_len a"
  shows "encode_builtin_array cw ty a w = encode_elements cw plan (BuiltIn ty) a 0 (arr_len a) w"
proof (cases ty)
  case (StringT b)
  show ?thesis
    unfolding StringT encode_builtin_array.simps
    by (rule write_each_loop) (auto simp: assms downcast_len)
next
  case (WStringT b)
  then show ?thesis by (simp add: assms encode_elements_error)
qed (simp_all only: encode_builtin_array.simps,
     (rule write_each_loop, (simp_all add: assms downcast_len)[3])+)

definition plain_writer :: cdr_writer where
  "plain_writer =
     \<lparr>write_bool = (\<lambda>b w. w @ [if b then 1 else 0]), write_u8 = (\<lambda>b w. w @ [b]),
      write_i8 = (\<lambda>b w. w @ [b]), write_u16 = (\<lambda>b w. w @ [ucast b]),
      write_i16 = (\<lambda>b w. w @ [ucast b]), write_u32 = (\<lambda>b w. w @ [ucast b]),
      write_i32 = (\<lambda>b w. w @ [ucast b]), write_u64 = (\<lambda>b w. w @ [ucast b]),
      write_i64 = (\<lambda>b w. w @ [ucast b]), write_f32 = (\<lambda>b w. w @ [ucast b]),
      write_f64 = (\<lambda>b w. w @ [ucast b]), write_string = (\<lambda>s w. w @ string_bytes s),
      write_sequence_length = (\<lambda>n w. w @ [word_of_nat n])\<rparr>"

definition bytes_plan :: plan where
  "bytes_plan =
     \<lparr>plan_name = ''std_msgs/msg/UInt8MultiArray'', plan_root = 0,
      plan_message = (\<lambda>_. [(''data'', Array (BuiltIn UInt8T) Unbounded)])\<rparr>"

theorem encode_builtin_array_is_element_loop_witness:
  "encode_builtin_array plain_writer UInt8T (U8A [7, 8, 9]) [1] =
     encode_elements plain_writer bytes_plan (BuiltIn UInt8T) (U8A [7, 8, 9]) 0 (arr_len (U8A [7, 8, 9])) [1]"
  by (rule encode_builtin_array_is_element_loop) simp

end
