(* ===== verification/Index.thy ===== *)
theory Index
  imports Columns
begin

text \<open>
  \<open>index.rs\<close>: the chunk index read out of a recording's footer. What the decoding
  libraries say about the file is the record \<open>rrd_file\<close>: whether it opens, its footer
  and manifests, the chunks it returns for given ids, and the messages of a forward pass.
\<close>

section \<open>The file, as its libraries show it\<close>

type_synonym chunk_id = nat

record 'e manifest =
  m_chunk_ids :: "chunk_id list"
  m_entities :: "'e list"
  m_is_static :: "bool list"
  m_num_rows :: "nat list"
  m_temporal :: "('e \<times> (string \<times> (string \<times> (chunk_id \<times> i64 \<times> i64) list) list) list) list"

text \<open>A log message carries the recording id of its store, and maybe a chunk that decodes.\<close>

datatype 'e log_msg = ArrowMsg string "'e chunk option" | OtherMsg string

fun store_recording_id :: "'e log_msg \<Rightarrow> string" where
  "store_recording_id (ArrowMsg s c) = s"
| "store_recording_id (OtherMsg s) = s"

record 'e rrd_file =
  f_opens :: bool
  f_footer :: "(string \<times> 'e manifest option) list option result"
  f_read_chunks :: "chunk_id list \<Rightarrow> 'e chunk list result"
  f_decode :: "'e log_msg result list option"

section \<open>The index\<close>

record 'e chunk_ref =
  cr_id :: chunk_id
  cr_entity :: 'e
  cr_num_rows :: nat
  cr_start :: i64
  cr_end :: i64
  cr_components :: "string list"

record 'e chunk_index =
  ix_recording_id :: string
  ix_chunks :: "'e chunk_ref list"
  ix_temporal_chunks :: usize
  ix_max_end_through :: "i64 list"
  ix_statics :: "chunk_id list"

record chunk_summary =
  su_start :: i64
  su_end :: i64
  su_components :: "string list"

type_synonym summaries = "chunk_id \<Rightarrow> chunk_summary option"

definition add_entry :: "string \<Rightarrow> chunk_id \<times> i64 \<times> i64 \<Rightarrow> summaries \<Rightarrow> summaries" where
  "add_entry component entry m =
     (case entry of (cid, lo, hi) \<Rightarrow>
        let s = unwrap_or (m cid) \<lparr>su_start = lo, su_end = hi, su_components = []\<rparr>
        in m(cid \<mapsto> \<lparr>su_start = min (su_start s) lo, su_end = max (su_end s) hi,
                    su_components = su_components s @ [component]\<rparr>))"

definition summarize :: "'e manifest \<Rightarrow> summaries" where
  "summarize manifest =
     fold (\<lambda>(_, timelines).
       fold (\<lambda>(timeline, components).
         if timeline \<noteq> RECV_TIMESTAMP then id
         else fold (\<lambda>(component, entries). fold (add_entry component) entries) components)
       timelines)
     (m_temporal manifest) Map.empty"

text \<open>
  The loop of \<open>ChunkIndex::open\<close> over the chunk ids: the message chunks, the static
  chunks, and how many chunks are not static.
\<close>

fun classify :: "'e manifest \<Rightarrow> nat \<Rightarrow> chunk_id list \<Rightarrow> summaries
    \<Rightarrow> 'e chunk_ref list \<times> chunk_id list \<times> usize" where
  "classify manifest i [] summaries = ([], [], 0)"
| "classify manifest i (cid # ids) summaries =
     (if unwrap_or (get (m_is_static manifest) i) False then
        (case classify manifest (Suc i) ids summaries of
           (chunks, statics, temporal) \<Rightarrow> (chunks, cid # statics, temporal))
      else
        (case summaries cid of
           None \<Rightarrow>
             (case classify manifest (Suc i) ids summaries of
                (chunks, statics, temporal) \<Rightarrow> (chunks, statics, Suc temporal))
         | Some s \<Rightarrow>
             (case classify manifest (Suc i) ids (summaries(cid := None)) of
                (chunks, statics, temporal) \<Rightarrow>
                  (case get (m_entities manifest) i of
                     None \<Rightarrow> (chunks, statics, Suc temporal)
                   | Some entity \<Rightarrow>
                       (\<lparr>cr_id = cid, cr_entity = entity,
                         cr_num_rows = unwrap_or (get (m_num_rows manifest) i) 0,
                         cr_start = su_start s, cr_end = su_end s,
                         cr_components = su_components s\<rparr> # chunks,
                        statics, Suc temporal)))))"

fun running_max :: "i64 \<Rightarrow> 'e chunk_ref list \<Rightarrow> i64 list" where
  "running_max max_end [] = []"
| "running_max max_end (c # cs) =
     (let max_end = max max_end (cr_end c) in max_end # running_max max_end cs)"

definition recompute_max_end_through :: "'e chunk_index \<Rightarrow> 'e chunk_index" where
  "recompute_max_end_through ix =
     ix\<lparr>ix_max_end_through := running_max i64_MIN (ix_chunks ix)\<rparr>"

definition index_open :: "'e rrd_file \<Rightarrow> 'e chunk_index option result" where
  "index_open file =
     (if \<not> f_opens file then Inl OpenFailed
      else
        (case (case f_footer file of Inl _ \<Rightarrow> None | Inr footer \<Rightarrow> footer) of
           None \<Rightarrow> Inr None
         | Some [] \<Rightarrow> Inr None
         | Some ((recording_id, raw) # _) \<Rightarrow>
             (case raw of
                None \<Rightarrow> Inl (External ''failed to interpret the manifest of the recording'')
              | Some manifest \<Rightarrow>
                  (case classify manifest 0 (m_chunk_ids manifest) (summarize manifest) of
                     (chunks, statics, temporal) \<Rightarrow>
                       Inr (Some (recompute_max_end_through
                         \<lparr>ix_recording_id = recording_id,
                          ix_chunks = sort_key (\<lambda>c. (cr_start c, cr_end c)) chunks,
                          ix_temporal_chunks = temporal,
                          ix_max_end_through = [],
                          ix_statics = statics\<rparr>))))))"

definition index_retain :: "('e chunk_ref \<Rightarrow> bool) \<Rightarrow> 'e chunk_index \<Rightarrow> 'e chunk_index" where
  "index_retain keep ix =
     recompute_max_end_through (ix\<lparr>ix_chunks := filter keep (ix_chunks ix)\<rparr>)"

definition index_load :: "'e rrd_file \<Rightarrow> chunk_id list \<Rightarrow> 'e chunk list result" where
  "index_load file ids = (if ids = [] then Inr [] else f_read_chunks file ids)"

definition index_message_count :: "'e chunk_index \<Rightarrow> usize" where
  "index_message_count ix = wrap_u64 (sum_list (map cr_num_rows (ix_chunks ix)))"

definition index_time_range :: "'e chunk_index \<Rightarrow> (i64 \<times> i64) option" where
  "index_time_range ix =
     (case ix_chunks ix of
        [] \<Rightarrow> None
      | c # cs \<Rightarrow> Some (cr_start c, Max (set (map cr_end (c # cs)))))"

section \<open>The invariant of the index\<close>

text \<open>
  The chunks are in order of their start time, and \<open>max_end_through[i]\<close> is the latest end
  among \<open>chunks[..=i]\<close>, which is what reverse playback relies on.
\<close>

definition index_wf :: "'e chunk_index \<Rightarrow> bool" where
  "index_wf ix \<longleftrightarrow>
     sorted (map cr_start (ix_chunks ix))
     \<and> ix_max_end_through ix = running_max i64_MIN (ix_chunks ix)"

lemma length_running_max [simp]: "length (running_max m cs) = length cs"
  by (induction m cs rule: running_max.induct) (auto simp: Let_def)

lemma running_max_nth:
  "i < length cs \<Longrightarrow> running_max m cs ! i = Max (insert m (cr_end ` set (take (Suc i) cs)))"
proof (induction m cs arbitrary: i rule: running_max.induct)
  case (2 m c cs)
  show ?case
  proof (cases i)
    case (Suc j)
    with 2 have "running_max (max m (cr_end c)) cs ! j
        = Max (insert (max m (cr_end c)) (cr_end ` set (take (Suc j) cs)))"
      by simp
    also have "\<dots> = Max (insert m (cr_end ` set (take (Suc i) (c # cs))))"
      using Suc by (cases "set (take (Suc j) cs) = {}") (simp_all add: Max_insert max.assoc)
    finally show ?thesis using Suc by (simp add: Let_def)
  qed (simp add: Let_def)
qed simp

lemma max_end_bounds:
  assumes "index_wf ix" "i < length (ix_chunks ix)" "c \<in> set (take (Suc i) (ix_chunks ix))"
  shows "cr_end c \<le> ix_max_end_through ix ! i"
  using assms by (auto simp: index_wf_def running_max_nth intro!: Max_ge)

lemma sorted_map_fst: "sorted (map f xs) \<Longrightarrow> sorted (map (\<lambda>x. fst (f x)) xs)"
  by (induction xs) (auto simp: less_eq_prod_def)

lemma index_retain_wf: "index_wf ix \<Longrightarrow> index_wf (index_retain keep ix)"
  by (simp add: index_wf_def index_retain_def recompute_max_end_through_def sorted_filter)

lemma index_open_wf: "index_open file = Inr (Some ix) \<Longrightarrow> index_wf ix"
  using sorted_map_fst [OF sorted_sort_key [of "\<lambda>c. (cr_start c, cr_end c)"]]
  by (auto simp: index_open_def index_wf_def recompute_max_end_through_def
      split: if_splits sum.splits option.splits list.splits prod.splits)

text \<open>
  C24: every index \<open>ChunkIndex::open\<close> builds, and every index \<open>retain\<close> makes of it, has
  its chunks in order of start time, one entry of \<open>max_end_through\<close> per chunk, and each
  entry the latest end among the chunks up to it (or \<open>i64::MIN\<close> below all of them).
\<close>

theorem index_invariant:
  assumes "index_open file = Inr (Some ix)"
  shows "let jx = index_retain keep ix; n = length (ix_chunks jx)
         in sorted (map cr_start (ix_chunks jx))
            \<and> length (ix_max_end_through jx) = n
            \<and> list_all (\<lambda>i. ix_max_end_through jx ! i =
                 Max (insert i64_MIN (cr_end ` set (take (Suc i) (ix_chunks jx))))) [0..<n]"
  using index_retain_wf [OF index_open_wf [OF assms], of keep]
  by (auto simp: index_wf_def Let_def list_all_iff running_max_nth)

text \<open>Two topics, the second chunk of the first one starting before its first.\<close>

definition sample_manifest :: "nat manifest" where
  "sample_manifest =
     \<lparr>m_chunk_ids = [10, 11, 12, 13], m_entities = [1, 1, 2, 3],
      m_is_static = [True, False, False, False], m_num_rows = [1, 2, 2, 5],
      m_temporal =
        [(1, [(''recv_timestamp'', [(raw_descriptor, [(11, 5, 9)])]),
              (''log_time'', [(raw_descriptor, [(11, 0, 1)])])]),
         (2, [(''recv_timestamp'', [(raw_descriptor, [(12, 2, 20)]), (''x'', [(12, 1, 3)])])])]\<rparr>"

definition sample_indexed_file :: "nat rrd_file" where
  "sample_indexed_file =
     \<lparr>f_opens = True, f_footer = Inr (Some [(''rec'', Some sample_manifest)]),
      f_read_chunks = (\<lambda>_. Inr []), f_decode = None\<rparr>"

lemma index_open_sample:
  "index_open sample_indexed_file =
     Inr (Some \<lparr>ix_recording_id = ''rec'',
        ix_chunks =
          [\<lparr>cr_id = 12, cr_entity = 2, cr_num_rows = 2, cr_start = 1, cr_end = 20,
            cr_components = [raw_descriptor, ''x'']\<rparr>,
           \<lparr>cr_id = 11, cr_entity = 1, cr_num_rows = 2, cr_start = 5, cr_end = 9,
            cr_components = [raw_descriptor]\<rparr>],
        ix_temporal_chunks = 3, ix_max_end_through = [20, 20], ix_statics = [10]\<rparr>)"
  by (simp add: index_open_def sample_indexed_file_def sample_manifest_def summarize_def
      add_entry_def RECV_TIMESTAMP_def get_def recompute_max_end_through_def i64_MIN_def
      numeral_eq_Suc Let_def)

theorem index_invariant_witness:
  "\<exists>ix. index_open sample_indexed_file = Inr (Some ix)
     \<and> sorted (map cr_start (ix_chunks (index_retain (\<lambda>c. cr_entity c = 2) ix)))"
  using index_invariant [OF index_open_sample, of "\<lambda>c. cr_entity c = 2"] index_open_sample
  by (auto simp: Let_def)

lemma time_range_hull:
  assumes "index_wf ix" "ix_chunks ix \<noteq> []"
  shows "index_time_range ix = Some (Min (cr_start ` set (ix_chunks ix)), Max (cr_end ` set (ix_chunks ix)))"
proof -
  obtain c cs where chunks: "ix_chunks ix = c # cs" using assms(2) by (cases "ix_chunks ix") auto
  then have "Min (cr_start ` set (c # cs)) = cr_start c"
    using assms(1) by (intro Min_eqI) (auto simp: index_wf_def)
  with chunks show ?thesis by (simp add: index_time_range_def)
qed

text \<open>
  C32: the time range of a well-formed index is the earliest start and the latest end of
  its chunks, in every index that has a chunk, and there is none in an index without.
\<close>

theorem index_time_range_is_hull:
  assumes "index_wf ix"
  shows "index_time_range ix =
     (if ix_chunks ix = [] then None
      else Some (Min (cr_start ` set (ix_chunks ix)), Max (cr_end ` set (ix_chunks ix))))"
  using time_range_hull [OF assms] by (simp add: index_time_range_def)

theorem index_time_range_is_hull_witness:
  "\<exists>ix. index_open sample_indexed_file = Inr (Some ix) \<and> index_time_range ix = Some (1, 20)"
  using index_time_range_is_hull [OF index_open_wf [OF index_open_sample]] index_open_sample
  by auto

end
