(* ===== verification/Window.thy ===== *)
theory Window
  imports Statics Replay Index
begin

text \<open>
  The parts of \<open>reader.rs\<close> below the reader itself: what a topic looked like when it was
  recorded, what a scan keeps of a chunk, and the window that holds one chunk's rows
  while they are being replayed.
\<close>

section \<open>Topics\<close>

record topic_info =
  ti_name :: string
  ti_type_name :: string
  ti_schema_encoding :: string
  ti_schema_text :: bytes
  ti_qos_profiles :: string
  ti_type_hash :: string
  ti_message_count :: usize
  ti_columns :: columns
  ti_plan :: "plan option"

definition topic_info_of :: "(string \<Rightarrow> bool) \<Rightarrow> topic_statics \<Rightarrow> topic_info option" where
  "topic_info_of archetype_ok s =
     (case st_topic s of
        None \<Rightarrow> None
      | Some name \<Rightarrow>
          (let type_name = unwrap_or (st_type_name s) []
           in Some \<lparr>ti_name = name, ti_type_name = type_name,
                    ti_schema_encoding = unwrap_or (st_schema_encoding s) [],
                    ti_schema_text = unwrap_or (st_schema_text s) [],
                    ti_qos_profiles = unwrap_or (st_qos_profiles s) [],
                    ti_type_hash = unwrap_or (st_type_hash s) [],
                    ti_message_count = 0,
                    ti_columns = columns_for_type archetype_ok type_name,
                    ti_plan = None\<rparr>))"

text \<open>
  \<open>MessageSchema::parse\<close> followed by \<open>MessageDecodePlan::from_schema\<close> is the parameter
  \<open>make_plan\<close>, of the type name and the definition.
\<close>

definition decode_plan ::
  "(string \<Rightarrow> string \<Rightarrow> plan option) \<Rightarrow> string \<Rightarrow> bytes \<Rightarrow> plan option" where
  "decode_plan make_plan type_name schema_text =
     (case from_utf8 schema_text of
        None \<Rightarrow> None
      | Some text \<Rightarrow> if blank text then None else make_plan type_name text)"

section \<open>Scanned chunks\<close>

record 'e scanned_chunk =
  sc_entity :: 'e
  sc_components :: "string list"
  sc_num_rows :: usize
  sc_earliest :: i64
  sc_time_range :: "(i64 \<times> i64) option"

fun widen :: "i64 \<Rightarrow> i64 \<times> (i64 \<times> i64) option \<Rightarrow> i64 \<times> (i64 \<times> i64) option" where
  "widen t (earliest, None) = (min earliest t, Some (t, t))"
| "widen t (earliest, Some (s, e)) = (min earliest t, Some (min s t, max e t))"

definition scan_chunk :: "'e chunk \<Rightarrow> 'e scanned_chunk" where
  "scan_chunk chunk =
     (let r = fold widen (unwrap_or (times chunk RECV_TIMESTAMP) []) (i64_MAX, None)
      in \<lparr>sc_entity = ch_entity chunk, sc_components = map fst (ch_components chunk),
          sc_num_rows = ch_num_rows chunk, sc_earliest = fst r, sc_time_range = snd r\<rparr>)"

section \<open>Windows\<close>

type_synonym sort_key = "i64 \<times> i64"

record window =
  w_topic :: usize
  w_recv :: "i64 list"
  w_send :: "i64 list"
  w_seq :: "i64 list"
  w_blobs :: "list_array option"
  w_messages :: "(string \<times> arrow) list option"
  w_next :: usize
  w_reversed :: bool

definition w_head :: "window \<Rightarrow> (i64 \<times> i64) option" where
  "w_head w =
     (case get (w_recv w) (w_next w) of
        None \<Rightarrow> None
      | Some recv \<Rightarrow> Some (recv, unwrap_or (get (w_send w) (w_next w)) recv))"

definition sequence_number :: "window \<Rightarrow> usize \<Rightarrow> i64" where
  "sequence_number w row = unwrap_or (get (w_seq w) row) 0"

definition w_key :: "window \<Rightarrow> sort_key option" where
  "w_key w =
     (case get (w_recv w) (w_next w) of
        None \<Rightarrow> None
      | Some recv \<Rightarrow> Some (recv, sequence_number w (w_next w)))"

definition w_reverse :: "window \<Rightarrow> window" where
  "w_reverse w =
     w\<lparr>w_recv := rev (w_recv w), w_send := rev (w_send w), w_seq := rev (w_seq w),
       w_reversed := True\<rparr>"

definition data_row :: "window \<Rightarrow> usize \<Rightarrow> usize" where
  "data_row w row = (if w_reversed w then length (w_recv w) - 1 - row else row)"

definition load_window :: "'e chunk \<Rightarrow> usize \<Rightarrow> topic_info \<Rightarrow> window option result" where
  "load_window chunk topic info =
     (let recv = unwrap_or (times chunk RECV_TIMESTAMP) [];
          send = unwrap_or (times chunk SEND_TIMESTAMP) recv;
          seq = unwrap_or (times chunk SEQUENCE_NUMBER) [];
          blobs = column chunk (col_raw (ti_columns info))
      in (case (case col_reflected (ti_columns info) of
                  None \<Rightarrow> Inr None
                | Some reflected \<Rightarrow>
                    (case column chunk reflected of
                       None \<Rightarrow> Inr None
                     | Some list \<Rightarrow>
                         (case as_struct (la_values list) of
                            None \<Rightarrow> Inl NotAStruct
                          | Some (n, fs) \<Rightarrow> Inr (Some fs)))) of
            Inl e \<Rightarrow> Inl e
          | Inr messages \<Rightarrow>
              if blobs = None \<and> messages = None then Inr None
              else Inr (Some \<lparr>w_topic = topic, w_recv = recv, w_send = send, w_seq = seq,
                             w_blobs = blobs, w_messages = messages, w_next = 0,
                             w_reversed = False\<rparr>)))"

text \<open>The payload of a row: the blob where there is one, the re-encoded struct otherwise.\<close>

definition row_payload :: "cdr_writer \<Rightarrow> topic_info list \<Rightarrow> window \<Rightarrow> usize \<Rightarrow> bytes result" where
  "row_payload cw topics w row =
     (let i = data_row w row
      in (case (case w_blobs w of None \<Rightarrow> None | Some blobs \<Rightarrow> blob_at blobs i) of
            Some bs \<Rightarrow> Inr bs
          | None \<Rightarrow>
              (case w_messages w of
                 None \<Rightarrow> Inl (NoPayload i)
               | Some messages \<Rightarrow>
                   (case ti_plan (topics ! w_topic w) of
                      None \<Rightarrow> Inl (NoPlan (w_topic w))
                    | Some p \<Rightarrow> encode cw p messages i))))"

section \<open>The rows of a window\<close>

text \<open>
  What a row hands to the caller: its sort key, its topic, its send time and its payload.
  \<open>pending w\<close> are the rows a window has still to emit, in the order it emits them.
\<close>

type_synonym row = "sort_key \<times> usize \<times> i64 \<times> bytes result"

abbreviation row_key :: "row \<Rightarrow> sort_key" where
  "row_key r \<equiv> fst r"

definition row_at :: "cdr_writer \<Rightarrow> topic_info list \<Rightarrow> window \<Rightarrow> usize \<Rightarrow> row" where
  "row_at cw topics w i =
     ((w_recv w ! i, sequence_number w i), w_topic w, unwrap_or (get (w_send w) i) (w_recv w ! i),
      row_payload cw topics w i)"

definition pending :: "cdr_writer \<Rightarrow> topic_info list \<Rightarrow> window \<Rightarrow> row list" where
  "pending cw topics w = map (row_at cw topics w) [w_next w..<length (w_recv w)]"

lemma pending_Nil [simp]: "pending cw topics w = [] \<longleftrightarrow> length (w_recv w) \<le> w_next w"
  by (auto simp: pending_def)

lemma w_head_None [simp]: "w_head w = None \<longleftrightarrow> length (w_recv w) \<le> w_next w"
  by (auto simp: w_head_def split: option.splits)

lemma w_key_None [simp]: "w_key w = None \<longleftrightarrow> length (w_recv w) \<le> w_next w"
  by (auto simp: w_key_def split: option.splits)

lemma row_at_next [simp]: "row_at cw topics (w\<lparr>w_next := n\<rparr>) i = row_at cw topics w i"
  by (simp add: row_at_def sequence_number_def row_payload_def data_row_def cong: option.case_cong)

lemma pending_Cons:
  "w_next w < length (w_recv w) \<Longrightarrow>
     pending cw topics w =
       row_at cw topics w (w_next w) # pending cw topics (w\<lparr>w_next := Suc (w_next w)\<rparr>)"
  by (simp add: pending_def upt_conv_Cons)

lemma w_key_hd:
  "w_key w = Some k \<Longrightarrow> w_next w < length (w_recv w) \<and> row_key (row_at cw topics w (w_next w)) = k"
  by (auto simp: w_key_def row_at_def split: option.splits)

lemma w_head_hd:
  "w_head w = Some h \<Longrightarrow>
     w_next w < length (w_recv w) \<and> fst (row_key (row_at cw topics w (w_next w))) = fst h"
  by (auto simp: w_head_def row_at_def split: option.splits)

text \<open>Reversing a window whose three timelines cover the same rows reverses its rows.\<close>

definition same_length :: "window \<Rightarrow> bool" where
  "same_length w \<longleftrightarrow> length (w_send w) = length (w_recv w) \<and> length (w_seq w) = length (w_recv w)"

lemma row_at_reverse:
  assumes "same_length w" "\<not> w_reversed w" "i < length (w_recv w)"
  shows "row_at cw topics (w_reverse w) i = row_at cw topics w (length (w_recv w) - 1 - i)"
  using assms
  by (auto simp: row_at_def w_reverse_def sequence_number_def get_def rev_nth same_length_def
      row_payload_def data_row_def cong: option.case_cong)

lemma pending_reverse:
  assumes "same_length w" "\<not> w_reversed w" "w_next w = 0"
  shows "pending cw topics (w_reverse w) = rev (pending cw topics w)"
proof (rule nth_equalityI)
  show "length (pending cw topics (w_reverse w)) = length (rev (pending cw topics w))"
    using assms(3) by (simp add: pending_def w_reverse_def)
next
  fix i assume i: "i < length (pending cw topics (w_reverse w))"
  then have "i < length (w_recv w)"
    using assms(3) by (simp add: pending_def w_reverse_def)
  then show "pending cw topics (w_reverse w) ! i = rev (pending cw topics w) ! i"
    using assms row_at_reverse [OF assms(1,2)]
    by (simp add: pending_def rev_nth) (simp add: w_reverse_def)
qed

lemma load_window_fresh:
  "load_window chunk topic info = Inr (Some w) \<Longrightarrow>
     w_next w = 0 \<and> \<not> w_reversed w \<and> w_topic w = topic
     \<and> w_recv w = unwrap_or (times chunk RECV_TIMESTAMP) []"
  by (auto simp: load_window_def Let_def split: sum.splits if_splits option.splits prod.splits)

end
