(* ===== verification/Reader.thy ===== *)
theory Reader
  imports Window
begin

text \<open>
  \<open>reader.rs\<close>: one recording opened for reading. Every method of \<open>Reader\<close> is a function
  from the reader before to the result and the reader after, so that what a failing call
  leaves behind is modelled too. The libraries are the record \<open>reader_env\<close>: the file as
  the decoding libraries show it, the path of the metadata property, which names are
  archetype names, the decode plan of a definition, and the CDR writer.
\<close>

section \<open>State\<close>

record 'e reader_env =
  env_file :: "'e rrd_file"
  env_property :: 'e
  env_archetype_ok :: "string \<Rightarrow> bool"
  env_plan :: "string \<Rightarrow> string \<Rightarrow> plan option"
  env_cdr :: cdr_writer

record message =
  msg_topic_name :: string
  msg_recv_timestamp :: i64
  msg_send_timestamp :: i64
  msg_data :: bytes

record 'e reader =
  rd_index :: "'e chunk_index option"
  rd_at :: usize
  rd_source :: "'e log_msg list option"
  rd_topics :: "topic_info list"
  rd_topic_index :: "('e \<times> usize) list"
  rd_window :: "window list"
  rd_position :: i64
  rd_filter :: "string list"
  rd_cursor :: "sort_key option"
  rd_metadata_yaml :: "string option"
  rd_recording_id :: string
  rd_message_count :: usize
  rd_time_range :: "(i64 \<times> i64) option"
  rd_earliest_remaining :: "i64 list"
  rd_next_chunk :: usize
  rd_reverse :: bool
  rd_last_message :: "message option"

text \<open>A fresh forward pass: the messages of the file that decode.\<close>

definition scan :: "'e rrd_file \<Rightarrow> 'e log_msg list result" where
  "scan file =
     (if \<not> f_opens file then Inl OpenFailed
      else (case f_decode file of
              None \<Rightarrow> Inl (External ''not a readable .rrd file'')
            | Some items \<Rightarrow>
                Inr (filter_map (\<lambda>r. case r of Inl _ \<Rightarrow> None | Inr m \<Rightarrow> Some m) items)))"

fun chunk_of :: "'e log_msg \<Rightarrow> 'e chunk option" where
  "chunk_of (ArrowMsg s c) = c"
| "chunk_of (OtherMsg s) = None"

definition restart :: "'e reader_env \<Rightarrow> 'e reader \<Rightarrow> unit result \<times> 'e reader" where
  "restart env rd =
     (let rd = rd\<lparr>rd_window := [], rd_next_chunk := 0, rd_position := i64_MIN, rd_cursor := None\<rparr>
      in if rd_index rd \<noteq> None then (Inr (), rd\<lparr>rd_at := 0\<rparr>)
         else (case scan (env_file env) of
                 Inl e \<Rightarrow> (Inl e, rd)
               | Inr msgs \<Rightarrow> (Inr (), rd\<lparr>rd_source := Some msgs\<rparr>)))"

definition wanted :: "'e reader \<Rightarrow> usize \<Rightarrow> bool" where
  "wanted rd topic = (rd_filter rd = [] \<or> ti_name (rd_topics rd ! topic) \<in> set (rd_filter rd))"

section \<open>Pulling chunks\<close>

definition orient :: "bool \<Rightarrow> window \<Rightarrow> window" where
  "orient reverse w = (if reverse then w_reverse w else w)"

text \<open>
  The scan path of \<open>pull\<close> walks the messages left in \<open>source\<close>, which is taken out of the
  reader first and only put back on the two early returns. \<open>scan_step\<close> is the body of its
  loop: \<open>None\<close> for a message that is skipped before \<open>next_chunk\<close> is counted up.
\<close>

definition scan_step :: "'e reader \<Rightarrow> 'e log_msg \<Rightarrow> window option result option" where
  "scan_step rd msg =
     (case chunk_of msg of
        None \<Rightarrow> None
      | Some chunk \<Rightarrow>
          if ch_static chunk then None
          else (case map_of (rd_topic_index rd) (ch_entity chunk) of
                  None \<Rightarrow> None
                | Some topic \<Rightarrow> Some (load_window chunk topic (rd_topics rd ! topic))))"

fun pull_scan ::
  "'e reader \<Rightarrow> 'e log_msg list \<Rightarrow> window option result \<times> 'e reader" where
  "pull_scan rd [] = (Inr None, rd)"
| "pull_scan rd (msg # source) =
     (case scan_step rd msg of
        None \<Rightarrow> pull_scan rd source
      | Some loaded \<Rightarrow>
          (let rd' = rd\<lparr>rd_next_chunk := Suc (rd_next_chunk rd)\<rparr>
           in case loaded of
                Inr (Some w) \<Rightarrow>
                  (Inr (Some (orient (rd_reverse rd) w)), rd'\<lparr>rd_source := Some source\<rparr>)
              | Inr None \<Rightarrow> pull_scan rd' source
              | Inl e \<Rightarrow> (Inl e, rd'\<lparr>rd_source := Some source\<rparr>)))"

text \<open>
  The indexed path walks the index from the start, or from the end when reversed.
  \<open>index_step\<close> is what the body of its loop makes of one chunk reference: \<open>Inr None\<close> where
  it goes on to the next.
\<close>

definition index_position :: "'e reader \<Rightarrow> 'e chunk_index \<Rightarrow> usize" where
  "index_position rd ix =
     (if rd_reverse rd then length (ix_chunks ix) - 1 - rd_at rd else rd_at rd)"

definition index_step :: "'e reader_env \<Rightarrow> 'e reader \<Rightarrow> 'e chunk_ref \<Rightarrow> window option result" where
  "index_step env rd chunk_ref =
     (case map_of (rd_topic_index rd) (cr_entity chunk_ref) of
        None \<Rightarrow> Inr None
      | Some topic \<Rightarrow>
          if \<not> wanted rd topic then Inr None
          else (case index_load (env_file env) [cr_id chunk_ref] of
                  Inl e \<Rightarrow> Inl e
                | Inr [] \<Rightarrow> Inr None
                | Inr (chunk # _) \<Rightarrow> load_window chunk topic (rd_topics rd ! topic)))"

function pull_indexed :: "'e reader_env \<Rightarrow> 'e reader \<Rightarrow> window option result \<times> 'e reader" where
  "pull_indexed env rd =
     (case rd_index rd of
        None \<Rightarrow> (Inl (Panicked ''checked by the caller''), rd)
      | Some ix \<Rightarrow>
          if rd_at rd \<ge> length (ix_chunks ix) then (Inr None, rd)
          else
            (let chunk_ref = ix_chunks ix ! index_position rd ix;
                 rd' = rd\<lparr>rd_at := Suc (rd_at rd)\<rparr>
             in case index_step env rd chunk_ref of
                  Inl e \<Rightarrow> (Inl e, rd')
                | Inr None \<Rightarrow> pull_indexed env rd'
                | Inr (Some w) \<Rightarrow> (Inr (Some (orient (rd_reverse rd) w)), rd')))"
  by pat_completeness auto
termination
  by (relation "measure (\<lambda>(env, rd).
        (case rd_index rd of None \<Rightarrow> 0 | Some ix \<Rightarrow> length (ix_chunks ix)) - rd_at rd)") auto

declare pull_indexed.simps [simp del]

definition pull :: "'e reader_env \<Rightarrow> 'e reader \<Rightarrow> window option result \<times> 'e reader" where
  "pull env rd =
     (if rd_index rd \<noteq> None then pull_indexed env rd
      else (case rd_source rd of
              None \<Rightarrow> (Inr None, rd)
            | Some source \<Rightarrow> pull_scan (rd\<lparr>rd_source := None\<rparr>) source))"

definition earliest_unread :: "'e reader \<Rightarrow> i64" where
  "earliest_unread rd =
     (case rd_index rd of
        None \<Rightarrow> unwrap_or (get (rd_earliest_remaining rd) (rd_next_chunk rd)) i64_MAX
      | Some ix \<Rightarrow>
          if rd_at rd \<ge> length (ix_chunks ix) then (if rd_reverse rd then i64_MIN else i64_MAX)
          else if rd_reverse rd
               then ix_max_end_through ix ! (length (ix_chunks ix) - 1 - rd_at rd)
               else cr_start (ix_chunks ix ! rd_at rd))"

text \<open>How much of the file a pass has still to read: what makes every loop below end.\<close>

definition unread_size :: "'e reader \<Rightarrow> nat" where
  "unread_size rd =
     (case rd_index rd of
        None \<Rightarrow> (case rd_source rd of None \<Rightarrow> 0 | Some source \<Rightarrow> length source)
      | Some ix \<Rightarrow> length (ix_chunks ix) - rd_at rd)"

lemma unread_size_cong:
  "rd_index rd' = rd_index rd \<Longrightarrow> rd_at rd' = rd_at rd \<Longrightarrow> rd_source rd' = rd_source rd \<Longrightarrow>
     unread_size rd' = unread_size rd"
  by (simp add: unread_size_def split: option.split)

text \<open>What a pull leaves alone: everything but the position in the file.\<close>

definition same_but_source :: "'e reader \<Rightarrow> 'e reader \<Rightarrow> bool" where
  "same_but_source rd rd' \<longleftrightarrow>
     rd' = rd\<lparr>rd_at := rd_at rd', rd_source := rd_source rd', rd_next_chunk := rd_next_chunk rd'\<rparr>"

lemma same_but_source_fields:
  "same_but_source rd rd' \<Longrightarrow>
     rd_index rd' = rd_index rd \<and> rd_topics rd' = rd_topics rd
     \<and> rd_topic_index rd' = rd_topic_index rd \<and> rd_window rd' = rd_window rd
     \<and> rd_position rd' = rd_position rd \<and> rd_filter rd' = rd_filter rd
     \<and> rd_cursor rd' = rd_cursor rd \<and> rd_earliest_remaining rd' = rd_earliest_remaining rd
     \<and> rd_reverse rd' = rd_reverse rd \<and> rd_last_message rd' = rd_last_message rd"
  by (cases rd; cases rd') (simp add: same_but_source_def)

lemma same_but_source_refl [simp]: "same_but_source rd rd"
  by (simp add: same_but_source_def)

lemma same_but_source_trans:
  "same_but_source rd rd' \<Longrightarrow> same_but_source rd' rd'' \<Longrightarrow> same_but_source rd rd''"
  by (cases rd; cases rd'; cases rd'') (simp add: same_but_source_def)

lemma same_but_source_updates [simp]:
  "same_but_source (rd\<lparr>rd_at := n\<rparr>) rd' \<longleftrightarrow> same_but_source rd rd'"
  "same_but_source (rd\<lparr>rd_source := s\<rparr>) rd' \<longleftrightarrow> same_but_source rd rd'"
  "same_but_source (rd\<lparr>rd_next_chunk := n\<rparr>) rd' \<longleftrightarrow> same_but_source rd rd'"
  by (cases rd; cases rd'; simp add: same_but_source_def)+

lemma pull_scan_frame:
  "pull_scan rd source = (r, rd') \<Longrightarrow> rd_source rd = None \<Longrightarrow>
     same_but_source rd rd' \<and> rd_at rd' = rd_at rd
     \<and> (\<forall>left. rd_source rd' = Some left \<longrightarrow> length left < length source)"
proof (induction rd source arbitrary: r rd' rule: pull_scan.induct)
  case (2 rd msg source)
  then show ?case
    by (auto simp: Let_def less_Suc_eq split: option.splits sum.splits)
      (auto simp: same_but_source_def)
qed simp

lemma pull_scan_some:
  "pull_scan rd source = (Inr (Some w), rd') \<Longrightarrow> rd_source rd' \<noteq> None"
  by (induction rd source rule: pull_scan.induct)
    (auto simp: Let_def split: option.splits sum.splits)

lemma pull_indexed_frame:
  assumes "pull_indexed env rd = (r, rd')"
  shows "same_but_source rd rd' \<and> rd_source rd' = rd_source rd
     \<and> rd_next_chunk rd' = rd_next_chunk rd \<and> rd_at rd \<le> rd_at rd'
     \<and> (\<forall>ix w. rd_index rd = Some ix \<longrightarrow> r = Inr (Some w) \<longrightarrow>
          rd_at rd < rd_at rd' \<and> rd_at rd' \<le> length (ix_chunks ix))"
  using assms
proof (induction env rd arbitrary: r rd' rule: pull_indexed.induct)
  case (1 env rd)
  note unfolded = "1.prems" [unfolded pull_indexed.simps [of env rd]]
  show ?case
  proof (cases "rd_index rd")
    case (Some ix)
    let ?rd = "rd\<lparr>rd_at := Suc (rd_at rd)\<rparr>"
    show ?thesis
    proof (cases "rd_at rd < length (ix_chunks ix)
        \<and> index_step env rd (ix_chunks ix ! index_position rd ix) = Inr None")
      case True
      then have "pull_indexed env ?rd = (r, rd')"
        using unfolded Some by (simp add: Let_def)
      from "1.IH" [OF Some _ refl refl _ refl this] True Some show ?thesis by auto
    next
      case False
      then show ?thesis
        using unfolded Some
        by (auto simp: Let_def same_but_source_def split: if_splits sum.splits option.splits)
    qed
  qed (use unfolded in simp)
qed

lemma pull_frame:
  assumes "pull env rd = (r, rd')"
  shows "same_but_source rd rd'" "unread_size rd' \<le> unread_size rd"
    "r = Inr (Some w) \<Longrightarrow> unread_size rd' < unread_size rd"
proof -
  consider (indexed) ix where "rd_index rd = Some ix" "pull_indexed env rd = (r, rd')"
    | (drained) "rd_index rd = None" "rd_source rd = None" "r = Inr None" "rd' = rd"
    | (scan) source where "rd_index rd = None" "rd_source rd = Some source"
        "pull_scan (rd\<lparr>rd_source := None\<rparr>) source = (r, rd')"
    using assms by (auto simp: pull_def split: if_splits option.splits)
  then have "same_but_source rd rd' \<and> unread_size rd' \<le> unread_size rd
    \<and> (r = Inr (Some w) \<longrightarrow> unread_size rd' < unread_size rd)"
  proof cases
    case indexed
    note frame = pull_indexed_frame [OF indexed(2)]
    then have "rd_index rd' = Some ix" using indexed(1) same_but_source_fields [of rd rd'] by simp
    with frame indexed(1) show ?thesis by (auto simp: unread_size_def)
  next
    case drained
    then show ?thesis by simp
  next
    case scan
    note frame = pull_scan_frame [OF scan(3)]
    then have "rd_index rd' = None" using scan(1) same_but_source_fields [of rd rd'] by simp
    moreover have "r = Inr (Some w) \<Longrightarrow> rd_source rd' \<noteq> None" for w
      using scan(3) pull_scan_some [of "rd\<lparr>rd_source := None\<rparr>" source] by auto
    ultimately show ?thesis using frame scan(1,2)
      by (auto simp: unread_size_def less_imp_le split: option.splits)
  qed
  then show "same_but_source rd rd'" "unread_size rd' \<le> unread_size rd"
    "r = Inr (Some w) \<Longrightarrow> unread_size rd' < unread_size rd" by auto
qed

section \<open>Filling the merge window\<close>

definition push_window :: "window \<Rightarrow> 'e reader \<Rightarrow> 'e reader" where
  "push_window w rd = rd\<lparr>rd_window := rd_window rd @ [w]\<rparr>"

lemma unread_size_push [simp]: "unread_size (push_window w rd) = unread_size rd"
  by (rule unread_size_cong) (simp_all add: push_window_def)

function fill_all :: "'e reader_env \<Rightarrow> 'e reader \<Rightarrow> unit result \<times> 'e reader" where
  "fill_all env rd =
     (case pull env rd of
        (Inl e, rd') \<Rightarrow> (Inl e, rd')
      | (Inr None, rd') \<Rightarrow> (Inr (), rd')
      | (Inr (Some w), rd') \<Rightarrow> fill_all env (push_window w rd'))"
  by pat_completeness auto
termination
  by (relation "measure (\<lambda>(env, rd). unread_size rd)") (auto dest: pull_frame(3) [OF sym])

declare fill_all.simps [simp del]

definition candidate :: "'e reader \<Rightarrow> (i64 \<times> i64) option" where
  "candidate rd =
     (if rd_reverse rd then max_by_key id (filter_map w_head (rd_window rd))
      else min_by_key id (filter_map w_head (rd_window rd)))"

definition settled :: "'e reader \<Rightarrow> bool" where
  "settled rd =
     (case candidate rd of
        Some (recv_timestamp, _) \<Rightarrow>
          if rd_reverse rd then earliest_unread rd < recv_timestamp
          else earliest_unread rd > recv_timestamp
      | None \<Rightarrow> False)"

definition exhausted :: "'e reader \<Rightarrow> bool" where
  "exhausted rd =
     (if rd_reverse rd then earliest_unread rd = i64_MIN else earliest_unread rd = i64_MAX)"

function fill_loop :: "'e reader_env \<Rightarrow> 'e reader \<Rightarrow> unit result \<times> 'e reader" where
  "fill_loop env rd =
     (if settled rd then (Inr (), rd)
      else if exhausted rd \<and> candidate rd \<noteq> None then (Inr (), rd)
      else
        (case pull env rd of
           (Inl e, rd') \<Rightarrow> (Inl e, rd')
         | (Inr None, rd') \<Rightarrow> (Inr (), rd')
         | (Inr (Some w), rd') \<Rightarrow> fill_loop env (push_window w rd')))"
  by pat_completeness auto
termination
  by (relation "measure (\<lambda>(env, rd). unread_size rd)") (auto dest: pull_frame(3) [OF sym])

declare fill_loop.simps [simp del]

definition fill :: "'e reader_env \<Rightarrow> 'e reader \<Rightarrow> unit result \<times> 'e reader" where
  "fill env rd =
     (if rd_reverse rd \<and> rd_index rd = None then fill_all env rd else fill_loop env rd)"

section \<open>Choosing and consuming rows\<close>

definition window_keys :: "'e reader \<Rightarrow> (usize \<times> sort_key) list" where
  "window_keys rd =
     filter_map (\<lambda>(i, w). map_option (Pair i) (w_key w)) (enumerate 0 (rd_window rd))"

definition next_row :: "'e reader_env \<Rightarrow> 'e reader \<Rightarrow> (usize \<times> usize) option result \<times> 'e reader" where
  "next_row env rd =
     (case fill env rd of
        (Inl e, rd') \<Rightarrow> (Inl e, rd')
      | (Inr _, rd') \<Rightarrow>
          (let chosen =
             (if rd_reverse rd' then max_by_key snd (window_keys rd')
              else min_by_key snd (window_keys rd'))
           in (Inr (map_option (\<lambda>c. (fst c, w_next (rd_window rd' ! fst c))) chosen), rd')))"

definition advance :: "'e reader \<Rightarrow> usize \<Rightarrow> 'e reader" where
  "advance rd index =
     (let w = (rd_window rd ! index)\<lparr>w_next := Suc (w_next (rd_window rd ! index))\<rparr>;
          rd = rd\<lparr>rd_window := (rd_window rd)[index := w],
                  rd_position := unwrap_or (get (w_recv w) (w_next w - 1)) (rd_position rd)\<rparr>
      in if w_head w = None then rd\<lparr>rd_window := swap_remove (rd_window rd) index\<rparr> else rd)"

definition take_row ::
  "'e reader_env \<Rightarrow> 'e reader \<Rightarrow> (usize \<times> i64 \<times> i64 \<times> bytes) option result \<times> 'e reader" where
  "take_row env rd =
     (case next_row env rd of
        (Inl e, rd') \<Rightarrow> (Inl e, rd')
      | (Inr None, rd') \<Rightarrow> (Inr None, rd')
      | (Inr (Some (index, row)), rd') \<Rightarrow>
          (let w = rd_window rd' ! index;
               topic = w_topic w;
               recv_timestamp = unwrap_or (get (w_recv w) row) 0;
               send_timestamp = unwrap_or (get (w_send w) row) recv_timestamp;
               key = (recv_timestamp, sequence_number w row)
           in case row_payload (env_cdr env) (rd_topics rd') w row of
                Inl e \<Rightarrow> (Inl e, rd')
              | Inr data \<Rightarrow>
                  (Inr (Some (topic, recv_timestamp, send_timestamp, data)),
                   (advance rd' index)\<lparr>rd_cursor := Some key\<rparr>)))"

section \<open>What filling and advancing change\<close>

definition same_but_merge :: "'e reader \<Rightarrow> 'e reader \<Rightarrow> bool" where
  "same_but_merge rd rd' \<longleftrightarrow>
     rd' = rd\<lparr>rd_at := rd_at rd', rd_source := rd_source rd', rd_next_chunk := rd_next_chunk rd',
              rd_window := rd_window rd'\<rparr>"

lemma same_but_merge_fields:
  "same_but_merge rd rd' \<Longrightarrow>
     rd_index rd' = rd_index rd \<and> rd_topics rd' = rd_topics rd
     \<and> rd_topic_index rd' = rd_topic_index rd
     \<and> rd_position rd' = rd_position rd \<and> rd_filter rd' = rd_filter rd
     \<and> rd_cursor rd' = rd_cursor rd \<and> rd_earliest_remaining rd' = rd_earliest_remaining rd
     \<and> rd_reverse rd' = rd_reverse rd \<and> rd_last_message rd' = rd_last_message rd"
  by (cases rd; cases rd') (simp add: same_but_merge_def)

lemma same_but_merge_refl [simp]: "same_but_merge rd rd"
  by (simp add: same_but_merge_def)

lemma same_but_merge_trans:
  "same_but_merge rd rd' \<Longrightarrow> same_but_merge rd' rd'' \<Longrightarrow> same_but_merge rd rd''"
  by (cases rd; cases rd'; cases rd'') (simp add: same_but_merge_def)

lemma source_imp_merge: "same_but_source rd rd' \<Longrightarrow> same_but_merge rd rd'"
  by (cases rd; cases rd') (simp add: same_but_source_def same_but_merge_def)

lemma same_but_merge_push [simp]: "same_but_merge (push_window w rd) rd' \<longleftrightarrow> same_but_merge rd rd'"
  by (cases rd; cases rd') (simp add: push_window_def same_but_merge_def)

text \<open>Filling reads on in the file, or it leaves the windows as they are.\<close>

definition read_on :: "'e reader \<Rightarrow> 'e reader \<Rightarrow> bool" where
  "read_on rd rd' \<longleftrightarrow>
     same_but_merge rd rd'
     \<and> (unread_size rd' < unread_size rd
        \<or> unread_size rd' \<le> unread_size rd \<and> rd_window rd' = rd_window rd)"

lemma read_on_refl [simp]: "read_on rd rd"
  by (simp add: read_on_def)

lemma pull_read_on: "pull env rd = (r, rd') \<Longrightarrow> read_on rd rd'"
  using pull_frame(1,2) [of env rd r rd'] same_but_source_fields [of rd rd']
  by (simp add: read_on_def source_imp_merge)

lemma pull_push_read_on:
  assumes "pull env rd = (Inr (Some w), rd')" and "read_on (push_window w rd') rd''"
  shows "read_on rd rd''"
  using assms(2) pull_frame(1,3) [OF assms(1)]
  by (auto simp: read_on_def dest: source_imp_merge elim: same_but_merge_trans)

lemma fill_all_read_on: "fill_all env rd = (r, rd') \<Longrightarrow> read_on rd rd'"
proof (induction env rd arbitrary: r rd' rule: fill_all.induct)
  case (1 env rd)
  obtain p rd1 where pull: "pull env rd = (p, rd1)" by fastforce
  show ?case
  proof (cases "\<exists>w. p = Inr (Some w)")
    case True
    then obtain w where w: "p = Inr (Some w)" ..
    then have "fill_all env (push_window w rd1) = (r, rd')"
      using "1.prems" pull by (simp add: fill_all.simps [of env rd])
    from "1.IH" [OF pull [symmetric] w refl this] show ?thesis
      using pull w by (auto intro: pull_push_read_on)
  next
    case False
    then show ?thesis
      using "1.prems" pull_read_on [OF pull]
      by (auto simp: pull fill_all.simps [of env rd] split: sum.splits option.splits)
  qed
qed

lemma fill_loop_read_on: "fill_loop env rd = (r, rd') \<Longrightarrow> read_on rd rd'"
proof (induction env rd arbitrary: r rd' rule: fill_loop.induct)
  case (1 env rd)
  obtain p rd1 where pull: "pull env rd = (p, rd1)" by fastforce
  show ?case
  proof (cases "\<not> settled rd \<and> \<not> (exhausted rd \<and> candidate rd \<noteq> None) \<and> (\<exists>w. p = Inr (Some w))")
    case True
    then obtain w where w: "p = Inr (Some w)" by blast
    then have "fill_loop env (push_window w rd1) = (r, rd')"
      using "1.prems" pull True by (auto simp: fill_loop.simps [of env rd])
    from "1.IH" [OF _ _ pull [symmetric] w refl this] True show ?thesis
      using pull w by (auto intro: pull_push_read_on)
  next
    case False
    then show ?thesis
      using "1.prems" pull_read_on [OF pull]
      by (auto simp: pull fill_loop.simps [of env rd] split: if_splits sum.splits option.splits)
  qed
qed

lemma fill_read_on: "fill env rd = (r, rd') \<Longrightarrow> read_on rd rd'"
  by (auto simp: fill_def split: if_splits dest: fill_all_read_on fill_loop_read_on)

lemma window_keys_nth:
  "(i, k) \<in> set (window_keys rd) \<longleftrightarrow> i < length (rd_window rd) \<and> w_key (rd_window rd ! i) = Some k"
  by (auto simp: window_keys_def in_set_enumerate_eq intro!: bexI [of _ "(i, rd_window rd ! i)"])

lemma next_row_read_on: "next_row env rd = (r, rd') \<Longrightarrow> read_on rd rd'"
  by (auto simp: next_row_def Let_def split: prod.splits sum.splits dest: fill_read_on)

lemma next_row_Some:
  assumes "next_row env rd = (Inr (Some (i, row)), rd')"
  shows "i < length (rd_window rd')" "row = w_next (rd_window rd' ! i)"
    "row < length (w_recv (rd_window rd' ! i))"
proof -
  obtain k where "(i, k) \<in> set (window_keys rd')" "row = w_next (rd_window rd' ! i)"
    using assms
    by (auto simp: next_row_def Let_def split: prod.splits sum.splits if_splits
        dest!: min_by_key_Some max_by_key_Some)
  then show "i < length (rd_window rd')" "row = w_next (rd_window rd' ! i)"
    "row < length (w_recv (rd_window rd' ! i))"
    by (auto simp: window_keys_nth dest: w_key_hd)
qed

text \<open>The rows held in the windows, as a multiset: advancing consumes exactly one of them.\<close>

definition window_rows :: "cdr_writer \<Rightarrow> topic_info list \<Rightarrow> window list \<Rightarrow> row multiset" where
  "window_rows cw topics ws = (\<Sum>w \<leftarrow> ws. mset (pending cw topics w))"

lemma window_rows_simps [simp]:
  "window_rows cw topics [] = {#}"
  "window_rows cw topics (w # ws) = mset (pending cw topics w) + window_rows cw topics ws"
  "window_rows cw topics (ws @ vs) = window_rows cw topics ws + window_rows cw topics vs"
  by (simp_all add: window_rows_def)

lemma window_rows_mset:
  "window_rows cw topics ws = sum_mset (image_mset (\<lambda>w. mset (pending cw topics w)) (mset ws))"
  by (induction ws) simp_all

lemma in_window_rows:
  "r \<in># window_rows cw topics ws \<longleftrightarrow> (\<exists>w \<in> set ws. r \<in> set (pending cw topics w))"
  by (induction ws) auto

lemma window_rows_swap_remove:
  assumes "i < length ws" "pending cw topics (ws ! i) = []"
  shows "window_rows cw topics (swap_remove ws i) = window_rows cw topics ws"
proof -
  have "mset ws = mset (swap_remove ws i) + {#ws ! i#}"
    using assms(1) by (simp add: mset_swap_remove)
  then show ?thesis using assms(2) by (simp add: window_rows_mset)
qed

lemma window_rows_advance:
  assumes "i < length (rd_window rd)" "rd_window rd ! i = w" "w_next w < length (w_recv w)"
  shows "window_rows cw topics (rd_window rd) =
           add_mset (row_at cw topics w (w_next w)) (window_rows cw topics (rd_window (advance rd i)))"
proof -
  let ?ws = "rd_window rd" and ?w = "w\<lparr>w_next := Suc (w_next w)\<rparr>"
  have "window_rows cw topics (rd_window (advance rd i)) = window_rows cw topics (?ws[i := ?w])"
  proof (cases "w_head ?w = None")
    case True
    then have "pending cw topics (?ws[i := ?w] ! i) = []" using assms(1) by simp
    then show ?thesis
      using window_rows_swap_remove [of i "?ws[i := ?w]" cw topics] assms(1,2) True
      by (simp add: advance_def Let_def)
  qed (use assms(2) in \<open>simp add: advance_def Let_def\<close>)
  moreover have "?ws = take i ?ws @ w # drop (Suc i) ?ws"
    using assms(1,2) id_take_nth_drop by blast
  then have "window_rows cw topics ?ws =
      window_rows cw topics (take i ?ws) + mset (pending cw topics w)
      + window_rows cw topics (drop (Suc i) ?ws)"
    by (metis window_rows_simps(2,3) add.assoc)
  ultimately show ?thesis
    using assms(1,3) by (simp add: upd_conv_take_nth_drop pending_Cons)
qed

lemma advance_frame:
  "rd_index (advance rd i) = rd_index rd" "rd_at (advance rd i) = rd_at rd"
  "rd_source (advance rd i) = rd_source rd" "rd_topics (advance rd i) = rd_topics rd"
  "rd_topic_index (advance rd i) = rd_topic_index rd" "rd_filter (advance rd i) = rd_filter rd"
  "rd_cursor (advance rd i) = rd_cursor rd" "rd_next_chunk (advance rd i) = rd_next_chunk rd"
  "rd_earliest_remaining (advance rd i) = rd_earliest_remaining rd"
  "rd_reverse (advance rd i) = rd_reverse rd" "unread_size (advance rd i) = unread_size rd"
  by (auto simp: advance_def Let_def intro!: unread_size_cong)

text \<open>
  Every loop over rows ends: each turn reads on in the file, or consumes a row that is
  held in a window.
\<close>

definition rows_left :: "'e reader \<Rightarrow> nat" where
  "rows_left rd = (\<Sum>w \<leftarrow> rd_window rd. length (w_recv w) - w_next w)"

lemma rows_left_size: "rows_left rd = size (window_rows cw topics (rd_window rd))"
proof -
  have "(\<Sum>w \<leftarrow> ws. length (w_recv w) - w_next w) = size (window_rows cw topics ws)" for ws
    by (induction ws) (simp_all add: pending_def)
  then show ?thesis by (simp add: rows_left_def)
qed

definition loop_order :: "('e reader \<times> 'e reader) set" where
  "loop_order = measures [unread_size, rows_left]"

lemma loop_order_next:
  assumes "next_row env rd = (Inr (Some (i, row)), rd')"
  shows "(advance rd' i, rd) \<in> loop_order"
proof -
  note some = next_row_Some [OF assms]
  have "rows_left (advance rd' i) < rows_left rd'"
    using window_rows_advance [OF some(1) refl some(3) [unfolded some(2)], of undefined undefined]
    by (simp add: rows_left_size [of _ undefined undefined])
  then show ?thesis
    using next_row_read_on [OF assms]
    by (auto simp: loop_order_def read_on_def advance_frame rows_left_def)
qed

lemma wf_loop_order [simp]: "wf loop_order"
  by (simp add: loop_order_def)

section \<open>Filling twice\<close>

text \<open>
  A fill that succeeds leaves nothing for a second one to do, so the row \<open>read_next\<close> looks
  at before it calls \<open>take\<close> is the row \<open>take\<close> takes.
\<close>

lemma pull_indexed_end:
  "pull_indexed env rd = (Inr None, rd') \<Longrightarrow> pull_indexed env rd' = (Inr None, rd')"
proof (induction env rd rule: pull_indexed.induct)
  case (1 env rd)
  note unfolded = "1.prems" [unfolded pull_indexed.simps [of env rd]]
  show ?case
  proof (cases "rd_index rd")
    case (Some ix)
    show ?thesis
    proof (cases "rd_at rd < length (ix_chunks ix)")
      case True
      then have "pull_indexed env (rd\<lparr>rd_at := Suc (rd_at rd)\<rparr>) = (Inr None, rd')"
        "index_step env rd (ix_chunks ix ! index_position rd ix) = Inr None"
        using unfolded Some by (auto simp: Let_def split: sum.splits option.splits)
      with "1.IH" [OF Some _ refl refl] True show ?thesis by simp
    next
      case False
      then show ?thesis using unfolded Some by (auto simp: pull_indexed.simps [of env rd'])
    qed
  qed (use unfolded in simp)
qed

lemma pull_scan_end:
  "pull_scan rd source = (Inr None, rd') \<Longrightarrow> rd_source rd = None \<Longrightarrow> rd_source rd' = None"
  by (induction rd source rule: pull_scan.induct) (auto simp: Let_def split: option.splits sum.splits)

lemma pull_end:
  assumes "pull env rd = (Inr None, rd')"
  shows "pull env rd' = (Inr None, rd')"
proof (cases "rd_index rd")
  case None
  then have "rd_index rd' = None"
    using same_but_source_fields [OF pull_frame(1) [OF assms]] by simp
  moreover have "rd_source rd' = None"
    using assms None pull_scan_end [of "rd\<lparr>rd_source := None\<rparr>"]
    by (auto simp: pull_def split: option.splits)
  ultimately show ?thesis by (simp add: pull_def)
next
  case (Some ix)
  then have "rd_index rd' = Some ix"
    using same_but_source_fields [OF pull_frame(1) [OF assms]] by simp
  then show ?thesis using assms Some pull_indexed_end by (simp add: pull_def)
qed

lemma fill_all_twice: "fill_all env rd = (Inr u, rd') \<Longrightarrow> fill_all env rd' = (Inr (), rd')"
proof (induction env rd rule: fill_all.induct)
  case (1 env rd)
  obtain p rd1 where pull: "pull env rd = (p, rd1)" by fastforce
  show ?case
  proof (cases "\<exists>w. p = Inr (Some w)")
    case True
    then obtain w where w: "p = Inr (Some w)" ..
    then have "fill_all env (push_window w rd1) = (Inr u, rd')"
      using "1.prems" pull by (simp add: fill_all.simps [of env rd])
    from "1.IH" [OF pull [symmetric] w refl this] show ?thesis .
  next
    case False
    then have "pull env rd = (Inr None, rd')"
      using "1.prems" pull
      by (auto simp: fill_all.simps [of env rd] split: sum.splits option.splits)
    then show ?thesis by (simp add: fill_all.simps [of env rd'] pull_end)
  qed
qed

lemma fill_loop_twice: "fill_loop env rd = (Inr u, rd') \<Longrightarrow> fill_loop env rd' = (Inr (), rd')"
proof (induction env rd rule: fill_loop.induct)
  case (1 env rd)
  let ?stop = "settled rd \<or> exhausted rd \<and> candidate rd \<noteq> None"
  obtain p rd1 where pull: "pull env rd = (p, rd1)" by fastforce
  consider (stop) ?stop | (more) w where "\<not> ?stop" "p = Inr (Some w)"
    | (fin) "\<not> ?stop" "\<nexists>w. p = Inr (Some w)" by blast
  then show ?case
  proof cases
    case stop
    then have "fill_loop env rd = (Inr (), rd)" by (subst fill_loop.simps) (simp only: if_True if_cancel split: if_split, blast)
    then show ?thesis using "1.prems" by simp
  next
    case more
    then have "fill_loop env (push_window w rd1) = (Inr u, rd')"
      using "1.prems" pull by (auto simp: fill_loop.simps [of env rd])
    from "1.IH" [OF _ _ pull [symmetric] more(2) refl this] more(1) show ?thesis by blast
  next
    case fin
    then have "pull env rd = (Inr None, rd')"
      using "1.prems" pull
      by (auto simp: fill_loop.simps [of env rd] split: if_splits sum.splits option.splits)
    then show ?thesis by (simp add: fill_loop.simps [of env rd'] pull_end)
  qed
qed

lemma fill_twice: "fill env rd = (Inr u, rd') \<Longrightarrow> fill env rd' = (Inr (), rd')"
  using same_but_merge_fields [of rd rd'] fill_read_on [of env rd "Inr u" rd']
  by (auto simp: fill_def read_on_def split: if_splits dest: fill_all_twice fill_loop_twice)

lemma next_row_twice: "next_row env rd = (Inr x, rd') \<Longrightarrow> next_row env rd' = (Inr x, rd')"
  by (auto simp: next_row_def Let_def split: prod.splits sum.splits dest: fill_twice)

end
