(* ===== verification/Playback.thy ===== *)
theory Playback
  imports Reader
begin

text \<open>
  The public operations of \<open>reader.rs\<close>: reading messages, seeking, filtering, reversing
  and opening a recording.
\<close>

section \<open>Reading\<close>

function read_next :: "'e reader_env \<Rightarrow> 'e reader \<Rightarrow> message option result \<times> 'e reader" where
  "read_next env rd =
     (case next_row env rd of
        (Inl e, rd') \<Rightarrow> (Inl e, rd')
      | (Inr None, rd') \<Rightarrow> (Inr None, rd')
      | (Inr (Some (index, row)), rd') \<Rightarrow>
          if \<not> wanted rd' (w_topic (rd_window rd' ! index)) then read_next env (advance rd' index)
          else
            (case take_row env rd' of
               (Inl e, rd'') \<Rightarrow> (Inl e, rd'')
             | (Inr None, rd'') \<Rightarrow> (Inr None, rd'')
             | (Inr (Some (topic, recv_timestamp, send_timestamp, data)), rd'') \<Rightarrow>
                 (Inr (Some \<lparr>msg_topic_name = ti_name (rd_topics rd'' ! topic),
                             msg_recv_timestamp = recv_timestamp,
                             msg_send_timestamp = send_timestamp,
                             msg_data = data\<rparr>), rd'')))"
  by pat_completeness auto
termination
  by (relation "inv_image loop_order snd") (auto dest: loop_order_next [OF sym])

declare read_next.simps [simp del]

definition read_next_borrowed ::
  "'e reader_env \<Rightarrow> 'e reader \<Rightarrow> message option result \<times> 'e reader" where
  "read_next_borrowed env rd =
     (case read_next env rd of
        (Inl e, rd') \<Rightarrow> (Inl e, rd')
      | (Inr m, rd') \<Rightarrow> (Inr m, rd'\<lparr>rd_last_message := m\<rparr>))"

section \<open>Seeking\<close>

definition skip_index_to :: "i64 \<Rightarrow> 'e reader \<Rightarrow> 'e reader" where
  "skip_index_to timestamp rd =
     (case rd_index rd of
        None \<Rightarrow> rd
      | Some ix \<Rightarrow>
          rd\<lparr>rd_at :=
            (if rd_reverse rd
             then unwrap_or (position (\<lambda>c. cr_start c \<le> timestamp) (rev (ix_chunks ix)))
                    (length (ix_chunks ix))
             else unwrap_or (position (\<lambda>c. cr_end c \<ge> timestamp) (ix_chunks ix))
                    (length (ix_chunks ix)))\<rparr>)"

text \<open>
  \<open>seek\<close> and \<open>resume\<close> both wind the pass forward, a row at a time, until one is where they
  want to stop. \<open>stop\<close> decides that from the window the row is in.
\<close>

function wind ::
  "(window \<Rightarrow> usize \<Rightarrow> bool) \<Rightarrow> 'e reader_env \<Rightarrow> 'e reader \<Rightarrow> unit result \<times> 'e reader" where
  "wind stop env rd =
     (case next_row env rd of
        (Inl e, rd') \<Rightarrow> (Inl e, rd')
      | (Inr None, rd') \<Rightarrow> (Inr (), rd')
      | (Inr (Some (index, row)), rd') \<Rightarrow>
          if stop (rd_window rd' ! index) row then (Inr (), rd')
          else wind stop env (advance rd' index))"
  by pat_completeness auto
termination
  by (relation "inv_image loop_order (\<lambda>(stop, env, rd). rd)") (auto dest: loop_order_next [OF sym])

declare wind.simps [simp del]

definition seek_reached :: "bool \<Rightarrow> i64 \<Rightarrow> window \<Rightarrow> usize \<Rightarrow> bool" where
  "seek_reached reverse timestamp w row =
     (case get (w_recv w) row of
        None \<Rightarrow> True
      | Some recv_timestamp \<Rightarrow>
          if reverse then recv_timestamp \<le> timestamp else recv_timestamp \<ge> timestamp)"

definition seek :: "'e reader_env \<Rightarrow> i64 \<Rightarrow> 'e reader \<Rightarrow> unit result \<times> 'e reader" where
  "seek env timestamp rd =
     (case restart env rd of
        (Inl e, rd') \<Rightarrow> (Inl e, rd')
      | (Inr _, rd') \<Rightarrow>
          (case wind (seek_reached (rd_reverse rd') timestamp) env (skip_index_to timestamp rd') of
             (Inl e, rd'') \<Rightarrow> (Inl e, rd'')
           | (Inr _, rd'') \<Rightarrow> (Inr (), rd''\<lparr>rd_position := timestamp, rd_cursor := None\<rparr>)))"

section \<open>Filtering and reversing\<close>

definition resume_passed :: "bool \<Rightarrow> sort_key option \<Rightarrow> i64 \<Rightarrow> window \<Rightarrow> usize \<Rightarrow> bool" where
  "resume_passed reverse cursor pos w row =
     (case w_key w of
        None \<Rightarrow> True
      | Some key \<Rightarrow>
          (case cursor of
             Some c \<Rightarrow> if reverse then key < c else key > c
           | None \<Rightarrow> if reverse then fst key \<le> pos else fst key \<ge> pos))"

definition resume :: "'e reader_env \<Rightarrow> 'e reader \<Rightarrow> unit result \<times> 'e reader" where
  "resume env rd =
     (let cursor = rd_cursor rd; pos = rd_position rd
      in if cursor = None \<and> pos = i64_MIN then restart env rd
         else
           (case restart env rd of
              (Inl e, rd') \<Rightarrow> (Inl e, rd')
            | (Inr _, rd') \<Rightarrow>
                (case wind (resume_passed (rd_reverse rd') cursor pos) env
                        (skip_index_to pos (rd'\<lparr>rd_position := pos\<rparr>)) of
                   (Inl e, rd'') \<Rightarrow> (Inl e, rd'')
                 | (Inr _, rd'') \<Rightarrow>
                     (Inr (), rd''\<lparr>rd_position := pos, rd_cursor := cursor\<rparr>))))"

definition set_filter :: "'e reader_env \<Rightarrow> string list \<Rightarrow> 'e reader \<Rightarrow> unit result \<times> 'e reader" where
  "set_filter env topics rd =
     (if topics = rd_filter rd then (Inr (), rd)
      else
        (let rd = rd\<lparr>rd_filter := topics\<rparr>
         in if rd_index rd \<noteq> None then resume env rd else (Inr (), rd)))"

definition set_reverse :: "'e reader_env \<Rightarrow> bool \<Rightarrow> 'e reader \<Rightarrow> unit result \<times> 'e reader" where
  "set_reverse env reverse rd =
     (if rd_reverse rd \<noteq> reverse then restart env (rd\<lparr>rd_reverse := reverse\<rparr>)
      else (Inr (), rd))"

section \<open>Opening\<close>

text \<open>
  What the scan keeps while it walks the file: the static data found so far and the
  summary of every other chunk.
\<close>

fun scan_all :: "'e::linorder \<Rightarrow> 'e log_msg list \<Rightarrow> 'e found \<times> string option
    \<Rightarrow> (('e found \<times> string option) \<times> 'e scanned_chunk list) result" where
  "scan_all property_path [] acc = Inr (acc, [])"
| "scan_all property_path (msg # msgs) acc =
     (case chunk_of msg of
        None \<Rightarrow> scan_all property_path msgs acc
      | Some chunk \<Rightarrow>
          if ch_static chunk
          then (case collect property_path chunk acc of
                  Inl e \<Rightarrow> Inl e
                | Inr acc' \<Rightarrow> scan_all property_path msgs acc')
          else (case scan_all property_path msgs acc of
                  Inl e \<Rightarrow> Inl e
                | Inr (acc', scanned) \<Rightarrow> Inr (acc', scan_chunk chunk # scanned)))"

fun index_topics :: "(string \<Rightarrow> bool) \<Rightarrow> 'e found \<Rightarrow> topic_info list \<Rightarrow> ('e \<times> usize) list
    \<Rightarrow> topic_info list \<times> ('e \<times> usize) list" where
  "index_topics archetype_ok [] topics topic_index = (topics, topic_index)"
| "index_topics archetype_ok ((entity, statics) # found) topics topic_index =
     (case topic_info_of archetype_ok statics of
        None \<Rightarrow> index_topics archetype_ok found topics topic_index
      | Some info \<Rightarrow>
          index_topics archetype_ok found (topics @ [info])
            (topic_index @ [(entity, length topics)]))"

text \<open>The closure \<open>count\<close>: the topic a chunk's rows count for, if they are messages.\<close>

definition counted ::
  "topic_info list \<Rightarrow> ('e \<times> usize) list \<Rightarrow> 'e \<Rightarrow> string list \<Rightarrow> usize option" where
  "counted topics topic_index entity components =
     (case map_of topic_index entity of
        None \<Rightarrow> None
      | Some topic \<Rightarrow>
          if holds_messages (ti_columns (topics ! topic)) components then Some topic else None)"

text \<open>
  \<open>counts\<close> and \<open>re_encodes\<close> after the closure has seen all chunks, given as the entity,
  the components and the number of rows of each.
\<close>

fun tally :: "topic_info list \<Rightarrow> ('e \<times> usize) list \<Rightarrow> ('e \<times> string list \<times> usize) list
    \<Rightarrow> usize list \<times> bool list \<Rightarrow> usize list \<times> bool list" where
  "tally topics topic_index [] acc = acc"
| "tally topics topic_index ((entity, components, rows) # chunks) (counts, re_encodes) =
     (case counted topics topic_index entity components of
        None \<Rightarrow> tally topics topic_index chunks (counts, re_encodes)
      | Some topic \<Rightarrow>
          tally topics topic_index chunks
            (counts[topic := wrap_u64 (counts ! topic + rows)],
             re_encodes[topic := (re_encodes ! topic
                \<or> holds_structs (ti_columns (topics ! topic)) components)]))"

fun merge_range :: "(i64 \<times> i64) option \<Rightarrow> (i64 \<times> i64) option \<Rightarrow> (i64 \<times> i64) option" where
  "merge_range r None = r"
| "merge_range None (Some (lo, hi)) = Some (lo, hi)"
| "merge_range (Some (s, e)) (Some (lo, hi)) = Some (min s lo, max e hi)"

fun suffix_minima :: "'e scanned_chunk list \<Rightarrow> i64 list" where
  "suffix_minima [] = [i64_MAX]"
| "suffix_minima (s # scanned) =
     (let rest = suffix_minima scanned in min (sc_earliest s) (hd rest) # rest)"

definition finish_topic ::
  "'e reader_env \<Rightarrow> usize list \<times> bool list \<Rightarrow> usize \<Rightarrow> topic_info \<Rightarrow> topic_info" where
  "finish_topic env tallied topic info =
     (let info = info\<lparr>ti_message_count := fst tallied ! topic\<rparr>
      in if snd tallied ! topic
         then info\<lparr>ti_plan := decode_plan (env_plan env) (ti_type_name info) (ti_schema_text info)\<rparr>
         else info)"

definition describes_itself :: "'e found \<Rightarrow> 'e chunk_index option \<Rightarrow> 'e scanned_chunk list \<Rightarrow> bool"
where
  "describes_itself found index scanned =
     (found \<noteq> [] \<or>
      \<not> (case index of
            None \<Rightarrow> scanned \<noteq> []
          | Some ix \<Rightarrow> ix_temporal_chunks ix > 0))"

definition reader_of ::
  "'e reader_env \<Rightarrow> 'e chunk_index option \<Rightarrow> string \<Rightarrow> 'e found \<Rightarrow> string option
   \<Rightarrow> 'e scanned_chunk list \<Rightarrow> 'e reader" where
  "reader_of env index recording_id found yaml scanned =
     (case index_topics (env_archetype_ok env) found [] [] of
        (topics, topic_index) \<Rightarrow>
          (let is_counted = (\<lambda>entity components. counted topics topic_index entity components \<noteq> None);
               seen = (case index of
                 Some ix \<Rightarrow> map (\<lambda>c. (cr_entity c, cr_components c, cr_num_rows c)) (ix_chunks ix)
               | None \<Rightarrow> map (\<lambda>c. (sc_entity c, sc_components c, sc_num_rows c)) scanned);
               tallied = tally topics topic_index seen
                 (replicate (length topics) 0, replicate (length topics) False);
               kept = map_option
                 (index_retain (\<lambda>c. is_counted (cr_entity c) (cr_components c))) index;
               messages = filter (\<lambda>c. is_counted (sc_entity c) (sc_components c)) scanned
           in \<lparr>rd_index = kept, rd_at = 0, rd_source = None,
               rd_topics = map (\<lambda>(i, info). finish_topic env tallied i info) (enumerate 0 topics),
               rd_topic_index = topic_index, rd_window = [], rd_position = i64_MIN,
               rd_filter = [], rd_cursor = None, rd_metadata_yaml = yaml,
               rd_recording_id = recording_id,
               rd_message_count = (case kept of
                 Some ix \<Rightarrow> index_message_count ix
               | None \<Rightarrow> wrap_u64 (sum_list (map sc_num_rows messages))),
               rd_time_range = (case kept of
                 Some ix \<Rightarrow> index_time_range ix
               | None \<Rightarrow> fold (\<lambda>c r. merge_range r (sc_time_range c)) messages None),
               rd_earliest_remaining = (case kept of
                 Some ix \<Rightarrow> [] | None \<Rightarrow> suffix_minima scanned),
               rd_next_chunk = 0, rd_reverse = False, rd_last_message = None\<rparr>))"

definition found_in :: "('e::linorder) reader_env \<Rightarrow> 'e chunk_index option
    \<Rightarrow> (string option \<times> 'e found \<times> string option \<times> 'e scanned_chunk list) result" where
  "found_in env index =
     (case index of
        Some ix \<Rightarrow>
          (case index_load (env_file env) (ix_statics ix) of
             Inl e \<Rightarrow> Inl e
           | Inr chunks \<Rightarrow>
               (case collect_all (env_property env) chunks ([], None) of
                  Inl e \<Rightarrow> Inl e
                | Inr (found, yaml) \<Rightarrow> Inr (Some (ix_recording_id ix), found, yaml, [])))
      | None \<Rightarrow>
          (case scan (env_file env) of
             Inl e \<Rightarrow> Inl e
           | Inr msgs \<Rightarrow>
               (case scan_all (env_property env) msgs ([], None) of
                  Inl e \<Rightarrow> Inl e
                | Inr ((found, yaml), scanned) \<Rightarrow>
                    Inr ((case msgs of [] \<Rightarrow> None | m # _ \<Rightarrow> Some (store_recording_id m)),
                         found, yaml, scanned))))"

definition reader_open :: "('e::linorder) reader_env \<Rightarrow> 'e reader result" where
  "reader_open env =
     (case index_open (env_file env) of
        Inl e \<Rightarrow> Inl e
      | Inr index \<Rightarrow>
          (case found_in env index of
             Inl e \<Rightarrow> Inl e
           | Inr (None, _) \<Rightarrow> Inl NoRecording
           | Inr (Some recording_id, found, yaml, scanned) \<Rightarrow>
               if \<not> describes_itself found index scanned then Inl NoTopics
               else (case restart env (reader_of env index recording_id found yaml scanned) of
                       (Inl e, _) \<Rightarrow> Inl e
                     | (Inr _, rd) \<Rightarrow> Inr rd)))"

section \<open>Draining\<close>

lemma loop_order_trans: "(a, b) \<in> loop_order \<Longrightarrow> (b, c) \<in> loop_order \<Longrightarrow> (a, c) \<in> loop_order"
  by (auto simp: loop_order_def)

lemma loop_order_cong:
  "unread_size a' = unread_size a \<Longrightarrow> rows_left a' = rows_left a \<Longrightarrow>
     (a', b) \<in> loop_order \<longleftrightarrow> (a, b) \<in> loop_order"
  by (simp add: loop_order_def)

lemma read_on_loop_order: "read_on rd rd' \<Longrightarrow> (a, rd') \<in> loop_order \<Longrightarrow> (a, rd) \<in> loop_order"
  by (auto simp: read_on_def loop_order_def rows_left_def)

lemma take_row_loop_order:
  assumes "take_row env rd = (Inr (Some x), rd')"
  shows "(rd', rd) \<in> loop_order"
proof -
  obtain i row rd1 key where next_row: "next_row env rd = (Inr (Some (i, row)), rd1)"
    and rd': "rd' = (advance rd1 i)\<lparr>rd_cursor := Some key\<rparr>"
    using assms by (auto simp: take_row_def Let_def split: prod.splits sum.splits option.splits)
  have "(rd', rd) \<in> loop_order \<longleftrightarrow> (advance rd1 i, rd) \<in> loop_order"
    by (rule loop_order_cong) (auto simp: rd' rows_left_def intro!: unread_size_cong)
  then show ?thesis using loop_order_next [OF next_row] by simp
qed

lemma read_next_loop_order:
  "read_next env rd = (Inr (Some m), rd') \<Longrightarrow> (rd', rd) \<in> loop_order"
proof (induction env rd rule: read_next.induct)
  case (1 env rd)
  obtain i row rd1 where next_row: "next_row env rd = (Inr (Some (i, row)), rd1)"
    using "1.prems" by (subst (asm) read_next.simps) (auto split: prod.splits sum.splits option.splits)
  show ?case
  proof (cases "wanted rd1 (w_topic (rd_window rd1 ! i))")
    case True
    then obtain x where "take_row env rd1 = (Inr (Some x), rd')"
      using "1.prems"
      by (subst (asm) read_next.simps) (auto simp: next_row split: prod.splits sum.splits option.splits)
    then show ?thesis
      using take_row_loop_order next_row_read_on [OF next_row] read_on_loop_order by blast
  next
    case False
    then have "read_next env (advance rd1 i) = (Inr (Some m), rd')"
      using "1.prems" by (simp add: read_next.simps [of env rd] next_row)
    then have "(rd', advance rd1 i) \<in> loop_order"
      using "1.IH" [OF next_row [symmetric]] False by simp
    then show ?thesis
      using loop_order_next [OF next_row] loop_order_trans by blast
  qed
qed

text \<open>Reading to the end, as the tests and \<open>ros2 bag play\<close> do.\<close>

function drain :: "'e reader_env \<Rightarrow> 'e reader \<Rightarrow> message list result" where
  "drain env rd =
     (case read_next env rd of
        (Inl e, _) \<Rightarrow> Inl e
      | (Inr None, _) \<Rightarrow> Inr []
      | (Inr (Some m), rd') \<Rightarrow>
          (case drain env rd' of Inl e \<Rightarrow> Inl e | Inr ms \<Rightarrow> Inr (m # ms)))"
  by pat_completeness auto
termination
  by (relation "inv_image loop_order snd") (auto dest: read_next_loop_order [OF sym])

declare drain.simps [simp del]

end
