(* ===== verification/Contract.thy ===== *)
theory Contract
  imports Playback
begin

text \<open>
  What reading promises, without windows, chunks or files. The rows a pass has still to
  deal with are a multiset; a read removes the rows of unwanted topics that come first and
  then delivers the least row that is left, or fails on it and leaves it. \<open>Merge\<close> shows
  that the reader is a refinement of this machine.
\<close>

section \<open>Playback order\<close>

text \<open>
  Forward playback goes by ascending sort key, reverse playback by descending. \<open>rank\<close> maps
  a key so that the next row is always the one of least rank.
\<close>

definition rank_time :: "bool \<Rightarrow> i64 \<Rightarrow> int" where
  "rank_time reverse t = (if reverse then - t else t)"

definition rank :: "bool \<Rightarrow> sort_key \<Rightarrow> int \<times> int" where
  "rank reverse key = (rank_time reverse (fst key), rank_time reverse (snd key))"

lemma rank_le: "rank reverse k \<le> rank reverse k' \<longleftrightarrow> (if reverse then k' \<le> k else k \<le> k')"
  by (auto simp: rank_def rank_time_def less_eq_prod_def less_prod_def)

lemma rank_less: "rank reverse k < rank reverse k' \<longleftrightarrow> (if reverse then k' < k else k < k')"
  by (auto simp: rank_def rank_time_def less_eq_prod_def less_prod_def)

lemma rank_inj [simp]: "rank reverse k = rank reverse k' \<longleftrightarrow> k = k'"
  by (auto simp: rank_def rank_time_def prod_eq_iff)

lemma rank_time_le: "rank reverse k \<le> rank reverse k' \<Longrightarrow> rank_time reverse (fst k) \<le> rank_time reverse (fst k')"
  by (auto simp: rank_def less_eq_prod_def)

lemma rank_less_time: "rank_time reverse (fst k) < rank_time reverse (fst k') \<Longrightarrow> rank reverse k \<le> rank reverse k'"
  by (auto simp: rank_def less_eq_prod_def)

definition in_order :: "bool \<Rightarrow> row list \<Rightarrow> bool" where
  "in_order reverse rs = sorted (map (\<lambda>r. rank reverse (row_key r)) rs)"

lemma in_order_simps [simp]:
  "in_order reverse []"
  "in_order reverse (r # rs) \<longleftrightarrow>
     (\<forall>s \<in> set rs. rank reverse (row_key r) \<le> rank reverse (row_key s)) \<and> in_order reverse rs"
  by (auto simp: in_order_def)

lemma in_order_rev: "in_order False rs \<Longrightarrow> in_order True (rev rs)"
  unfolding in_order_def rev_map [symmetric] sorted_wrt_rev sorted_wrt_map
  by (simp add: rank_le)


text \<open>The order a whole pass delivers its rows in.\<close>

definition playback_order :: "bool \<Rightarrow> row list \<Rightarrow> row list" where
  "playback_order reverse rs =
     (let forward = sort_key row_key rs in if reverse then rev forward else forward)"

lemma mset_playback_order [simp]: "mset (playback_order reverse rs) = mset rs"
  by (simp add: playback_order_def Let_def)

lemma playback_order_in_order: "in_order reverse (playback_order reverse rs)"
proof -
  have "in_order False (sort_key row_key rs)"
    unfolding in_order_def sorted_map by (rule sorted_wrt_mono_rel [OF _ sorted_sort_key [unfolded sorted_map]]) (simp add: rank_le)
  then show ?thesis by (cases reverse) (simp_all add: playback_order_def Let_def in_order_rev)
qed

lemma playback_order_reverse: "playback_order True rs = rev (playback_order False rs)"
  by (simp add: playback_order_def)

section \<open>Where a pass starts\<close>

text \<open>The rows at or after a time, and the rows a resumed pass has still to deliver.\<close>

definition from_time :: "bool \<Rightarrow> i64 \<Rightarrow> row \<Rightarrow> bool" where
  "from_time reverse t r \<longleftrightarrow> rank_time reverse t \<le> rank_time reverse (fst (row_key r))"

definition resumes_at :: "bool \<Rightarrow> sort_key option \<Rightarrow> i64 \<Rightarrow> row \<Rightarrow> bool" where
  "resumes_at reverse cursor pos r =
     (case cursor of
        Some c \<Rightarrow> rank reverse c < rank reverse (row_key r)
      | None \<Rightarrow> pos = i64_MIN \<or> from_time reverse pos r)"

lemma resumes_at_later:
  "resumes_at reverse cursor pos r \<Longrightarrow> rank reverse (row_key r) \<le> rank reverse (row_key s) \<Longrightarrow>
     resumes_at reverse cursor pos s"
  by (auto simp: resumes_at_def from_time_def dest: rank_time_le split: option.splits)

lemma resumes_at_time:
  "resumes_at reverse cursor pos r \<Longrightarrow> (\<And>c. cursor = Some c \<Longrightarrow> pos = fst c) \<Longrightarrow>
     \<not> (cursor = None \<and> pos = i64_MIN) \<Longrightarrow>
     rank_time reverse pos \<le> rank_time reverse (fst (row_key r))"
  by (auto simp: resumes_at_def from_time_def intro: rank_time_le less_imp_le split: option.splits)

section \<open>The machine\<close>

abbreviation row_topic :: "row \<Rightarrow> usize" where
  "row_topic r \<equiv> fst (snd r)"

abbreviation row_send :: "row \<Rightarrow> i64" where
  "row_send r \<equiv> fst (snd (snd r))"

abbreviation row_data :: "row \<Rightarrow> bytes result" where
  "row_data r \<equiv> snd (snd (snd r))"

definition message_of :: "topic_info list \<Rightarrow> row \<Rightarrow> message" where
  "message_of topics r =
     \<lparr>msg_topic_name = ti_name (topics ! row_topic r), msg_recv_timestamp = fst (row_key r),
      msg_send_timestamp = row_send r,
      msg_data = (case row_data r of Inr bs \<Rightarrow> bs | Inl _ \<Rightarrow> [])\<rparr>"

datatype outcome = Finished | Delivered row | Failed error

fun result_of :: "topic_info list \<Rightarrow> outcome \<Rightarrow> message option result" where
  "result_of topics Finished = Inr None"
| "result_of topics (Delivered r) = Inr (Some (message_of topics r))"
| "result_of topics (Failed e) = Inl e"

definition least :: "bool \<Rightarrow> row \<Rightarrow> row multiset \<Rightarrow> bool" where
  "least reverse r rs \<longleftrightarrow>
     (\<forall>s \<in># rs. rank reverse (row_key r) \<le> rank reverse (row_key s))"

inductive playback_step ::
  "bool \<Rightarrow> (usize \<Rightarrow> bool) \<Rightarrow> row multiset \<Rightarrow> outcome \<Rightarrow> row multiset \<Rightarrow> bool"
  for reverse want where
  finished: "playback_step reverse want {#} Finished {#}"
| delivered: "want (row_topic r) \<Longrightarrow> row_data r = Inr bs \<Longrightarrow> least reverse r rs \<Longrightarrow>
    playback_step reverse want (add_mset r rs) (Delivered r) rs"
| failed: "want (row_topic r) \<Longrightarrow> row_data r = Inl e \<Longrightarrow> least reverse r rs \<Longrightarrow>
    playback_step reverse want (add_mset r rs) (Failed e) (add_mset r rs)"
| skipped: "\<not> want (row_topic r) \<Longrightarrow> least reverse r rs \<Longrightarrow>
    playback_step reverse want rs out rs' \<Longrightarrow>
    playback_step reverse want (add_mset r rs) out rs'"

inductive_cases finished_elim: "playback_step reverse want rs Finished rs'"
inductive_cases delivered_elim: "playback_step reverse want rs (Delivered r) rs'"
inductive_cases failed_elim: "playback_step reverse want rs (Failed e) rs'"

text \<open>Reading until there is nothing left, where no read fails.\<close>

inductive plays :: "bool \<Rightarrow> (usize \<Rightarrow> bool) \<Rightarrow> row multiset \<Rightarrow> row list \<Rightarrow> bool"
  for reverse want where
  plays_end: "playback_step reverse want rs Finished rs' \<Longrightarrow> plays reverse want rs []"
| plays_row: "playback_step reverse want rs (Delivered r) rs' \<Longrightarrow> plays reverse want rs' l \<Longrightarrow>
    plays reverse want rs (r # l)"

abbreviation wanted_rows :: "(usize \<Rightarrow> bool) \<Rightarrow> row multiset \<Rightarrow> row multiset" where
  "wanted_rows want rs \<equiv> filter_mset (\<lambda>r. want (row_topic r)) rs"

lemma finished_none:
  "playback_step reverse want rs Finished rs' \<Longrightarrow> wanted_rows want rs = {#} \<and> rs' = {#}"
  by (induction rs "Finished" rs' rule: playback_step.induct) auto

lemma delivered_least:
  "playback_step reverse want rs (Delivered r) rs' \<Longrightarrow>
     wanted_rows want rs = add_mset r (wanted_rows want rs') \<and> least reverse r rs'
     \<and> (\<exists>bs. row_data r = Inr bs)"
  by (induction rs "Delivered r" rs' rule: playback_step.induct) auto

lemma failed_stays:
  "playback_step reverse want rs (Failed e) rs' \<Longrightarrow>
     wanted_rows want rs' = wanted_rows want rs \<and> (\<exists>r \<in># rs'. least reverse r rs' \<and> row_data r = Inl e)"
  by (induction rs "Failed e" rs' rule: playback_step.induct) (auto simp: least_def)

lemma failed_stays_wanted:
  "playback_step reverse want rs (Failed e) rs' \<Longrightarrow>
     \<exists>r \<in># rs. want (row_topic r) \<and> row_data r = Inl e"
  by (induction rs "Failed e" rs' rule: playback_step.induct) auto

lemma step_subset: "playback_step reverse want rs out rs' \<Longrightarrow> rs' \<subseteq># rs"
  by (induction rule: playback_step.induct) (auto intro: subset_mset.order_trans)

text \<open>A whole pass delivers each wanted row once, in order, and nothing else.\<close>

lemma plays_sorted:
  "plays reverse want rs l \<Longrightarrow> mset l = wanted_rows want rs \<and> in_order reverse l"
proof (induction rs l rule: plays.induct)
  case (plays_end rs rs')
  then show ?case using finished_none [OF plays_end(1)] by simp
next
  case (plays_row rs r rs' l)
  note step = delivered_least [OF plays_row(1)]
  have "\<forall>s \<in> set l. s \<in># rs'"
    using plays_row.IH by (metis (no_types, lifting) mset_subset_eqD
        multiset_filter_subset set_mset_mset)
  then show ?case using plays_row.IH step by (auto simp: least_def)
qed

text \<open>Where no two rows share a sort key the delivery order is determined.\<close>

definition distinct_keys :: "row multiset \<Rightarrow> bool" where
  "distinct_keys rs \<longleftrightarrow> (\<forall>r \<in># rs. \<forall>s \<in># rs. row_key r = row_key s \<longrightarrow> r = s)"

lemma in_order_unique:
  "in_order reverse l \<Longrightarrow> in_order reverse l' \<Longrightarrow> mset l = mset l' \<Longrightarrow> distinct_keys (mset l)
   \<Longrightarrow> l = l'"
proof (induction l arbitrary: l')
  case (Cons r l)
  from Cons.prems(3) obtain s t where l': "l' = s # t" by (cases l') auto
  have "s \<in> set (r # l)" "r \<in> set (s # t)"
    using Cons.prems(3) l' by (metis list.set_intros(1) set_mset_mset)+
  then have "rank reverse (row_key r) = rank reverse (row_key s)"
    using Cons.prems(1,2) l' by fastforce
  then have "row_key r = row_key s" by simp
  then have "r = s"
    using Cons.prems(4) \<open>s \<in> set (r # l)\<close> by (metis distinct_keys_def list.set_intros(1) set_mset_mset)
  then show ?case
    using Cons.IH [of t] Cons.prems l' by (auto simp: distinct_keys_def)
qed simp

end
