(* ===== verification/Merge.thy ===== *)
theory Merge
  imports Contract
begin

text \<open>
  Why reading is a merge. The reader relies on one contract of the path it pulls chunks
  from, the locale \<open>chunk_source\<close>: pulls hand out the remaining chunks one by one, and the
  bound \<open>earliest_unread\<close> holds for every row still unread. The lemmas about filling the
  window, choosing a row and advancing are proved once from that contract, for both
  directions; the two paths of the code are shown to provide it in \<open>Sources\<close>.
\<close>

section \<open>Windows in order\<close>

text \<open>A window is in order when the rows it has still to emit are, and its times are in range.\<close>

definition in_range :: "i64 \<Rightarrow> bool" where
  "in_range t \<longleftrightarrow> i64_MIN < t \<and> t < i64_MAX"

definition window_ok :: "bool \<Rightarrow> cdr_writer \<Rightarrow> topic_info list \<Rightarrow> window \<Rightarrow> bool" where
  "window_ok reverse cw topics w \<longleftrightarrow>
     in_order reverse (pending cw topics w) \<and> (\<forall>t \<in> set (w_recv w). in_range t)"

lemma pending_time: "r \<in> set (pending cw topics w) \<Longrightarrow> fst (row_key r) \<in> set (w_recv w)"
  by (auto simp: pending_def row_at_def)

lemma window_ok_advance:
  assumes "window_ok reverse cw topics w" "w_next w < length (w_recv w)"
  shows "window_ok reverse cw topics (w\<lparr>w_next := Suc (w_next w)\<rparr>)"
  using assms by (simp add: window_ok_def pending_Cons [OF assms(2)])

lemma window_ok_first:
  assumes "window_ok reverse cw topics w" "w_key w = Some k" "r \<in> set (pending cw topics w)"
  shows "rank reverse k \<le> rank reverse (row_key r)"
proof -
  note hd = w_key_hd [OF assms(2), of cw topics]
  with assms(1,3) show ?thesis
    by (auto simp: window_ok_def pending_Cons [OF conjunct1 [OF hd]])
qed

section \<open>The contract of a chunk source\<close>

definition same_source :: "'e reader \<Rightarrow> 'e reader \<Rightarrow> bool" where
  "same_source rd rd' \<longleftrightarrow>
     rd_index rd' = rd_index rd \<and> rd_at rd' = rd_at rd \<and> rd_source rd' = rd_source rd
     \<and> rd_topics rd' = rd_topics rd \<and> rd_topic_index rd' = rd_topic_index rd
     \<and> rd_filter rd' = rd_filter rd \<and> rd_next_chunk rd' = rd_next_chunk rd
     \<and> rd_earliest_remaining rd' = rd_earliest_remaining rd \<and> rd_reverse rd' = rd_reverse rd"

lemma same_source_push [simp]: "same_source rd (push_window w rd)"
  by (simp add: same_source_def push_window_def)

lemma same_source_advance [simp]: "same_source rd (advance rd i)"
  by (simp add: same_source_def advance_frame)

text \<open>What a pass keeps fixed while it reads.\<close>

definition same_pass :: "'e reader \<Rightarrow> 'e reader \<Rightarrow> bool" where
  "same_pass rd rd' \<longleftrightarrow>
     rd_index rd' = rd_index rd \<and> rd_topics rd' = rd_topics rd
     \<and> rd_topic_index rd' = rd_topic_index rd \<and> rd_filter rd' = rd_filter rd
     \<and> rd_earliest_remaining rd' = rd_earliest_remaining rd \<and> rd_reverse rd' = rd_reverse rd"

lemma same_pass_trans: "same_pass rd rd' \<Longrightarrow> same_pass rd' rd'' \<Longrightarrow> same_pass rd rd''"
  by (simp add: same_pass_def)

lemma same_pass_wanted: "same_pass rd rd' \<Longrightarrow> wanted rd' = wanted rd"
  by (simp add: same_pass_def wanted_def fun_eq_iff)

lemma same_pass_advance [simp]: "same_pass rd (advance rd i)"
  by (simp add: same_pass_def advance_frame)

lemma same_pass_cursor [simp]: "same_pass rd (rd'\<lparr>rd_cursor := c\<rparr>) \<longleftrightarrow> same_pass rd rd'"
  by (simp add: same_pass_def)

text \<open>
  Where a read leaves the reader: just after the delivered row, or, after a failure, in
  front of the row that failed, so that the next read fails in the same way.
\<close>

definition cursor_after :: "'e reader_env \<Rightarrow> 'e reader \<Rightarrow> outcome \<Rightarrow> 'e reader \<Rightarrow> bool" where
  "cursor_after env rd out rd' \<longleftrightarrow>
     (case out of
        Delivered r \<Rightarrow> rd_cursor rd' = Some (row_key r) \<and> rd_position rd' = fst (row_key r)
      | Finished \<Rightarrow> rd_cursor rd' = rd_cursor rd
      | Failed e \<Rightarrow> rd_cursor rd' = rd_cursor rd \<and> read_next env rd' = (Inl e, rd'))"

lemma cursor_after_cong:
  "rd_cursor rd1 = rd_cursor rd \<Longrightarrow> cursor_after env rd1 out rd' = cursor_after env rd out rd'"
  by (simp add: cursor_after_def cong: outcome.case_cong)

locale chunk_source =
  fixes usable :: "'e reader_env \<Rightarrow> 'e reader \<Rightarrow> bool"
    and remaining :: "'e reader_env \<Rightarrow> 'e reader \<Rightarrow> window list"
  assumes frame: "same_source rd rd' \<Longrightarrow>
      usable env rd' = usable env rd \<and> remaining env rd' = remaining env rd"
    and pull_some: "usable env rd \<Longrightarrow> remaining env rd = w # ws \<Longrightarrow>
      \<exists>rd'. pull env rd = (Inr (Some w), rd') \<and> usable env rd' \<and> remaining env rd' = ws"
    and pull_none: "usable env rd \<Longrightarrow> remaining env rd = [] \<Longrightarrow>
      \<exists>rd'. pull env rd = (Inr None, rd') \<and> usable env rd' \<and> remaining env rd' = []"
    and unread_bound: "usable env rd \<Longrightarrow> \<not> (rd_reverse rd \<and> rd_index rd = None) \<Longrightarrow>
      w \<in> set (remaining env rd) \<Longrightarrow> t \<in> set (w_recv w) \<Longrightarrow>
      rank_time (rd_reverse rd) (earliest_unread rd) \<le> rank_time (rd_reverse rd) t"
begin

text \<open>The rows a pass has still to emit, held in windows or unread.\<close>

definition to_emit :: "'e reader_env \<Rightarrow> 'e reader \<Rightarrow> row multiset" where
  "to_emit env rd =
     window_rows (env_cdr env) (rd_topics rd) (rd_window rd @ remaining env rd)"

definition merge_ok :: "'e reader_env \<Rightarrow> 'e reader \<Rightarrow> bool" where
  "merge_ok env rd \<longleftrightarrow>
     usable env rd
     \<and> (\<forall>w \<in> set (rd_window rd @ remaining env rd).
          window_ok (rd_reverse rd) (env_cdr env) (rd_topics rd) w)"

text \<open>Every unread row comes after the candidate in the windows.\<close>

definition ready :: "'e reader_env \<Rightarrow> 'e reader \<Rightarrow> bool" where
  "ready env rd \<longleftrightarrow>
     (\<forall>w \<in> set (remaining env rd). \<forall>t \<in> set (w_recv w).
        \<exists>h. candidate rd = Some h
          \<and> rank_time (rd_reverse rd) (fst h) < rank_time (rd_reverse rd) t)"

lemma merge_step:
  assumes "merge_ok env rd" "remaining env rd = w # ws" "pull env rd = (Inr (Some w), rd')"
    "usable env rd'" "remaining env rd' = ws"
  shows "merge_ok env (push_window w rd')" "to_emit env (push_window w rd') = to_emit env rd"
    "same_but_merge rd (push_window w rd')"
proof -
  have same: "same_but_source rd rd'" by (rule pull_frame(1) [OF assms(3)])
  note fields = same_but_source_fields [OF same]
  have push: "usable env (push_window w rd')" "remaining env (push_window w rd') = ws"
    using frame [OF same_source_push, of env w rd'] assms(4,5) by auto
  show "merge_ok env (push_window w rd')" "to_emit env (push_window w rd') = to_emit env rd"
    using assms(1,2) push fields by (auto simp: merge_ok_def to_emit_def push_window_def)
  show "same_but_merge rd (push_window w rd')"
    using same by (cases rd; cases rd') (simp add: same_but_source_def same_but_merge_def push_window_def)
qed

lemma merge_end:
  assumes "merge_ok env rd" "remaining env rd = []" "pull env rd = (Inr None, rd')"
    "usable env rd'" "remaining env rd' = []"
  shows "merge_ok env rd'" "to_emit env rd' = to_emit env rd" "same_but_merge rd rd'"
    "ready env rd'"
  using assms same_but_source_fields [OF pull_frame(1) [OF assms(3)]]
    source_imp_merge [OF pull_frame(1) [OF assms(3)]]
  by (auto simp: merge_ok_def to_emit_def ready_def)

definition filled :: "'e reader_env \<Rightarrow> 'e reader \<Rightarrow> 'e reader \<Rightarrow> bool" where
  "filled env rd rd' \<longleftrightarrow>
     same_but_merge rd rd' \<and> merge_ok env rd' \<and> to_emit env rd' = to_emit env rd \<and> ready env rd'"

lemma filled_push:
  assumes "merge_ok env rd" "remaining env rd = w # ws" "pull env rd = (Inr (Some w), rd')"
    "usable env rd'" "remaining env rd' = ws" "filled env (push_window w rd') rd''"
  shows "filled env rd rd''"
  using merge_step [OF assms(1-5)] assms(6) unfolding filled_def
  by (auto elim: same_but_merge_trans)

lemma fill_all_filled:
  "merge_ok env rd \<Longrightarrow> \<exists>rd'. fill_all env rd = (Inr (), rd') \<and> filled env rd rd'"
proof (induction env rd rule: fill_all.induct)
  case (1 env rd)
  have usable: "usable env rd" using "1.prems" by (simp add: merge_ok_def)
  show ?case
  proof (cases "remaining env rd")
    case Nil
    obtain rd1 where "pull env rd = (Inr None, rd1)" "usable env rd1" "remaining env rd1 = []"
      using pull_none [OF usable Nil] by blast
    note fin = this merge_end [OF "1.prems" Nil this]
    then show ?thesis by (auto simp: fill_all.simps [of env rd] filled_def)
  next
    case (Cons w ws)
    obtain rd1 where pull: "pull env rd = (Inr (Some w), rd1)" "usable env rd1" "remaining env rd1 = ws"
      using pull_some [OF usable Cons] by blast
    note step = merge_step [OF "1.prems" Cons pull]
    obtain rd2 where "fill_all env (push_window w rd1) = (Inr (), rd2)"
      "filled env (push_window w rd1) rd2"
      using "1.IH" [OF pull(1) [symmetric] refl refl step(1)] by blast
    then show ?thesis
      using filled_push [OF "1.prems" Cons pull] pull(1) by (auto simp: fill_all.simps [of env rd])
  qed
qed

lemma settled_ready:
  assumes "merge_ok env rd" "\<not> (rd_reverse rd \<and> rd_index rd = None)" "settled rd"
  shows "ready env rd"
  unfolding ready_def
proof (intro ballI)
  fix w t assume unread: "w \<in> set (remaining env rd)" "t \<in> set (w_recv w)"
  have "rank_time (rd_reverse rd) (earliest_unread rd) \<le> rank_time (rd_reverse rd) t"
    using assms(1,2) unread by (intro unread_bound [where w = w]) (auto simp: merge_ok_def)
  with assms(3) show "\<exists>h. candidate rd = Some h
      \<and> rank_time (rd_reverse rd) (fst h) < rank_time (rd_reverse rd) t"
    by (auto simp: settled_def rank_time_def split: option.splits if_splits)
qed

lemma exhausted_ready:
  assumes "merge_ok env rd" "\<not> (rd_reverse rd \<and> rd_index rd = None)" "exhausted rd"
  shows "ready env rd"
  unfolding ready_def
proof (intro ballI)
  fix w t assume unread: "w \<in> set (remaining env rd)" "t \<in> set (w_recv w)"
  have "rank_time (rd_reverse rd) (earliest_unread rd) \<le> rank_time (rd_reverse rd) t"
    using assms(1,2) unread by (intro unread_bound [where w = w]) (auto simp: merge_ok_def)
  moreover have "in_range t"
    using assms(1) unread by (auto simp: merge_ok_def window_ok_def)
  ultimately have False
    using assms(3) by (auto simp: exhausted_def rank_time_def in_range_def split: if_splits)
  then show "\<exists>h. candidate rd = Some h
      \<and> rank_time (rd_reverse rd) (fst h) < rank_time (rd_reverse rd) t" ..
qed

lemma fill_loop_filled:
  "merge_ok env rd \<Longrightarrow> \<not> (rd_reverse rd \<and> rd_index rd = None) \<Longrightarrow>
     \<exists>rd'. fill_loop env rd = (Inr (), rd') \<and> filled env rd rd'"
proof (induction env rd rule: fill_loop.induct)
  case (1 env rd)
  have usable: "usable env rd" using "1.prems" by (simp add: merge_ok_def)
  show ?case
  proof (cases "settled rd \<or> exhausted rd \<and> candidate rd \<noteq> None")
    case True
    then have "ready env rd"
      using settled_ready [OF "1.prems"] exhausted_ready [OF "1.prems"] by blast
    then have "filled env rd rd" using "1.prems"(1) by (simp add: filled_def)
    then show ?thesis using True by (auto simp: fill_loop.simps [of env rd])
  next
    case unsettled: False
    show ?thesis
    proof (cases "remaining env rd")
      case Nil
      obtain rd1 where "pull env rd = (Inr None, rd1)" "usable env rd1" "remaining env rd1 = []"
        using pull_none [OF usable Nil] by blast
      note fin = this merge_end [OF "1.prems"(1) Nil this]
      then show ?thesis using unsettled by (auto simp: fill_loop.simps [of env rd] filled_def)
    next
      case (Cons w ws)
      obtain rd1 where pull: "pull env rd = (Inr (Some w), rd1)" "usable env rd1" "remaining env rd1 = ws"
        using pull_some [OF usable Cons] by blast
      note step = merge_step [OF "1.prems"(1) Cons pull]
      have "\<not> (rd_reverse (push_window w rd1) \<and> rd_index (push_window w rd1) = None)"
        using "1.prems"(2) same_but_merge_fields [OF step(3)] by simp
      then obtain rd2 where "fill_loop env (push_window w rd1) = (Inr (), rd2)"
        "filled env (push_window w rd1) rd2"
        using "1.IH" [OF _ _ pull(1) [symmetric] refl refl step(1)] unsettled by blast
      then show ?thesis
        using filled_push [OF "1.prems"(1) Cons pull] pull(1) unsettled
        by (auto simp: fill_loop.simps [of env rd])
    qed
  qed
qed

lemma fill_filled:
  "merge_ok env rd \<Longrightarrow> \<exists>rd'. fill env rd = (Inr (), rd') \<and> filled env rd rd'"
  by (simp add: fill_def fill_all_filled fill_loop_filled)

text \<open>Choosing a row: none is left, or the chosen one is a row of least rank.\<close>

definition first_row :: "'e reader_env \<Rightarrow> 'e reader \<Rightarrow> usize \<Rightarrow> row" where
  "first_row env rd i =
     row_at (env_cdr env) (rd_topics rd) (rd_window rd ! i) (w_next (rd_window rd ! i))"

definition chooses :: "'e reader_env \<Rightarrow> 'e reader \<Rightarrow> usize \<Rightarrow> bool" where
  "chooses env rd i \<longleftrightarrow>
     i < length (rd_window rd) \<and> w_next (rd_window rd ! i) < length (w_recv (rd_window rd ! i))
     \<and> (\<forall>r \<in># to_emit env rd.
          rank (rd_reverse rd) (row_key (first_row env rd i)) \<le> rank (rd_reverse rd) (row_key r))"

lemma candidate_None: "candidate rd = None \<longleftrightarrow> (\<forall>w \<in> set (rd_window rd). w_key w = None)"
  by (simp add: candidate_def)

lemma window_keys_Nil: "window_keys rd = [] \<longleftrightarrow> (\<forall>w \<in> set (rd_window rd). w_key w = None)"
proof -
  have "window_keys rd = [] \<longleftrightarrow> (\<forall>i k. (i, k) \<notin> set (window_keys rd))"
    by (cases "window_keys rd") auto
  also have "\<dots> \<longleftrightarrow> (\<forall>i < length (rd_window rd). w_key (rd_window rd ! i) = None)"
    by (metis window_keys_nth not_None_eq)
  finally show ?thesis by (simp only: all_set_conv_all_nth)
qed

lemma candidate_head: "candidate rd = Some h \<Longrightarrow> \<exists>i < length (rd_window rd). w_head (rd_window rd ! i) = Some h"
  by (auto simp: candidate_def in_set_conv_nth split: if_splits
      dest!: min_by_key_Some max_by_key_Some) blast+

lemma unread_Nil:
  assumes "ready env rd" "candidate rd = None" "w \<in> set (remaining env rd)"
  shows "w_recv w = []"
proof -
  have "t \<notin> set (w_recv w)" for t
    using assms by (auto simp: ready_def)
  then show ?thesis by (meson list.set_sel(1))
qed

lemma chooses_least:
  assumes ok: "merge_ok env rd" and ready: "ready env rd" and i: "(i, k) \<in> set (window_keys rd)"
    and least: "\<forall>(j, k') \<in> set (window_keys rd). rank (rd_reverse rd) k \<le> rank (rd_reverse rd) k'"
  shows "chooses env rd i"
proof -
  let ?w = "rd_window rd ! i"
  have w: "i < length (rd_window rd)" "w_key ?w = Some k" using i by (simp_all add: window_keys_nth)
  note hd = w_key_hd [OF w(2), of "env_cdr env" "rd_topics rd"]
  have "rank (rd_reverse rd) k \<le> rank (rd_reverse rd) (row_key r)" if "r \<in># to_emit env rd" for r
  proof -
    from that obtain v where v: "v \<in> set (rd_window rd) \<or> v \<in> set (remaining env rd)"
      "r \<in> set (pending (env_cdr env) (rd_topics rd) v)"
      by (auto simp: to_emit_def in_window_rows)
    then consider
      (held) j where "j < length (rd_window rd)" "v = rd_window rd ! j"
      | (unread) "v \<in> set (remaining env rd)"
      by (auto simp: in_set_conv_nth)
    then show ?thesis
    proof cases
      case held
      have "pending (env_cdr env) (rd_topics rd) v \<noteq> []" using v(2) by (auto simp del: pending_Nil)
      then obtain k' where k': "w_key (rd_window rd ! j) = Some k'"
        using held(2) by (cases "w_key (rd_window rd ! j)") auto
      have "rank (rd_reverse rd) k \<le> rank (rd_reverse rd) k'"
        using least held(1) k' window_keys_nth [of j k' rd] by blast
      also have "\<dots> \<le> rank (rd_reverse rd) (row_key r)"
        using ok held v(2) k' by (intro window_ok_first) (auto simp: merge_ok_def)
      finally show ?thesis .
    next
      case unread
      then obtain h where h: "candidate rd = Some h"
        "rank_time (rd_reverse rd) (fst h) < rank_time (rd_reverse rd) (fst (row_key r))"
        using ready pending_time [OF v(2)] unfolding ready_def by blast
      then obtain j where j: "j < length (rd_window rd)" "w_head (rd_window rd ! j) = Some h"
        using candidate_head by blast
      then obtain k' where k': "w_key (rd_window rd ! j) = Some k'" "fst k' = fst h"
        by (auto simp: w_head_def w_key_def split: option.splits)
      then have "rank (rd_reverse rd) k \<le> rank (rd_reverse rd) k'"
        using least j(1) window_keys_nth [of j k' rd] by blast
      then have "rank_time (rd_reverse rd) (fst k) < rank_time (rd_reverse rd) (fst (row_key r))"
        using rank_time_le h(2) k'(2) by fastforce
      then show ?thesis by (rule rank_less_time)
    qed
  qed
  then show ?thesis using w(1) hd by (simp add: chooses_def first_row_def)
qed

lemma next_row_cases:
  assumes "merge_ok env rd"
  obtains (finished) rd' where "next_row env rd = (Inr None, rd')" "filled env rd rd'"
      "to_emit env rd' = {#}"
    | (row) i rd' where "next_row env rd = (Inr (Some (i, w_next (rd_window rd' ! i))), rd')"
      "filled env rd rd'" "chooses env rd' i"
proof -
  obtain rd' where fill: "fill env rd = (Inr (), rd')" and rd': "filled env rd rd'"
    using fill_filled [OF assms] by blast
  let ?chosen = "if rd_reverse rd' then max_by_key snd (window_keys rd')
    else min_by_key snd (window_keys rd')"
  have next_row: "next_row env rd =
      (Inr (map_option (\<lambda>c. (fst c, w_next (rd_window rd' ! fst c))) ?chosen), rd')"
    by (simp add: next_row_def fill Let_def)
  show ?thesis
  proof (cases ?chosen)
    case None
    then have none: "\<forall>w \<in> set (rd_window rd'). w_key w = None"
      by (simp add: window_keys_Nil split: if_splits)
    then have "pending cw topics w = []" if "w \<in> set (rd_window rd' @ remaining env rd')" for cw topics w
      using that unread_Nil [of env rd' w] rd' by (auto simp: filled_def candidate_None)
    then have "to_emit env rd' = {#}"
      by (metis (no_types, lifting) empty_iff empty_set in_window_rows multiset_nonemptyE to_emit_def)
    then show ?thesis using finished next_row None rd' by simp
  next
    case (Some c)
    obtain i k where c: "c = (i, k)" by (cases c)
    have "(i, k) \<in> set (window_keys rd')"
      "\<forall>(j, k') \<in> set (window_keys rd'). rank (rd_reverse rd') k \<le> rank (rd_reverse rd') k'"
      using Some c by (auto simp: rank_le split: if_splits dest!: min_by_key_Some max_by_key_Some)
    then have "chooses env rd' i"
      using rd' by (intro chooses_least) (simp_all add: filled_def)
    then show ?thesis using row [of i rd'] next_row Some c rd' by simp
  qed
qed

lemma advance_emits:
  assumes "merge_ok env rd" "chooses env rd i"
  shows "merge_ok env (advance rd i)"
    "to_emit env rd = add_mset (first_row env rd i) (to_emit env (advance rd i))"
proof -
  let ?w = "rd_window rd ! i"
  have i: "i < length (rd_window rd)" "w_next ?w < length (w_recv ?w)"
    using assms(2) by (simp_all add: chooses_def)
  note same = frame [OF same_source_advance, of env rd i]
  have "set (rd_window (advance rd i)) \<subseteq> insert (?w\<lparr>w_next := Suc (w_next ?w)\<rparr>) (set (rd_window rd))"
    using i(1) mset_swap_remove [of i "(rd_window rd)[i := ?w\<lparr>w_next := Suc (w_next ?w)\<rparr>]"]
    by (auto simp: advance_def Let_def set_mset_mset [symmetric] simp del: set_mset_mset
        dest!: in_diffD) (auto dest: set_update_subset_insert [THEN subsetD])
  then show "merge_ok env (advance rd i)"
    using assms(1) same i window_ok_advance [OF _ i(2)]
    by (fastforce simp: merge_ok_def advance_frame)
  show "to_emit env rd = add_mset (first_row env rd i) (to_emit env (advance rd i))"
    using window_rows_advance [OF i(1) refl i(2)] same
    by (simp add: to_emit_def first_row_def advance_frame)
qed

lemma filled_pass: "filled env rd rd' \<Longrightarrow> same_pass rd rd'"
  using same_but_merge_fields [of rd rd'] by (simp add: filled_def same_pass_def)

lemma set_cursor [simp]:
  "merge_ok env (rd\<lparr>rd_cursor := c\<rparr>) = merge_ok env rd"
  "to_emit env (rd\<lparr>rd_cursor := c\<rparr>) = to_emit env rd"
proof -
  have "same_source rd (rd\<lparr>rd_cursor := c\<rparr>)" by (simp add: same_source_def)
  from frame [OF this] show "merge_ok env (rd\<lparr>rd_cursor := c\<rparr>) = merge_ok env rd"
    "to_emit env (rd\<lparr>rd_cursor := c\<rparr>) = to_emit env rd"
    by (simp_all add: merge_ok_def to_emit_def)
qed

lemma set_last_message [simp]:
  "merge_ok env (rd\<lparr>rd_last_message := m\<rparr>) = merge_ok env rd"
  "to_emit env (rd\<lparr>rd_last_message := m\<rparr>) = to_emit env rd"
proof -
  have "same_source rd (rd\<lparr>rd_last_message := m\<rparr>)" by (simp add: same_source_def)
  from frame [OF this] show "merge_ok env (rd\<lparr>rd_last_message := m\<rparr>) = merge_ok env rd"
    "to_emit env (rd\<lparr>rd_last_message := m\<rparr>) = to_emit env rd"
    by (simp_all add: merge_ok_def to_emit_def)
qed

lemma chooses_emit:
  assumes "merge_ok env rd" "chooses env rd i"
  shows "least (rd_reverse rd) (first_row env rd i) (to_emit env (advance rd i))"
  using assms advance_emits(2) [OF assms] by (simp add: least_def chooses_def)

text \<open>\<open>take\<close> hands out the chosen row and moves on, or fails and stays.\<close>

lemma take_chosen:
  assumes "next_row env rd = (Inr (Some (i, w_next (rd_window rd ! i))), rd)" "chooses env rd i"
  shows "take_row env rd =
    (case row_data (first_row env rd i) of
       Inl e \<Rightarrow> (Inl e, rd)
     | Inr data \<Rightarrow>
         (Inr (Some (row_topic (first_row env rd i), fst (row_key (first_row env rd i)),
                     row_send (first_row env rd i), data)),
          (advance rd i)\<lparr>rd_cursor := Some (row_key (first_row env rd i))\<rparr>))"
  using assms
  by (simp add: take_row_def Let_def first_row_def row_at_def chooses_def get_def
      split: sum.split)

text \<open>\<open>read_next\<close> refines the playback machine of \<open>Contract\<close>.\<close>

definition read_refines :: "'e reader_env \<Rightarrow> 'e reader \<Rightarrow> outcome \<Rightarrow> 'e reader \<Rightarrow> bool" where
  "read_refines env rd out rd' \<longleftrightarrow>
     read_next env rd = (result_of (rd_topics rd) out, rd')
     \<and> playback_step (rd_reverse rd) (wanted rd) (to_emit env rd) out (to_emit env rd')
     \<and> merge_ok env rd' \<and> same_pass rd rd'
     \<and> cursor_after env rd out rd'"

lemma advance_position:
  "chooses env rd i \<Longrightarrow> rd_position (advance rd i) = fst (row_key (first_row env rd i))"
  by (auto simp: advance_def Let_def chooses_def first_row_def row_at_def get_def)

lemma read_finished:
  assumes "next_row env rd = (Inr None, rd')" "filled env rd rd'" "to_emit env rd' = {#}"
  shows "read_refines env rd Finished rd'"
  using assms filled_pass [OF assms(2)] same_but_merge_fields [of rd rd'] playback_step.finished
  by (auto simp: read_refines_def read_next.simps [of env rd] filled_def cursor_after_def)

lemma read_chosen:
  assumes next_row: "next_row env rd = (Inr (Some (i, w_next (rd_window rd1 ! i))), rd1)"
    and filled: "filled env rd rd1" and chosen: "chooses env rd1 i"
    and want: "wanted rd (row_topic (first_row env rd1 i))"
  shows "\<exists>out rd'. read_refines env rd out rd'"
proof -
  let ?r = "first_row env rd1 i"
  note fields = same_but_merge_fields [of rd rd1]
  have ok: "merge_ok env rd1" and emit: "to_emit env rd1 = to_emit env rd"
    and merge: "same_but_merge rd rd1"
    using filled by (simp_all add: filled_def)
  have topic: "row_topic ?r = w_topic (rd_window rd1 ! i)"
    by (simp add: first_row_def row_at_def)
  note advanced = advance_emits [OF ok chosen]
  have least: "least (rd_reverse rd) ?r (to_emit env (advance rd1 i))"
    using chooses_emit [OF ok chosen] fields [OF merge] by simp
  have want1: "wanted rd1 (w_topic (rd_window rd1 ! i))"
    using want topic same_pass_wanted [OF filled_pass [OF filled]] by simp
  note take = take_chosen [OF next_row_twice [OF next_row] chosen]
  show ?thesis
  proof (cases "row_data ?r")
    case (Inl e)
    have "playback_step (rd_reverse rd) (wanted rd) (to_emit env rd) (Failed e) (to_emit env rd1)"
      using playback_step.failed [of "wanted rd" ?r e, OF want Inl least] advanced(2) emit by simp
    moreover have "read_next env rd1 = (Inl e, rd1)"
      using take Inl want1 by (simp add: read_next.simps [of env rd1] next_row_twice [OF next_row])
    ultimately have "read_refines env rd (Failed e) rd1"
      using take Inl want1 ok filled_pass [OF filled] fields [OF merge]
      by (simp add: read_refines_def read_next.simps [of env rd] next_row cursor_after_def)
    then show ?thesis by blast
  next
    case (Inr data)
    let ?rd = "(advance rd1 i)\<lparr>rd_cursor := Some (row_key ?r)\<rparr>"
    have "playback_step (rd_reverse rd) (wanted rd) (to_emit env rd) (Delivered ?r) (to_emit env ?rd)"
      using playback_step.delivered [of "wanted rd" ?r data, OF want Inr least] advanced(2) emit by simp
    then have "read_refines env rd (Delivered ?r) ?rd"
      using take Inr want1 advanced(1) filled_pass [OF filled] fields [OF merge]
        same_pass_trans [OF filled_pass [OF filled] same_pass_advance] advance_position [OF chosen]
      by (simp add: read_refines_def read_next.simps [of env rd] next_row message_of_def
          advance_frame cursor_after_def)
    then show ?thesis by blast
  qed
qed

lemma read_next_refines: "merge_ok env rd \<Longrightarrow> \<exists>out rd'. read_refines env rd out rd'"
proof (induction env rd rule: read_next.induct)
  case (1 env rd)
  from "1.prems" show ?case
  proof (cases rule: next_row_cases)
    case (finished rd1)
    then show ?thesis using read_finished by blast
  next
    case (row i rd1)
    show ?thesis
    proof (cases "wanted rd (row_topic (first_row env rd1 i))")
      case True
      then show ?thesis using read_chosen row by blast
    next
      case False
      let ?r = "first_row env rd1 i"
      have ok: "merge_ok env rd1" using row(2) by (simp add: filled_def)
      note advanced = advance_emits [OF ok row(3)] and pass = filled_pass [OF row(2)]
      have unwanted: "\<not> wanted rd1 (w_topic (rd_window rd1 ! i))"
        using False same_pass_wanted [OF pass] by (simp add: first_row_def row_at_def)
      obtain out rd' where read: "read_refines env (advance rd1 i) out rd'"
        using "1.IH" [OF row(1) [symmetric] refl refl refl unwanted advanced(1)] by blast
      have pass': "same_pass rd (advance rd1 i)"
        using same_pass_trans [OF pass same_pass_advance] .
      have "playback_step (rd_reverse rd) (wanted rd) (to_emit env rd) out (to_emit env rd')"
        using read advanced(2) row(2) chooses_emit [OF ok row(3)] pass' same_pass_wanted [OF pass'] False
          playback_step.skipped [of "wanted rd" ?r "rd_reverse rd" "to_emit env (advance rd1 i)" out "to_emit env rd'"]
        by (simp add: read_refines_def filled_def same_pass_def advance_frame)
      moreover have "read_next env rd = read_next env (advance rd1 i)"
        using unwanted by (simp add: read_next.simps [of env rd] row(1))
      moreover have "cursor_after env (advance rd1 i) out rd' = cursor_after env rd out rd'"
        using row(2) same_but_merge_fields [of rd rd1]
        by (intro cursor_after_cong) (simp add: filled_def advance_frame)
      ultimately have "read_refines env rd out rd'"
        using read pass' same_pass_trans [OF pass']
        by (auto simp: read_refines_def same_pass_def)
      then show ?thesis by blast
    qed
  qed
qed

text \<open>Draining plays the rows back, where every wanted row has a payload.\<close>

lemma drain_plays:
  "merge_ok env rd \<Longrightarrow>
   (\<forall>r \<in># to_emit env rd. wanted rd (row_topic r) \<longrightarrow> (\<exists>bs. row_data r = Inr bs)) \<Longrightarrow>
   \<exists>l. plays (rd_reverse rd) (wanted rd) (to_emit env rd) l
     \<and> drain env rd = Inr (map (message_of (rd_topics rd)) l)"
proof (induction env rd rule: drain.induct)
  case (1 env rd)
  obtain out rd' where read: "read_refines env rd out rd'"
    using read_next_refines "1.prems"(1) by blast
  then have step: "playback_step (rd_reverse rd) (wanted rd) (to_emit env rd) out (to_emit env rd')"
    and pass: "same_pass rd rd'" and ok: "merge_ok env rd'"
    and result: "read_next env rd = (result_of (rd_topics rd) out, rd')"
    by (auto simp: read_refines_def)
  show ?case
  proof (cases out)
    case Finished
    then show ?thesis
      using step result plays_end by (auto simp: drain.simps [of env rd])
  next
    case (Failed e)
    have False
      using failed_stays_wanted [OF step [unfolded Failed]] "1.prems"(2) by force
    then show ?thesis ..
  next
    case (Delivered r)
    note least = delivered_least [OF step [unfolded Delivered]]
    have "\<exists>l. plays (rd_reverse rd') (wanted rd') (to_emit env rd') l
        \<and> drain env rd' = Inr (map (message_of (rd_topics rd')) l)"
    proof (rule "1.IH" [OF result [unfolded Delivered, simplified, symmetric] refl refl ok])
      show "\<forall>r \<in># to_emit env rd'. wanted rd' (row_topic r) \<longrightarrow> (\<exists>bs. row_data r = Inr bs)"
        using "1.prems"(2) mset_subset_eqD [OF step_subset [OF step]] same_pass_wanted [OF pass]
        by simp
    qed
    then obtain l where l: "plays (rd_reverse rd) (wanted rd) (to_emit env rd') l"
      "drain env rd' = Inr (map (message_of (rd_topics rd)) l)"
      using pass same_pass_wanted [OF pass] by (auto simp: same_pass_def)
    have "plays (rd_reverse rd) (wanted rd) (to_emit env rd) (r # l)"
      by (rule plays_row [OF step [unfolded Delivered] l(1)])
    moreover have "drain env rd = Inr (map (message_of (rd_topics rd)) (r # l))"
      using result Delivered l(2) by (simp add: drain.simps [of env rd])
    ultimately show ?thesis by blast
  qed
qed

text \<open>
  Winding skips rows until one satisfies a test, so where the test holds of every later
  row as soon as it holds of one, it leaves exactly the rows that satisfy it.
\<close>

lemma wind_filters:
  "merge_ok env rd \<Longrightarrow>
   (\<And>w. w_next w < length (w_recv w) \<Longrightarrow>
      stop w (w_next w) = P (row_at (env_cdr env) (rd_topics rd) w (w_next w))) \<Longrightarrow>
   (\<And>r s. P r \<Longrightarrow> rank (rd_reverse rd) (row_key r) \<le> rank (rd_reverse rd) (row_key s) \<Longrightarrow> P s) \<Longrightarrow>
   \<exists>rd'. wind stop env rd = (Inr (), rd') \<and> merge_ok env rd' \<and> same_pass rd rd'
     \<and> to_emit env rd' = filter_mset P (to_emit env rd)"
proof (induction stop env rd rule: wind.induct)
  case (1 stop env rd)
  from "1.prems"(1) show ?case
  proof (cases rule: next_row_cases)
    case (finished rd1)
    then show ?thesis
      using filled_pass [OF finished(2)] by (auto simp: wind.simps [of stop env rd] filled_def)
  next
    case (row i rd1)
    let ?w = "rd_window rd1 ! i" and ?r = "first_row env rd1 i"
    have ok: "merge_ok env rd1" and emit: "to_emit env rd1 = to_emit env rd"
      and pass: "same_pass rd rd1"
      using row(2) filled_pass by (auto simp: filled_def)
    note advanced = advance_emits [OF ok row(3)]
    have reached: "stop ?w (w_next ?w) = P ?r"
      using "1.prems"(2) [of ?w] row(3) pass by (simp add: chooses_def first_row_def same_pass_def)
    show ?thesis
    proof (cases "P ?r")
      case True
      have "filter_mset P (to_emit env rd1) = to_emit env rd1"
        using row(3) pass "1.prems"(3) [OF True]
        by (intro filter_mset_True_all) (auto simp: chooses_def same_pass_def)
      then show ?thesis
        using True reached row(1) ok emit pass by (simp add: wind.simps [of stop env rd])
    next
      case False
      have fields: "rd_topics (advance rd1 i) = rd_topics rd" "rd_reverse (advance rd1 i) = rd_reverse rd"
        using pass by (simp_all add: same_pass_def advance_frame)
      obtain rd' where "wind stop env (advance rd1 i) = (Inr (), rd')" "merge_ok env rd'"
        "same_pass (advance rd1 i) rd'" "to_emit env rd' = filter_mset P (to_emit env (advance rd1 i))"
        using "1.IH" [OF row(1) [symmetric] refl refl refl _ advanced(1), unfolded fields]
          False reached "1.prems"(2,3) by blast
      moreover have "filter_mset P (to_emit env (advance rd1 i)) = filter_mset P (to_emit env rd)"
        unfolding emit [symmetric] advanced(2) using False by simp
      ultimately show ?thesis
        using False reached row(1) pass
        by (simp add: wind.simps [of stop env rd] same_pass_def advance_frame)
    qed
  qed
qed

end

section \<open>The contract of a whole pass\<close>

text \<open>
  Starting a pass over is part of the contract too: where the recording is playable, it
  makes the windows of the whole pass remain, and skipping to a time leaves out only
  windows that end before it. \<open>bag_rows\<close> are the rows of the recording, whatever the
  filter and the direction.
\<close>

definition same_recording :: "'e reader \<Rightarrow> 'e reader \<Rightarrow> bool" where
  "same_recording rd rd' \<longleftrightarrow>
     rd_index rd' = rd_index rd \<and> rd_topics rd' = rd_topics rd
     \<and> rd_topic_index rd' = rd_topic_index rd
     \<and> rd_earliest_remaining rd' = rd_earliest_remaining rd"

lemma same_pass_recording: "same_pass rd rd' \<Longrightarrow> same_recording rd rd'"
  by (simp add: same_pass_def same_recording_def)

lemma restart_frame:
  "restart env rd = (r, rd') \<Longrightarrow>
     same_pass rd rd' \<and> rd_window rd' = [] \<and> rd_position rd' = i64_MIN \<and> rd_cursor rd' = None"
  by (auto simp: restart_def same_pass_def Let_def split: if_splits sum.splits)

lemma skip_frame:
  "same_pass rd (skip_index_to t rd)" "rd_window (skip_index_to t rd) = rd_window rd"
  by (simp_all add: skip_index_to_def same_pass_def split: option.split)

locale playback_source = chunk_source usable remaining
  for usable :: "'e reader_env \<Rightarrow> 'e reader \<Rightarrow> bool"
    and remaining :: "'e reader_env \<Rightarrow> 'e reader \<Rightarrow> window list" +
  fixes playable :: "'e reader_env \<Rightarrow> 'e reader \<Rightarrow> bool"
    and pass_windows :: "'e reader_env \<Rightarrow> 'e reader \<Rightarrow> window list"
    and bag_rows :: "'e reader_env \<Rightarrow> 'e reader \<Rightarrow> row multiset"
  assumes recording_frame: "same_recording rd rd' \<Longrightarrow>
      playable env rd' = playable env rd \<and> bag_rows env rd' = bag_rows env rd"
    and windows_ok: "playable env rd \<Longrightarrow> w \<in> set (pass_windows env rd) \<Longrightarrow>
      window_ok (rd_reverse rd) (env_cdr env) (rd_topics rd) w"
    and windows_rows: "playable env rd \<Longrightarrow>
      wanted_rows (wanted rd) (window_rows (env_cdr env) (rd_topics rd) (pass_windows env rd))
        = wanted_rows (wanted rd) (bag_rows env rd)"
    and rewind: "playable env rd \<Longrightarrow>
      \<exists>rd'. restart env rd = (Inr (), rd') \<and> usable env rd' \<and> remaining env rd' = pass_windows env rd"
    and skip: "playable env rd \<Longrightarrow> restart env rd = (Inr (), rd') \<Longrightarrow>
      usable env (skip_index_to t rd')
      \<and> (\<exists>dropped. pass_windows env rd = dropped @ remaining env (skip_index_to t rd')
           \<and> (\<forall>w \<in> set dropped. \<forall>s \<in> set (w_recv w).
                rank_time (rd_reverse rd) s < rank_time (rd_reverse rd) t))"
begin

definition pass_rows :: "'e reader_env \<Rightarrow> 'e reader \<Rightarrow> row multiset" where
  "pass_rows env rd = window_rows (env_cdr env) (rd_topics rd) (pass_windows env rd)"

lemma restart_rows:
  assumes "playable env rd"
  shows "\<exists>rd'. restart env rd = (Inr (), rd') \<and> merge_ok env rd' \<and> same_pass rd rd'
     \<and> to_emit env rd' = pass_rows env rd"
proof -
  obtain rd' where rd': "restart env rd = (Inr (), rd')" "usable env rd'"
    "remaining env rd' = pass_windows env rd"
    using rewind [OF assms] by blast
  then show ?thesis
    using restart_frame [OF rd'(1)] windows_ok [OF assms]
    by (simp add: merge_ok_def to_emit_def pass_rows_def same_pass_def)
qed

text \<open>Skipping and then winding keeps the rows that satisfy a test only later rows satisfy.\<close>

lemma wind_from_skip:
  assumes playable: "playable env rd" and restart: "restart env rd = (Inr (), rd1)"
    and test: "\<And>w. w_next w < length (w_recv w) \<Longrightarrow>
      stop w (w_next w) = P (row_at (env_cdr env) (rd_topics rd) w (w_next w))"
    and mono: "\<And>r s. P r \<Longrightarrow> rank (rd_reverse rd) (row_key r) \<le> rank (rd_reverse rd) (row_key s) \<Longrightarrow> P s"
    and late: "\<And>r. P r \<Longrightarrow> rank_time (rd_reverse rd) t \<le> rank_time (rd_reverse rd) (fst (row_key r))"
    and same: "same_source (skip_index_to t rd1) rd2" "rd_window rd2 = []"
  shows "\<exists>rd'. wind stop env rd2 = (Inr (), rd') \<and> merge_ok env rd' \<and> same_pass rd rd'
     \<and> to_emit env rd' = filter_mset P (pass_rows env rd)"
proof -
  obtain dropped where skipped: "usable env (skip_index_to t rd1)"
    "pass_windows env rd = dropped @ remaining env (skip_index_to t rd1)"
    "\<forall>w \<in> set dropped. \<forall>s \<in> set (w_recv w).
       rank_time (rd_reverse rd) s < rank_time (rd_reverse rd) t"
    using skip [OF playable restart] by blast
  note frame2 = frame [OF same(1), of env]
  have pass: "same_pass rd rd2"
    using same(1) skip_frame(1) [of rd1 t] restart_frame [OF restart]
    by (simp add: same_pass_def same_source_def)
  have ok: "merge_ok env rd2"
    using skipped(1,2) frame2 same(2) windows_ok [OF playable] pass
    by (simp add: merge_ok_def same_pass_def)
  have "\<not> P r" if r: "r \<in># window_rows cw topics dropped" for r cw topics
  proof -
    obtain w where w: "w \<in> set dropped" "r \<in> set (pending cw topics w)"
      using r unfolding in_window_rows by blast
    then have "rank_time (rd_reverse rd) (fst (row_key r)) < rank_time (rd_reverse rd) t"
      using skipped(3) pending_time [OF w(2)] by blast
    then show ?thesis using late [of r] by auto
  qed
  then have "filter_mset P (window_rows cw topics dropped) = {#}" for cw topics
    by (rule filter_mset_False_all)
  then have "filter_mset P (pass_rows env rd) = filter_mset P (to_emit env rd2)"
    using skipped(2) frame2 same(2) pass by (simp add: pass_rows_def to_emit_def same_pass_def)
  moreover have fields: "rd_topics rd2 = rd_topics rd" "rd_reverse rd2 = rd_reverse rd"
    using pass by (simp_all add: same_pass_def)
  have "\<exists>rd'. wind stop env rd2 = (Inr (), rd') \<and> merge_ok env rd' \<and> same_pass rd2 rd'
      \<and> to_emit env rd' = filter_mset P (to_emit env rd2)"
    by (rule wind_filters [OF ok]) (use test mono fields in auto)
  ultimately show ?thesis using same_pass_trans [OF pass] by auto
qed

lemma seek_rows:
  assumes "playable env rd"
  shows "\<exists>rd'. seek env t rd = (Inr (), rd') \<and> merge_ok env rd' \<and> same_pass rd rd'
     \<and> to_emit env rd' = filter_mset (from_time (rd_reverse rd) t) (pass_rows env rd)
     \<and> rd_position rd' = t \<and> rd_cursor rd' = None"
proof -
  obtain rd1 where restart: "restart env rd = (Inr (), rd1)"
    using rewind [OF assms] by blast
  have reverse: "rd_reverse rd1 = rd_reverse rd"
    using restart_frame [OF restart] by (simp add: same_pass_def)
  obtain rd2 where rd2: "wind (seek_reached (rd_reverse rd) t) env (skip_index_to t rd1) = (Inr (), rd2)"
    "merge_ok env rd2" "same_pass rd rd2"
    "to_emit env rd2 = filter_mset (from_time (rd_reverse rd) t) (pass_rows env rd)"
    using wind_from_skip [OF assms restart, where P = "from_time (rd_reverse rd) t" and t = t
        and stop = "seek_reached (rd_reverse rd) t" and ?rd2.0 = "skip_index_to t rd1"]
      restart_frame [OF restart] rank_time_le
    by (fastforce simp: seek_reached_def from_time_def row_at_def rank_time_def get_def
        same_source_def skip_frame)
  let ?rd = "rd2\<lparr>rd_position := t, rd_cursor := None\<rparr>"
  have "same_source rd2 ?rd" by (simp add: same_source_def)
  from frame [OF this] have "merge_ok env ?rd" "to_emit env ?rd = to_emit env rd2"
    using rd2(2) by (simp_all add: merge_ok_def to_emit_def)
  then show ?thesis
    using rd2 restart reverse by (auto simp: seek_def same_pass_def)
qed

text \<open>
  Resuming makes the rows after the cursor remain, or, where nothing was delivered since
  the last seek, the rows the seek left. The position it skips to is the cursor's time.
\<close>

lemma resume_rows:
  assumes playable: "playable env rd"
    and cursor: "\<And>c. rd_cursor rd = Some c \<Longrightarrow> rd_position rd = fst c"
  shows "\<exists>rd'. resume env rd = (Inr (), rd') \<and> merge_ok env rd' \<and> same_pass rd rd'
     \<and> to_emit env rd' =
         filter_mset (resumes_at (rd_reverse rd) (rd_cursor rd) (rd_position rd)) (pass_rows env rd)
     \<and> rd_position rd' = rd_position rd \<and> rd_cursor rd' = rd_cursor rd"
proof (cases "rd_cursor rd = None \<and> rd_position rd = i64_MIN")
  case True
  then show ?thesis
    using restart_rows [OF playable] restart_frame [of env rd]
    by (auto simp: resume_def resumes_at_def filter_mset_True_all)
next
  case False
  let ?P = "resumes_at (rd_reverse rd) (rd_cursor rd) (rd_position rd)"
  let ?stop = "resume_passed (rd_reverse rd) (rd_cursor rd) (rd_position rd)"
  obtain rd1 where restart: "restart env rd = (Inr (), rd1)"
    using rewind [OF playable] by blast
  have reverse: "rd_reverse rd1 = rd_reverse rd"
    using restart_frame [OF restart] by (simp add: same_pass_def)
  let ?rd = "skip_index_to (rd_position rd) (rd1\<lparr>rd_position := rd_position rd\<rparr>)"
  have "\<exists>rd'. wind ?stop env ?rd = (Inr (), rd') \<and> merge_ok env rd' \<and> same_pass rd rd'
     \<and> to_emit env rd' = filter_mset ?P (pass_rows env rd)"
  proof (rule wind_from_skip [OF playable restart])
    show "?stop w (w_next w) = ?P (row_at (env_cdr env) (rd_topics rd) w (w_next w))"
      if "w_next w < length (w_recv w)" for w
      using that False
      by (auto simp: resume_passed_def resumes_at_def row_at_def w_key_def get_def from_time_def
          rank_less rank_time_def split: option.split)
    show "?P s" if "?P r" "rank (rd_reverse rd) (row_key r) \<le> rank (rd_reverse rd) (row_key s)" for r s
      using that by (rule resumes_at_later)
    show "rank_time (rd_reverse rd) (rd_position rd) \<le> rank_time (rd_reverse rd) (fst (row_key r))"
      if "?P r" for r
      using resumes_at_time [OF that] cursor False by blast
    show "same_source (skip_index_to (rd_position rd) rd1) ?rd" "rd_window ?rd = []"
      using restart_frame [OF restart]
      by (simp_all add: same_source_def skip_index_to_def split: option.split)
  qed
  then obtain rd2 where rd2: "wind ?stop env ?rd = (Inr (), rd2)" "merge_ok env rd2"
    "same_pass rd rd2" "to_emit env rd2 = filter_mset ?P (pass_rows env rd)"
    by blast
  let ?rd' = "rd2\<lparr>rd_position := rd_position rd, rd_cursor := rd_cursor rd\<rparr>"
  have "same_source rd2 ?rd'" by (simp add: same_source_def)
  from frame [OF this] have "merge_ok env ?rd'" "to_emit env ?rd' = to_emit env rd2"
    using rd2(2) by (simp_all add: merge_ok_def to_emit_def)
  then show ?thesis
    using rd2 restart reverse False
    by (auto simp: resume_def Let_def same_pass_def split del: if_split)
qed

text \<open>Changing the filter or the direction.\<close>

lemma set_filter_rows:
  assumes playable: "playable env (rd\<lparr>rd_filter := topics\<rparr>)" and index: "rd_index rd \<noteq> None"
    and changed: "topics \<noteq> rd_filter rd"
    and cursor: "\<And>c. rd_cursor rd = Some c \<Longrightarrow> rd_position rd = fst c"
  shows "\<exists>rd'. set_filter env topics rd = (Inr (), rd') \<and> merge_ok env rd'
     \<and> same_pass (rd\<lparr>rd_filter := topics\<rparr>) rd'
     \<and> to_emit env rd' =
         filter_mset (resumes_at (rd_reverse rd) (rd_cursor rd) (rd_position rd))
           (pass_rows env (rd\<lparr>rd_filter := topics\<rparr>))"
  using resume_rows [OF playable] cursor index changed by (auto simp: set_filter_def)

lemma set_reverse_rows:
  assumes "playable env (rd\<lparr>rd_reverse := reverse\<rparr>)" "reverse \<noteq> rd_reverse rd"
  shows "\<exists>rd'. set_reverse env reverse rd = (Inr (), rd') \<and> merge_ok env rd'
     \<and> same_pass (rd\<lparr>rd_reverse := reverse\<rparr>) rd'
     \<and> to_emit env rd' = pass_rows env (rd\<lparr>rd_reverse := reverse\<rparr>)"
  using restart_rows [OF assms(1)] assms(2) by (auto simp: set_reverse_def)

text \<open>What draining returns, in terms of the rows of the recording.\<close>

lemma drain_rows:
  assumes "merge_ok env rd" and "mset l = wanted_rows (wanted rd) (to_emit env rd)"
    and "\<forall>r \<in> set l. \<exists>bs. row_data r = Inr bs" and "distinct_keys (mset l)"
  shows "drain env rd = Inr (map (message_of (rd_topics rd)) (playback_order (rd_reverse rd) l))"
proof -
  have payloads: "\<forall>r \<in># to_emit env rd. wanted rd (row_topic r) \<longrightarrow> (\<exists>bs. row_data r = Inr bs)"
    using assms(2,3) by (metis (mono_tags, lifting) mem_Collect_eq set_mset_filter set_mset_mset)
  obtain l' where l': "plays (rd_reverse rd) (wanted rd) (to_emit env rd) l'"
    "drain env rd = Inr (map (message_of (rd_topics rd)) l')"
    using drain_plays [OF assms(1) payloads] by blast
  then have "l' = playback_order (rd_reverse rd) l"
    using plays_sorted [OF l'(1)] assms(2,4) playback_order_in_order
    by (intro in_order_unique [of "rd_reverse rd"]) auto
  with l'(2) show ?thesis by simp
qed

lemma wanted_pass_rows:
  assumes "playable env rd" "same_pass rd rd'"
  shows "wanted_rows (wanted rd') (filter_mset P (pass_rows env rd))
       = filter_mset P (wanted_rows (wanted rd) (bag_rows env rd))"
proof -
  have "wanted_rows (wanted rd) (filter_mset P (pass_rows env rd))
      = filter_mset P (wanted_rows (wanted rd) (pass_rows env rd))"
    by (rule filter_filter_mset')
  then show ?thesis
    using windows_rows [OF assms(1)] same_pass_wanted [OF assms(2)] by (simp add: pass_rows_def)
qed

end

end
