(* ===== verification/Sources.thy ===== *)
theory Sources
  imports Merge
begin

text \<open>
  The two paths the reader pulls chunks from, the chunk index of a footer and the forward
  scan of a recording without one, and the proof that each keeps the contract
  \<open>playback_source\<close>. \<open>indexed_playable\<close> and \<open>scan_playable\<close> say what a recording has to
  be for that: every message chunk loads, its rows are in receive-time order with the
  three timelines covering them, and the index states the true time range of each chunk.
\<close>

section \<open>Windows as a chunk gives them\<close>

definition good_window :: "cdr_writer \<Rightarrow> topic_info list \<Rightarrow> window \<Rightarrow> bool" where
  "good_window cw topics w \<longleftrightarrow>
     same_length w \<and> \<not> w_reversed w \<and> w_next w = 0
     \<and> in_order False (pending cw topics w) \<and> (\<forall>t \<in> set (w_recv w). in_range t)"

lemma w_recv_orient [simp]: "set (w_recv (orient reverse w)) = set (w_recv w)"
  by (simp add: orient_def w_reverse_def)

lemma mset_pending_orient:
  "good_window cw topics w \<Longrightarrow>
     mset (pending cw topics (orient reverse w)) = mset (pending cw topics w)"
  by (simp add: orient_def good_window_def pending_reverse)

lemma window_ok_orient: "good_window cw topics w \<Longrightarrow> window_ok reverse cw topics (orient reverse w)"
  using pending_reverse [of w cw topics] w_recv_orient [of reverse w]
  by (cases reverse) (simp_all add: window_ok_def good_window_def orient_def in_order_rev)

lemma window_rows_orient:
  "\<forall>w \<in> set ws. good_window cw topics w \<Longrightarrow>
     window_rows cw topics (map (orient reverse) ws) = window_rows cw topics ws"
  by (induction ws) (simp_all add: mset_pending_orient)

definition loaded :: "window option result \<Rightarrow> window option" where
  "loaded r = (case r of Inl _ \<Rightarrow> None | Inr w \<Rightarrow> w)"

lemma loaded_simps [simp]: "loaded (Inl e) = None" "loaded (Inr w) = w"
  by (simp_all add: loaded_def)

lemma loaded_Some: "loaded r = Some w \<longleftrightarrow> r = Inr (Some w)"
  by (cases r) auto

section \<open>The indexed path\<close>

text \<open>What a chunk of the index loads to, whether or not its topic is wanted.\<close>

definition index_window :: "'e reader_env \<Rightarrow> 'e reader \<Rightarrow> 'e chunk_ref \<Rightarrow> window option result" where
  "index_window env rd c =
     (case map_of (rd_topic_index rd) (cr_entity c) of
        None \<Rightarrow> Inr None
      | Some topic \<Rightarrow>
          (case index_load (env_file env) [cr_id c] of
             Inl e \<Rightarrow> Inl e
           | Inr [] \<Rightarrow> Inr None
           | Inr (chunk # _) \<Rightarrow> load_window chunk topic (rd_topics rd ! topic)))"

definition faithful_chunk :: "'e reader_env \<Rightarrow> 'e reader \<Rightarrow> 'e chunk_ref \<Rightarrow> bool" where
  "faithful_chunk env rd c \<longleftrightarrow>
     (case index_window env rd c of
        Inl e \<Rightarrow> False
      | Inr None \<Rightarrow> True
      | Inr (Some w) \<Rightarrow>
          good_window (env_cdr env) (rd_topics rd) w
          \<and> (\<forall>t \<in> set (w_recv w). cr_start c \<le> t \<and> t \<le> cr_end c))"

definition chunk_refs :: "'e reader \<Rightarrow> 'e chunk_ref list" where
  "chunk_refs rd = (case rd_index rd of None \<Rightarrow> [] | Some ix \<Rightarrow> ix_chunks ix)"

definition indexed_playable :: "'e reader_env \<Rightarrow> 'e reader \<Rightarrow> bool" where
  "indexed_playable env rd \<longleftrightarrow>
     (case rd_index rd of None \<Rightarrow> False | Some ix \<Rightarrow> index_wf ix)
     \<and> list_all (faithful_chunk env rd) (chunk_refs rd)"

definition ordered_chunks :: "'e reader \<Rightarrow> 'e chunk_ref list" where
  "ordered_chunks rd = (if rd_reverse rd then rev (chunk_refs rd) else chunk_refs rd)"

definition windows_of :: "'e reader_env \<Rightarrow> 'e reader \<Rightarrow> 'e chunk_ref list \<Rightarrow> window list" where
  "windows_of env rd cs =
     map (orient (rd_reverse rd)) (filter_map (\<lambda>c. loaded (index_step env rd c)) cs)"

definition indexed_remaining :: "'e reader_env \<Rightarrow> 'e reader \<Rightarrow> window list" where
  "indexed_remaining env rd = windows_of env rd (drop (rd_at rd) (ordered_chunks rd))"

definition indexed_windows :: "'e reader_env \<Rightarrow> 'e reader \<Rightarrow> window list" where
  "indexed_windows env rd = windows_of env rd (ordered_chunks rd)"

text \<open>The rows of a recording, in the order of its chunks.\<close>

definition indexed_bag :: "'e reader_env \<Rightarrow> 'e reader \<Rightarrow> row list" where
  "indexed_bag env rd =
     concat (map (pending (env_cdr env) (rd_topics rd))
       (filter_map (\<lambda>c. loaded (index_window env rd c)) (chunk_refs rd)))"

lemma index_step_window:
  "index_step env rd c =
     (case map_of (rd_topic_index rd) (cr_entity c) of
        Some topic \<Rightarrow> if wanted rd topic then index_window env rd c else Inr None
      | None \<Rightarrow> Inr None)"
  by (simp add: index_step_def index_window_def split: option.split)

lemma index_step_good:
  assumes "indexed_playable env rd" "c \<in> set (chunk_refs rd)"
  shows "index_step env rd c = Inr None
    \<or> (\<exists>w. index_step env rd c = Inr (Some w) \<and> index_window env rd c = Inr (Some w)
         \<and> good_window (env_cdr env) (rd_topics rd) w
         \<and> (\<forall>t \<in> set (w_recv w). cr_start c \<le> t \<and> t \<le> cr_end c))"
proof -
  have "faithful_chunk env rd c"
    using assms by (simp add: indexed_playable_def list_all_iff)
  then show ?thesis
    by (cases "index_window env rd c"; cases "projr (index_window env rd c)")
      (auto simp: faithful_chunk_def index_step_window split: option.splits)
qed

lemma set_ordered_chunks [simp]: "set (ordered_chunks rd) = set (chunk_refs rd)"
  by (simp add: ordered_chunks_def)

lemma windows_of_simps [simp]:
  "windows_of env rd [] = []"
  "windows_of env rd (cs @ ds) = windows_of env rd cs @ windows_of env rd ds"
  by (simp_all add: windows_of_def)

lemma windows_of_Cons:
  "windows_of env rd (c # cs) =
     (case loaded (index_step env rd c) of
        None \<Rightarrow> windows_of env rd cs
      | Some w \<Rightarrow> orient (rd_reverse rd) w # windows_of env rd cs)"
  by (simp add: windows_of_def split: option.split)

lemma windows_of_mem:
  assumes "indexed_playable env rd" "set cs \<subseteq> set (chunk_refs rd)" "w \<in> set (windows_of env rd cs)"
  obtains c v where "c \<in> set cs" "w = orient (rd_reverse rd) v"
    "good_window (env_cdr env) (rd_topics rd) v" "index_window env rd c = Inr (Some v)"
    "\<forall>t \<in> set (w_recv w). cr_start c \<le> t \<and> t \<le> cr_end c"
proof -
  from assms(3) obtain c v where c: "c \<in> set cs" "index_step env rd c = Inr (Some v)"
    "w = orient (rd_reverse rd) v"
    by (auto simp: windows_of_def loaded_Some)
  then show ?thesis
    using index_step_good [OF assms(1), of c] assms(2) that by auto
qed

lemma index_step_cong:
  assumes "rd_topics rd' = rd_topics rd" "rd_topic_index rd' = rd_topic_index rd"
    "rd_filter rd' = rd_filter rd"
  shows "index_step env rd' c = index_step env rd c"
  unfolding index_step_def wanted_def assms ..

lemma same_recording_index_window:
  assumes "same_recording rd rd'"
  shows "index_window env rd' c = index_window env rd c"
proof -
  have eqs: "rd_topics rd' = rd_topics rd" "rd_topic_index rd' = rd_topic_index rd"
    using assms by (simp_all add: same_recording_def)
  show ?thesis unfolding index_window_def eqs ..
qed

lemma indexed_recording_frame:
  assumes "same_recording rd rd'"
  shows "indexed_playable env rd' = indexed_playable env rd" "indexed_bag env rd' = indexed_bag env rd"
proof -
  have refs: "chunk_refs rd' = chunk_refs rd"
    using assms by (simp add: chunk_refs_def same_recording_def)
  note window = same_recording_index_window [OF assms]
  have topics: "rd_topics rd' = rd_topics rd"
    using assms by (simp add: same_recording_def)
  have "faithful_chunk env rd' c = faithful_chunk env rd c" for c
    unfolding faithful_chunk_def window topics ..
  then have "faithful_chunk env rd' = faithful_chunk env rd" ..
  then show "indexed_playable env rd' = indexed_playable env rd"
    using assms refs by (simp add: indexed_playable_def same_recording_def)
  show "indexed_bag env rd' = indexed_bag env rd"
    using assms by (simp add: indexed_bag_def window refs same_recording_def)
qed

lemma same_source_recording: "same_source rd rd' \<Longrightarrow> same_recording rd rd'"
  by (simp add: same_source_def same_recording_def)

lemma same_source_windows_of:
  "same_source rd rd' \<Longrightarrow> windows_of env rd' cs = windows_of env rd cs"
  using index_step_cong [of rd' rd] by (simp add: windows_of_def same_source_def)

lemma same_source_ordered: "same_source rd rd' \<Longrightarrow> ordered_chunks rd' = ordered_chunks rd"
  by (simp add: ordered_chunks_def chunk_refs_def same_source_def)

lemma pull_indexed_at:
  assumes "rd_index rd = Some ix" "rd_at rd < length (ix_chunks ix)"
  shows "ix_chunks ix ! index_position rd ix = ordered_chunks rd ! rd_at rd"
    "drop (rd_at rd) (ordered_chunks rd)
      = (ordered_chunks rd ! rd_at rd) # drop (Suc (rd_at rd)) (ordered_chunks rd)"
    "ordered_chunks rd ! rd_at rd \<in> set (chunk_refs rd)"
proof -
  have len: "length (ordered_chunks rd) = length (ix_chunks ix)"
    using assms(1) by (simp add: ordered_chunks_def chunk_refs_def)
  show "ix_chunks ix ! index_position rd ix = ordered_chunks rd ! rd_at rd"
    using assms by (simp add: index_position_def ordered_chunks_def chunk_refs_def rev_nth)
  show "drop (rd_at rd) (ordered_chunks rd)
      = (ordered_chunks rd ! rd_at rd) # drop (Suc (rd_at rd)) (ordered_chunks rd)"
    using assms(2) len by (simp add: Cons_nth_drop_Suc)
  show "ordered_chunks rd ! rd_at rd \<in> set (chunk_refs rd)"
    using assms(2) len nth_mem [of "rd_at rd" "ordered_chunks rd"] by simp
qed

lemma move_at:
  "index_step env (rd\<lparr>rd_at := n\<rparr>) c = index_step env rd c"
  "windows_of env (rd\<lparr>rd_at := n\<rparr>) cs = windows_of env rd cs"
  "ordered_chunks (rd\<lparr>rd_at := n\<rparr>) = ordered_chunks rd"
  "indexed_playable env (rd\<lparr>rd_at := n\<rparr>) = indexed_playable env rd"
proof -
  show step: "index_step env (rd\<lparr>rd_at := n\<rparr>) c = index_step env rd c" for c
    by (rule index_step_cong) simp_all
  show "windows_of env (rd\<lparr>rd_at := n\<rparr>) cs = windows_of env rd cs"
    by (simp add: windows_of_def step)
  show "ordered_chunks (rd\<lparr>rd_at := n\<rparr>) = ordered_chunks rd"
    by (simp add: ordered_chunks_def chunk_refs_def)
  show "indexed_playable env (rd\<lparr>rd_at := n\<rparr>) = indexed_playable env rd"
    by (rule indexed_recording_frame) (simp add: same_recording_def)
qed

lemma indexed_pull:
  "indexed_playable env rd \<Longrightarrow>
   \<exists>rd'. indexed_playable env rd'
     \<and> (case indexed_remaining env rd of
          [] \<Rightarrow> pull_indexed env rd = (Inr None, rd') \<and> indexed_remaining env rd' = []
        | w # ws \<Rightarrow> pull_indexed env rd = (Inr (Some w), rd') \<and> indexed_remaining env rd' = ws)"
proof (induction env rd rule: pull_indexed.induct)
  case (1 env rd)
  obtain ix where ix: "rd_index rd = Some ix"
    using "1.prems" by (auto simp: indexed_playable_def split: option.splits)
  show ?case
  proof (cases "rd_at rd < length (ix_chunks ix)")
    case False
    then have "indexed_remaining env rd = []"
      by (simp add: indexed_remaining_def ordered_chunks_def chunk_refs_def ix)
    then show ?thesis
      using "1.prems" False by (auto simp: pull_indexed.simps [of env rd] ix)
  next
    case True
    note at = pull_indexed_at [OF ix True]
    let ?rd = "rd\<lparr>rd_at := Suc (rd_at rd)\<rparr>"
    let ?c = "ordered_chunks rd ! rd_at rd"
    have split: "indexed_remaining env rd =
        (case loaded (index_step env rd ?c) of
           None \<Rightarrow> indexed_remaining env ?rd
         | Some w \<Rightarrow> orient (rd_reverse rd) w # indexed_remaining env ?rd)"
      by (simp add: indexed_remaining_def at(2) windows_of_Cons move_at split: option.split)
    have playable: "indexed_playable env ?rd" using "1.prems" by (simp add: move_at)
    from index_step_good [OF "1.prems" at(3)] show ?thesis
    proof
      assume none: "index_step env rd ?c = Inr None"
      have eq: "pull_indexed env rd = pull_indexed env ?rd"
        using ix True none at(1) by (simp add: pull_indexed.simps [of env rd])
      have rem: "indexed_remaining env rd = indexed_remaining env ?rd"
        using split none by simp
      have "\<not> rd_at rd \<ge> length (ix_chunks ix)" using True by simp
      from "1.IH" [OF ix this refl refl none [folded at(1)] refl playable]
      show ?thesis unfolding eq rem .
    next
      assume "\<exists>w. index_step env rd ?c = Inr (Some w) \<and> index_window env rd ?c = Inr (Some w)
         \<and> good_window (env_cdr env) (rd_topics rd) w
         \<and> (\<forall>t \<in> set (w_recv w). cr_start ?c \<le> t \<and> t \<le> cr_end ?c)"
      then obtain w where w: "index_step env rd ?c = Inr (Some w)" by blast
      have "pull_indexed env rd = (Inr (Some (orient (rd_reverse rd) w)), ?rd)"
        using ix True w at(1) by (simp add: pull_indexed.simps [of env rd])
      then show ?thesis using split w playable by auto
    qed
  qed
qed

lemma indexed_pull_eq: "indexed_playable env rd \<Longrightarrow> pull env rd = pull_indexed env rd"
  by (auto simp: pull_def indexed_playable_def split: option.splits)

text \<open>\<open>earliest_unread\<close> bounds every row the index has still to give.\<close>

lemma indexed_bound:
  assumes playable: "indexed_playable env rd" and w: "w \<in> set (indexed_remaining env rd)"
    and t: "t \<in> set (w_recv w)"
  shows "rank_time (rd_reverse rd) (earliest_unread rd) \<le> rank_time (rd_reverse rd) t"
proof -
  obtain ix where ix: "rd_index rd = Some ix" "index_wf ix"
    using playable by (auto simp: indexed_playable_def split: option.splits)
  have refs: "chunk_refs rd = ix_chunks ix" by (simp add: chunk_refs_def ix)
  have sub: "set (drop (rd_at rd) (ordered_chunks rd)) \<subseteq> set (chunk_refs rd)"
    using set_drop_subset [of "rd_at rd" "ordered_chunks rd"] by simp
  obtain c where c: "c \<in> set (drop (rd_at rd) (ordered_chunks rd))" "cr_start c \<le> t" "t \<le> cr_end c"
    using windows_of_mem [OF playable sub w [unfolded indexed_remaining_def]] t by metis
  then have at: "rd_at rd < length (ix_chunks ix)"
    by (auto simp: ordered_chunks_def refs dest: length_pos_if_in_set split: if_splits)
  show ?thesis
  proof (cases "rd_reverse rd")
    case True
    let ?i = "length (ix_chunks ix) - 1 - rd_at rd"
    have "c \<in> set (take (Suc ?i) (ix_chunks ix))"
      using c(1) True at by (simp add: ordered_chunks_def refs drop_rev Suc_diff_Suc)
    then have "cr_end c \<le> ix_max_end_through ix ! ?i"
      using max_end_bounds [OF ix(2)] at by simp
    then show ?thesis
      using True at ix(1) c(3) by (simp add: earliest_unread_def rank_time_def)
  next
    case False
    then have "c \<in> set (drop (rd_at rd) (ix_chunks ix))"
      using c(1) by (simp add: ordered_chunks_def refs)
    then obtain i where "rd_at rd + i < length (ix_chunks ix)" "c = ix_chunks ix ! (rd_at rd + i)"
      by (auto simp: in_set_conv_nth less_diff_conv add.commute)
    then obtain j where j: "rd_at rd \<le> j" "j < length (ix_chunks ix)" "c = ix_chunks ix ! j"
      using le_add1 by blast
    have "cr_start (ix_chunks ix ! rd_at rd) \<le> cr_start c"
      using sorted_nth_mono [of "map cr_start (ix_chunks ix)" "rd_at rd" j] ix(2) j
      by (simp add: index_wf_def)
    then show ?thesis
      using False at ix(1) c(2) by (simp add: earliest_unread_def rank_time_def)
  qed
qed

lemma window_rows_mset_eq:
  "mset ws = mset vs \<Longrightarrow> window_rows cw topics ws = window_rows cw topics vs"
  by (simp add: window_rows_mset)

lemma window_rows_concat: "window_rows cw topics ws = mset (concat (map (pending cw topics) ws))"
  by (induction ws) simp_all

lemma mset_filter_map_rev: "mset (filter_map f (rev xs)) = mset (filter_map f xs)"
  by (simp add: filter_map_rev)

text \<open>The chunks of unwanted topics, which the index skips, hold no wanted rows.\<close>

lemma index_window_topic:
  "index_window env rd c = Inr (Some w) \<Longrightarrow> map_of (rd_topic_index rd) (cr_entity c) = Some (w_topic w)"
  by (auto simp: index_window_def dest: load_window_fresh split: option.splits sum.splits list.splits)

lemma pending_topic: "r \<in> set (pending cw topics w) \<Longrightarrow> row_topic r = w_topic w"
  by (auto simp: pending_def row_at_def)

lemma wanted_step_rows:
  assumes "\<forall>c \<in> set cs. faithful_chunk env rd c"
  shows "wanted_rows (wanted rd) (window_rows cw topics (filter_map (\<lambda>c. loaded (index_step env rd c)) cs))
    = wanted_rows (wanted rd) (window_rows cw topics (filter_map (\<lambda>c. loaded (index_window env rd c)) cs))"
  using assms
proof (induction cs)
  case (Cons c cs)
  show ?case
  proof (cases "\<exists>w. index_window env rd c = Inr (Some w) \<and> \<not> wanted rd (w_topic w)")
    case True
    then obtain w where w: "index_window env rd c = Inr (Some w)" "\<not> wanted rd (w_topic w)" by blast
    have "wanted_rows (wanted rd) (mset (pending cw topics w)) = {#}"
      using w(2) by (intro filter_mset_False_all) (auto dest!: pending_topic)
    then show ?thesis
      using Cons w index_window_topic [OF w(1)] by (simp add: index_step_window)
  next
    case False
    have "faithful_chunk env rd c" using Cons.prems by simp
    then have "index_step env rd c = index_window env rd c"
      using False index_window_topic [of env rd c]
      by (cases "index_window env rd c"; cases "projr (index_window env rd c)")
        (auto simp: index_step_window faithful_chunk_def split: option.split)
    then show ?thesis using Cons by (simp split: option.split)
  qed
qed simp

lemma position_take:
  "unwrap_or (position P xs) (length xs) \<le> length xs
   \<and> (\<forall>x \<in> set (take (unwrap_or (position P xs) (length xs)) xs). \<not> P x)"
proof (cases "position P xs")
  case None
  then show ?thesis using position_None [of P xs] by simp
next
  case (Some i)
  then show ?thesis using position_Some [OF Some] by (auto simp: in_set_conv_nth)
qed

lemma skip_at:
  assumes "rd_index rd = Some ix"
  shows "\<exists>n. skip_index_to t rd = rd\<lparr>rd_at := n\<rparr>
    \<and> (\<forall>c \<in> set (take n (ordered_chunks rd)). if rd_reverse rd then t < cr_start c else cr_end c < t)"
proof (cases "rd_reverse rd")
  case True
  let ?n = "unwrap_or (position (\<lambda>c. cr_start c \<le> t) (rev (ix_chunks ix))) (length (rev (ix_chunks ix)))"
  have "skip_index_to t rd = rd\<lparr>rd_at := ?n\<rparr>"
    using assms True by (simp add: skip_index_to_def)
  moreover have "\<forall>c \<in> set (take ?n (ordered_chunks rd)). t < cr_start c"
    using position_take [of "\<lambda>c. cr_start c \<le> t" "rev (ix_chunks ix)"] True assms
    by (simp only: ordered_chunks_def chunk_refs_def not_le option.case if_True) blast
  ultimately show ?thesis using True by auto
next
  case False
  let ?n = "unwrap_or (position (\<lambda>c. cr_end c \<ge> t) (ix_chunks ix)) (length (ix_chunks ix))"
  have "skip_index_to t rd = rd\<lparr>rd_at := ?n\<rparr>"
    using assms False by (simp add: skip_index_to_def)
  moreover have "\<forall>c \<in> set (take ?n (ordered_chunks rd)). cr_end c < t"
    using position_take [of "\<lambda>c. cr_end c \<ge> t" "ix_chunks ix"] False assms
    by (simp only: ordered_chunks_def chunk_refs_def not_le option.case if_False) blast
  ultimately show ?thesis using False by auto
qed

lemma indexed_skip:
  assumes playable: "indexed_playable env rd" and restart: "restart env rd = (Inr (), rd')"
  shows "indexed_playable env (skip_index_to t rd')
    \<and> (\<exists>dropped. indexed_windows env rd = dropped @ indexed_remaining env (skip_index_to t rd')
         \<and> (\<forall>w \<in> set dropped. \<forall>s \<in> set (w_recv w).
              rank_time (rd_reverse rd) s < rank_time (rd_reverse rd) t))"
proof -
  note pass = restart_frame [OF restart]
  obtain ix where ix: "rd_index rd' = Some ix"
    using playable pass by (auto simp: indexed_playable_def same_pass_def split: option.splits)
  have playable': "indexed_playable env rd'"
    using indexed_recording_frame(1) [OF same_pass_recording] playable pass by blast
  have order: "ordered_chunks rd' = ordered_chunks rd"
    using pass by (simp add: ordered_chunks_def chunk_refs_def same_pass_def)
  have step: "index_step env rd' = index_step env rd"
    using index_step_cong [of rd' rd env] pass by (simp add: fun_eq_iff same_pass_def)
  have reverse: "rd_reverse rd' = rd_reverse rd" using pass by (simp add: same_pass_def)
  have windows: "indexed_windows env rd = indexed_windows env rd'"
    unfolding indexed_windows_def windows_of_def order step reverse ..
  from ix obtain n where n: "skip_index_to t rd' = rd'\<lparr>rd_at := n\<rparr>"
    "\<forall>c \<in> set (take n (ordered_chunks rd')). if rd_reverse rd' then t < cr_start c else cr_end c < t"
    using skip_at [OF ix, of t] by blast
  let ?dropped = "windows_of env rd' (take n (ordered_chunks rd'))"
  have "indexed_windows env rd = ?dropped @ indexed_remaining env (rd'\<lparr>rd_at := n\<rparr>)"
    unfolding windows
    by (simp add: indexed_windows_def indexed_remaining_def move_at flip: windows_of_simps(2))
  moreover have "rank_time (rd_reverse rd) s < rank_time (rd_reverse rd) t"
    if w: "w \<in> set ?dropped" and s: "s \<in> set (w_recv w)" for w s
  proof -
    have sub: "set (take n (ordered_chunks rd')) \<subseteq> set (chunk_refs rd')"
      using set_take_subset [of n "ordered_chunks rd'"] by simp
    obtain c where "c \<in> set (take n (ordered_chunks rd'))" "cr_start c \<le> s" "s \<le> cr_end c"
      using windows_of_mem [OF playable' sub w] s by metis
    then show ?thesis
      using n(2) pass by (auto simp: rank_time_def same_pass_def split: if_splits)
  qed
  ultimately show ?thesis using playable' n(1) by (auto simp: move_at)
qed

interpretation indexed: playback_source indexed_playable indexed_remaining indexed_playable
  indexed_windows "\<lambda>env rd. mset (indexed_bag env rd)"
proof
  fix env :: "'e reader_env" and rd rd' :: "'e reader" and w ws t
  show "indexed_playable env rd' = indexed_playable env rd
      \<and> indexed_remaining env rd' = indexed_remaining env rd" if "same_source rd rd'"
    using indexed_recording_frame(1) [OF same_source_recording [OF that]] that
      same_source_windows_of [OF that] same_source_ordered [OF that]
    by (simp add: indexed_remaining_def same_source_def)
  show "\<exists>rd'. pull env rd = (Inr (Some w), rd') \<and> indexed_playable env rd'
      \<and> indexed_remaining env rd' = ws"
    if "indexed_playable env rd" "indexed_remaining env rd = w # ws"
    using indexed_pull [OF that(1)] that indexed_pull_eq [OF that(1)] by auto
  show "\<exists>rd'. pull env rd = (Inr None, rd') \<and> indexed_playable env rd'
      \<and> indexed_remaining env rd' = []"
    if "indexed_playable env rd" "indexed_remaining env rd = []"
    using indexed_pull [OF that(1)] that indexed_pull_eq [OF that(1)] by auto
  show "rank_time (rd_reverse rd) (earliest_unread rd) \<le> rank_time (rd_reverse rd) t"
    if "indexed_playable env rd" "w \<in> set (indexed_remaining env rd)" "t \<in> set (w_recv w)"
    using that by (rule indexed_bound)
  show "indexed_playable env rd' = indexed_playable env rd
      \<and> mset (indexed_bag env rd') = mset (indexed_bag env rd)" if "same_recording rd rd'"
    using indexed_recording_frame [OF that] by simp
  show "window_ok (rd_reverse rd) (env_cdr env) (rd_topics rd) w"
    if "indexed_playable env rd" "w \<in> set (indexed_windows env rd)"
    using that windows_of_mem [OF that(1), of "ordered_chunks rd" w] window_ok_orient
    by (metis indexed_windows_def order_refl set_ordered_chunks)
  show "wanted_rows (wanted rd) (window_rows (env_cdr env) (rd_topics rd) (indexed_windows env rd))
      = wanted_rows (wanted rd) (mset (indexed_bag env rd))" if "indexed_playable env rd"
  proof -
    let ?ws = "filter_map (\<lambda>c. loaded (index_step env rd c)) (ordered_chunks rd)"
    have "\<forall>w \<in> set ?ws. good_window (env_cdr env) (rd_topics rd) w"
      using index_step_good [OF that] by (fastforce simp: loaded_Some)
    then have "window_rows (env_cdr env) (rd_topics rd) (indexed_windows env rd)
        = window_rows (env_cdr env) (rd_topics rd) ?ws"
      by (simp add: indexed_windows_def windows_of_def window_rows_orient)
    also have "\<dots> = window_rows (env_cdr env) (rd_topics rd)
        (filter_map (\<lambda>c. loaded (index_step env rd c)) (chunk_refs rd))"
      by (rule window_rows_mset_eq) (simp add: ordered_chunks_def mset_filter_map_rev)
    finally show ?thesis
      using wanted_step_rows [of "chunk_refs rd" env rd] that
      by (simp add: indexed_playable_def list_all_iff indexed_bag_def flip: window_rows_concat)
  qed
  show "\<exists>rd'. restart env rd = (Inr (), rd') \<and> indexed_playable env rd'
      \<and> indexed_remaining env rd' = indexed_windows env rd" if "indexed_playable env rd"
  proof -
    let ?rd = "rd\<lparr>rd_window := [], rd_next_chunk := 0, rd_position := i64_MIN, rd_cursor := None, rd_at := 0\<rparr>"
    have "rd_index rd \<noteq> None"
      using that by (auto simp: indexed_playable_def split: option.splits)
    then have "restart env rd = (Inr (), ?rd)" by (auto simp: restart_def)
    moreover have "indexed_remaining env ?rd = indexed_windows env rd"
      using index_step_cong [of ?rd rd env]
      by (simp add: indexed_remaining_def indexed_windows_def windows_of_def ordered_chunks_def
          chunk_refs_def)
    moreover have "indexed_playable env ?rd"
      using indexed_recording_frame(1) [of rd ?rd env] that by (simp add: same_recording_def)
    ultimately show ?thesis by blast
  qed
  show "indexed_playable env (skip_index_to t rd')
    \<and> (\<exists>dropped. indexed_windows env rd = dropped @ indexed_remaining env (skip_index_to t rd')
         \<and> (\<forall>w \<in> set dropped. \<forall>s \<in> set (w_recv w).
              rank_time (rd_reverse rd) s < rank_time (rd_reverse rd) t))"
    if "indexed_playable env rd" "restart env rd = (Inr (), rd')"
    using that by (rule indexed_skip)
qed

section \<open>The scan path\<close>

definition scanned_window :: "'e reader \<Rightarrow> 'e log_msg \<Rightarrow> window option" where
  "scanned_window rd msg = (case scan_step rd msg of None \<Rightarrow> None | Some r \<Rightarrow> loaded r)"

definition readable_msg :: "'e reader_env \<Rightarrow> 'e reader \<Rightarrow> 'e log_msg \<Rightarrow> bool" where
  "readable_msg env rd msg \<longleftrightarrow>
     (case scan_step rd msg of
        Some (Inl e) \<Rightarrow> False
      | Some (Inr (Some w)) \<Rightarrow> good_window (env_cdr env) (rd_topics rd) w
      | _ \<Rightarrow> True)"

text \<open>The summary the scan of \<open>Reader::open\<close> keeps of a message, if it is of a chunk of rows.\<close>

definition summary_of :: "'e log_msg \<Rightarrow> 'e scanned_chunk option" where
  "summary_of msg =
     (case chunk_of msg of
        None \<Rightarrow> None
      | Some chunk \<Rightarrow> if ch_static chunk then None else Some (scan_chunk chunk))"

definition scan_readable :: "'e reader_env \<Rightarrow> 'e reader \<Rightarrow> 'e log_msg list \<Rightarrow> bool" where
  "scan_readable env rd msgs \<longleftrightarrow>
     rd_index rd = None \<and> scan (env_file env) = Inr msgs
     \<and> rd_earliest_remaining rd = suffix_minima (filter_map summary_of msgs)
     \<and> list_all (readable_msg env rd) msgs"

definition scan_playable :: "'e reader_env \<Rightarrow> 'e reader \<Rightarrow> bool" where
  "scan_playable env rd \<longleftrightarrow>
     (case scan (env_file env) of Inl e \<Rightarrow> False | Inr msgs \<Rightarrow> scan_readable env rd msgs)"

text \<open>
  \<open>next_chunk\<close> counts chunks of known topics only, so it can fall behind the position in
  \<open>earliest_remaining\<close>, never get ahead of it.
\<close>

definition scan_usable :: "'e reader_env \<Rightarrow> 'e reader \<Rightarrow> bool" where
  "scan_usable env rd \<longleftrightarrow>
     (\<exists>msgs. scan_readable env rd msgs
       \<and> (\<forall>source. rd_source rd = Some source \<longrightarrow>
            (\<exists>read. msgs = read @ source
               \<and> rd_next_chunk rd \<le> length (filter_map summary_of read))))"

definition scan_windows_of :: "'e reader \<Rightarrow> 'e log_msg list \<Rightarrow> window list" where
  "scan_windows_of rd msgs = map (orient (rd_reverse rd)) (filter_map (scanned_window rd) msgs)"

definition scan_remaining :: "'e reader_env \<Rightarrow> 'e reader \<Rightarrow> window list" where
  "scan_remaining env rd =
     (case rd_source rd of None \<Rightarrow> [] | Some source \<Rightarrow> scan_windows_of rd source)"

definition file_msgs :: "'e reader_env \<Rightarrow> 'e log_msg list" where
  "file_msgs env = (case scan (env_file env) of Inl e \<Rightarrow> [] | Inr msgs \<Rightarrow> msgs)"

definition scan_windows :: "'e reader_env \<Rightarrow> 'e reader \<Rightarrow> window list" where
  "scan_windows env rd = scan_windows_of rd (file_msgs env)"

definition scan_bag :: "'e reader_env \<Rightarrow> 'e reader \<Rightarrow> row list" where
  "scan_bag env rd =
     concat (map (pending (env_cdr env) (rd_topics rd)) (filter_map (scanned_window rd) (file_msgs env)))"

lemma scan_step_cong:
  assumes "rd_topics rd' = rd_topics rd" "rd_topic_index rd' = rd_topic_index rd"
  shows "scan_step rd' = scan_step rd"
  unfolding scan_step_def assms ..

lemma scan_frame:
  assumes "same_recording rd rd'"
  shows "scanned_window rd' = scanned_window rd" "readable_msg env rd' = readable_msg env rd"
    "scan_readable env rd' = scan_readable env rd" "scan_playable env rd' = scan_playable env rd"
    "scan_bag env rd' = scan_bag env rd"
proof -
  have eqs: "rd_topics rd' = rd_topics rd" "rd_topic_index rd' = rd_topic_index rd"
    "rd_index rd' = rd_index rd" "rd_earliest_remaining rd' = rd_earliest_remaining rd"
    using assms by (simp_all add: same_recording_def)
  note step = scan_step_cong [OF eqs(1,2)]
  show w: "scanned_window rd' = scanned_window rd" unfolding scanned_window_def step ..
  show r: "readable_msg env rd' = readable_msg env rd" unfolding readable_msg_def step eqs ..
  show s: "scan_readable env rd' = scan_readable env rd" unfolding scan_readable_def eqs r ..
  show "scan_playable env rd' = scan_playable env rd" unfolding scan_playable_def s ..
  show "scan_bag env rd' = scan_bag env rd" unfolding scan_bag_def w eqs ..
qed

lemma scan_step_counted: "scan_step rd msg = Some r \<Longrightarrow> summary_of msg \<noteq> None"
  by (auto simp: scan_step_def summary_of_def split: option.splits if_splits)

text \<open>One pull of the scan path consumes messages up to the window it returns.\<close>

definition pulled_from ::
  "'e reader \<Rightarrow> 'e log_msg list \<Rightarrow> window option result \<times> 'e reader \<Rightarrow> bool" where
  "pulled_from rd source p \<longleftrightarrow>
     same_pass rd (snd p)
     \<and> (case filter_map (scanned_window rd) source of
          [] \<Rightarrow> fst p = Inr None \<and> rd_source (snd p) = None
        | w # ws \<Rightarrow>
            fst p = Inr (Some (orient (rd_reverse rd) w))
            \<and> (\<exists>read left. source = read @ left \<and> rd_source (snd p) = Some left
                 \<and> filter_map (scanned_window rd) left = ws
                 \<and> rd_next_chunk (snd p) \<le> rd_next_chunk rd + length (filter_map summary_of read)))"

lemma pulled_skip:
  assumes "pulled_from (rd\<lparr>rd_next_chunk := n\<rparr>) source p" "scanned_window rd msg = None"
    "n \<le> rd_next_chunk rd + length (filter_map summary_of [msg])"
  shows "pulled_from rd (msg # source) p"
proof -
  have frame: "scanned_window (rd\<lparr>rd_next_chunk := n\<rparr>) = scanned_window rd"
    by (rule scan_frame) (simp add: same_recording_def)
  note pulled = assms(1) [unfolded pulled_from_def frame]
  have pass: "same_pass rd (snd p)" using pulled by (simp add: same_pass_def)
  have skip: "filter_map (scanned_window rd) (msg # source) = filter_map (scanned_window rd) source"
    using assms(2) by simp
  show ?thesis
  proof (cases "filter_map (scanned_window rd) source")
    case Nil
    then show ?thesis
      using pulled pass unfolding pulled_from_def skip by (simp del: filter_map_Nil)
  next
    case (Cons w ws)
    then obtain read left where "source = read @ left" "rd_source (snd p) = Some left"
      "filter_map (scanned_window rd) left = ws"
      "rd_next_chunk (snd p) \<le> n + length (filter_map summary_of read)"
      using pulled by auto
    then have "msg # source = (msg # read) @ left"
      "rd_next_chunk (snd p) \<le> rd_next_chunk rd + length (filter_map summary_of (msg # read))"
      using assms(3) by (auto split: option.splits)
    then show ?thesis
      using Cons pulled pass \<open>rd_source (snd p) = Some left\<close>
        \<open>filter_map (scanned_window rd) left = ws\<close>
      unfolding pulled_from_def skip by auto
  qed
qed

lemma pull_scan_windows:
  "list_all (readable_msg env rd) source \<Longrightarrow> rd_source rd = None \<Longrightarrow>
   pulled_from rd source (pull_scan rd source)"
proof (induction source arbitrary: rd)
  case Nil
  then show ?case by (simp add: pulled_from_def same_pass_def)
next
  case (Cons msg source)
  let ?rd = "rd\<lparr>rd_next_chunk := Suc (rd_next_chunk rd)\<rparr>"
  have frame: "readable_msg env ?rd = readable_msg env rd"
    by (rule scan_frame) (simp add: same_recording_def)
  consider (skip) "scan_step rd msg = None" | (empty) "scan_step rd msg = Some (Inr None)"
    | (window) w where "scan_step rd msg = Some (Inr (Some w))"
    | (error) e where "scan_step rd msg = Some (Inl e)"
    by (metis obj_sumE option.exhaust)
  then show ?case
  proof cases
    case skip
    then show ?thesis
      using pulled_skip [where rd = rd and n = "rd_next_chunk rd" and source = source] Cons.IH [of rd] Cons.prems
      by (simp add: scanned_window_def)
  next
    case empty
    have "pulled_from rd (msg # source) (pull_scan ?rd source)"
    proof (rule pulled_skip [where n = "Suc (rd_next_chunk rd)"])
      show "pulled_from ?rd source (pull_scan ?rd source)"
        using Cons.IH [of ?rd] Cons.prems frame by simp
      show "scanned_window rd msg = None" using empty by (simp add: scanned_window_def)
      show "Suc (rd_next_chunk rd) \<le> rd_next_chunk rd + length (filter_map summary_of [msg])"
        using scan_step_counted [OF empty] by auto
    qed
    then show ?thesis using empty by (simp add: Let_def)
  next
    case window
    then have "\<exists>read left. msg # source = read @ left \<and> source = left
        \<and> Suc (rd_next_chunk rd) \<le> rd_next_chunk rd + length (filter_map summary_of read)"
      using scan_step_counted [OF window] by (intro exI [of _ "[msg]"] exI [of _ source]) auto
    then show ?thesis
      using window by (simp add: pulled_from_def scanned_window_def same_pass_def Let_def)
  next
    case error
    then show ?thesis using Cons.prems by (simp add: readable_msg_def)
  qed
qed

text \<open>\<open>earliest_remaining\<close> bounds every row from its chunk on.\<close>

lemma widen_le: "fst (fold widen ts (e, r)) \<le> e \<and> (\<forall>t \<in> set ts. fst (fold widen ts (e, r)) \<le> t)"
proof (induction ts arbitrary: e r)
  case (Cons t ts)
  obtain r' where "widen t (e, r) = (min e t, r')" by (cases "(t, e, r)" rule: widen.cases) auto
  then show ?case using Cons [of "min e t" r'] by auto
qed simp

lemma scan_chunk_earliest:
  "t \<in> set (unwrap_or (times chunk RECV_TIMESTAMP) []) \<Longrightarrow> sc_earliest (scan_chunk chunk) \<le> t"
  using widen_le by (simp add: scan_chunk_def Let_def)

lemma suffix_minima_ne [simp]: "suffix_minima xs \<noteq> []"
  by (cases xs) (simp_all add: Let_def)

lemma length_suffix_minima [simp]: "length (suffix_minima xs) = Suc (length xs)"
  by (induction xs) (simp_all add: Let_def)

lemma suffix_minima_le: "s \<in> set (drop i xs) \<Longrightarrow> suffix_minima xs ! i \<le> sc_earliest s"
proof (induction xs arbitrary: i)
  case (Cons x xs)
  show ?case
  proof (cases i)
    case 0
    then show ?thesis
      using Cons.prems Cons.IH [of 0] by (auto simp: Let_def min_le_iff_disj hd_conv_nth)
  next
    case (Suc j)
    then show ?thesis using Cons by (simp add: Let_def)
  qed
qed simp

lemma scanned_window_times:
  assumes "scanned_window rd msg = Some w" "t \<in> set (w_recv w)"
  shows "\<exists>s. summary_of msg = Some s \<and> sc_earliest s \<le> t"
proof -
  from assms(1) obtain chunk topic where chunk: "chunk_of msg = Some chunk" "\<not> ch_static chunk"
    "load_window chunk topic (rd_topics rd ! topic) = Inr (Some w)"
    by (auto simp: scanned_window_def scan_step_def loaded_Some split: option.splits if_splits)
  then have "w_recv w = unwrap_or (times chunk RECV_TIMESTAMP) []"
    using load_window_fresh by blast
  then show ?thesis using chunk assms(2) scan_chunk_earliest by (auto simp: summary_of_def)
qed

lemma scan_bound:
  assumes usable: "scan_usable env rd" and forward: "\<not> rd_reverse rd"
    and w: "w \<in> set (scan_remaining env rd)" and t: "t \<in> set (w_recv w)"
  shows "earliest_unread rd \<le> t"
proof -
  obtain source where source: "rd_source rd = Some source"
    using w by (cases "rd_source rd") (auto simp: scan_remaining_def)
  then obtain read where read: "scan_readable env rd (read @ source)"
    "rd_next_chunk rd \<le> length (filter_map summary_of read)"
    using usable by (auto simp: scan_usable_def)
  obtain msg where msg: "msg \<in> set source" "scanned_window rd msg = Some w"
    using w source forward by (auto simp: scan_remaining_def scan_windows_of_def orient_def)
  obtain s where s: "summary_of msg = Some s" "sc_earliest s \<le> t"
    using scanned_window_times [OF msg(2) t] by blast
  have "s \<in> set (drop (rd_next_chunk rd) (filter_map summary_of (read @ source)))"
    using read(2) msg(1) s(1) by (auto simp: drop_append)
  then have "suffix_minima (filter_map summary_of (read @ source)) ! rd_next_chunk rd \<le> sc_earliest s"
    by (rule suffix_minima_le)
  moreover have "rd_next_chunk rd < length (suffix_minima (filter_map summary_of (read @ source)))"
    using read(2) by simp
  ultimately have "unwrap_or (get (rd_earliest_remaining rd) (rd_next_chunk rd)) i64_MAX \<le> sc_earliest s"
    using read(1) by (simp add: scan_readable_def get_def)
  then show ?thesis
    using read(1) s(2) by (simp add: earliest_unread_def scan_readable_def)
qed

lemma scan_pull:
  assumes "scan_usable env rd"
  shows "\<exists>rd'. scan_usable env rd'
     \<and> (case scan_remaining env rd of
          [] \<Rightarrow> pull env rd = (Inr None, rd') \<and> scan_remaining env rd' = []
        | w # ws \<Rightarrow> pull env rd = (Inr (Some w), rd') \<and> scan_remaining env rd' = ws)"
proof (cases "rd_source rd")
  case None
  then show ?thesis
    using assms by (auto simp: scan_remaining_def pull_def scan_usable_def scan_readable_def)
next
  case (Some source)
  then obtain read where read: "scan_readable env rd (read @ source)"
    "rd_next_chunk rd \<le> length (filter_map summary_of read)"
    using assms by (auto simp: scan_usable_def)
  let ?rd = "rd\<lparr>rd_source := None\<rparr>"
  have frame: "readable_msg env ?rd = readable_msg env rd" "scanned_window ?rd = scanned_window rd"
    using scan_frame(1,2) [of rd ?rd] by (simp_all add: same_recording_def)
  obtain r rd' where pull: "pull_scan ?rd source = (r, rd')" by fastforce
  have "pulled_from ?rd source (pull_scan ?rd source)"
    using read(1) frame by (intro pull_scan_windows [where env = env]) (simp_all add: scan_readable_def)
  note pulled = this [unfolded pull pulled_from_def frame, simplified]
  have pass: "same_pass rd rd'" using pulled by (simp add: same_pass_def)
  note frame' = scan_frame [OF same_pass_recording [OF pass]]
  have eq: "pull env rd = (r, rd')"
    using Some read(1) pull by (simp add: pull_def scan_readable_def)
  show ?thesis
  proof (cases "filter_map (scanned_window rd) source")
    case Nil
    then have "r = Inr None" "rd_source rd' = None" using pulled by (simp_all del: filter_map_Nil)
    then show ?thesis
      using Nil Some eq read(1) frame'(3)
      by (auto simp: scan_remaining_def scan_windows_of_def scan_usable_def simp del: filter_map_Nil)
  next
    case (Cons w ws)
    then obtain more left where more: "r = Inr (Some (orient (rd_reverse rd) w))" "source = more @ left"
      "rd_source rd' = Some left" "filter_map (scanned_window rd) left = ws"
      "rd_next_chunk rd' \<le> rd_next_chunk rd + length (filter_map summary_of more)"
      using pulled by auto
    have "scan_usable env rd'"
      unfolding scan_usable_def frame'(3)
      using read more(2,3,5) by (intro exI [of _ "read @ source"]) (auto intro!: exI [of _ "read @ more"])
    moreover have "scan_remaining env rd' = map (orient (rd_reverse rd)) ws"
      using more(3,4) frame'(1) pass by (simp add: scan_remaining_def scan_windows_of_def same_pass_def)
    moreover have "scan_remaining env rd = orient (rd_reverse rd) w # map (orient (rd_reverse rd)) ws"
      using Cons Some by (simp add: scan_remaining_def scan_windows_of_def)
    ultimately show ?thesis using eq more(1) by auto
  qed
qed

lemma scanned_window_good:
  "readable_msg env rd msg \<Longrightarrow> scanned_window rd msg = Some w \<Longrightarrow>
     good_window (env_cdr env) (rd_topics rd) w"
  by (auto simp: readable_msg_def scanned_window_def loaded_Some split: option.splits sum.splits)

lemma scan_playable_msgs: "scan_playable env rd \<Longrightarrow> scan_readable env rd (file_msgs env)"
  by (auto simp: scan_playable_def file_msgs_def split: sum.splits)

lemma scan_windows_good:
  assumes "scan_playable env rd"
  shows "\<forall>w \<in> set (filter_map (scanned_window rd) (file_msgs env)).
    good_window (env_cdr env) (rd_topics rd) w"
  using scan_playable_msgs [OF assms] scanned_window_good
  by (fastforce simp: scan_readable_def list_all_iff)

lemma scan_windows_rows:
  assumes "scan_playable env rd"
  shows "window_rows (env_cdr env) (rd_topics rd) (scan_windows env rd) = mset (scan_bag env rd)"
  using window_rows_orient [OF scan_windows_good [OF assms]]
  by (simp add: scan_windows_def scan_windows_of_def scan_bag_def flip: window_rows_concat)

lemma scan_restart:
  assumes "scan_playable env rd"
  shows "\<exists>rd'. restart env rd = (Inr (), rd') \<and> scan_usable env rd'
    \<and> scan_remaining env rd' = scan_windows env rd"
proof -
  let ?rd = "rd\<lparr>rd_window := [], rd_next_chunk := 0, rd_position := i64_MIN, rd_cursor := None,
      rd_source := Some (file_msgs env)\<rparr>"
  note readable = scan_playable_msgs [OF assms]
  have "same_recording rd ?rd" by (simp add: same_recording_def)
  note frame = scan_frame [OF this]
  have "restart env rd = (Inr (), ?rd)"
    using readable by (simp add: restart_def scan_readable_def)
  moreover have "scan_usable env ?rd"
    unfolding scan_usable_def frame(3) using readable by auto
  moreover have "scan_remaining env ?rd = scan_windows env rd"
    by (simp add: scan_remaining_def scan_windows_def scan_windows_of_def frame(1))
  ultimately show ?thesis by blast
qed

interpretation scanned: playback_source scan_usable scan_remaining scan_playable
  scan_windows "\<lambda>env rd. mset (scan_bag env rd)"
proof
  fix env :: "'e reader_env" and rd rd' :: "'e reader" and w ws t
  show "scan_usable env rd' = scan_usable env rd \<and> scan_remaining env rd' = scan_remaining env rd"
    if same: "same_source rd rd'"
  proof -
    have eqs: "rd_source rd' = rd_source rd" "rd_next_chunk rd' = rd_next_chunk rd"
      "rd_reverse rd' = rd_reverse rd"
      using same by (simp_all add: same_source_def)
    note frame = scan_frame [OF same_source_recording [OF same]]
    show ?thesis
      unfolding scan_usable_def scan_remaining_def scan_windows_of_def eqs frame by simp
  qed
  show "\<exists>rd'. pull env rd = (Inr (Some w), rd') \<and> scan_usable env rd' \<and> scan_remaining env rd' = ws"
    if "scan_usable env rd" "scan_remaining env rd = w # ws"
    using scan_pull [OF that(1)] that by auto
  show "\<exists>rd'. pull env rd = (Inr None, rd') \<and> scan_usable env rd' \<and> scan_remaining env rd' = []"
    if "scan_usable env rd" "scan_remaining env rd = []"
    using scan_pull [OF that(1)] that by auto
  show "rank_time (rd_reverse rd) (earliest_unread rd) \<le> rank_time (rd_reverse rd) t"
    if usable: "scan_usable env rd" and forward: "\<not> (rd_reverse rd \<and> rd_index rd = None)"
      and unread: "w \<in> set (scan_remaining env rd)" "t \<in> set (w_recv w)"
  proof -
    have "\<not> rd_reverse rd"
      using usable forward by (auto simp: scan_usable_def scan_readable_def)
    then show ?thesis using scan_bound [OF usable _ unread] by (simp add: rank_time_def)
  qed
  show "scan_playable env rd' = scan_playable env rd
      \<and> mset (scan_bag env rd') = mset (scan_bag env rd)" if "same_recording rd rd'"
    using scan_frame [OF that] by simp
  show "window_ok (rd_reverse rd) (env_cdr env) (rd_topics rd) w"
    if "scan_playable env rd" "w \<in> set (scan_windows env rd)"
    using that scan_windows_good [OF that(1)] window_ok_orient
    by (auto simp: scan_windows_def scan_windows_of_def)
  show "wanted_rows (wanted rd) (window_rows (env_cdr env) (rd_topics rd) (scan_windows env rd))
      = wanted_rows (wanted rd) (mset (scan_bag env rd))" if "scan_playable env rd"
    using scan_windows_rows [OF that] by simp
  show "\<exists>rd'. restart env rd = (Inr (), rd') \<and> scan_usable env rd'
      \<and> scan_remaining env rd' = scan_windows env rd" if "scan_playable env rd"
    using that by (rule scan_restart)
  show "scan_usable env (skip_index_to t rd')
    \<and> (\<exists>dropped. scan_windows env rd = dropped @ scan_remaining env (skip_index_to t rd')
         \<and> (\<forall>w \<in> set dropped. \<forall>s \<in> set (w_recv w).
              rank_time (rd_reverse rd) s < rank_time (rd_reverse rd) t))"
    if "scan_playable env rd" "restart env rd = (Inr (), rd')"
  proof -
    have "rd_index rd' = None"
      using restart_frame [OF that(2)] scan_playable_msgs [OF that(1)]
      by (simp add: same_pass_def scan_readable_def)
    then have "skip_index_to t rd' = rd'" by (simp add: skip_index_to_def)
    then show ?thesis using scan_restart [OF that(1)] that(2) by auto
  qed
qed

end
