(* ===== verification/Passes.thy ===== *)
theory Passes
  imports Sources
begin

text \<open>
  Playback on either path of the reader: each lemma picks the interpretation of
  \<open>playback_source\<close> for the path the reader is on, and the last ones show that opening a
  recording puts a reader into a pass over all its rows.
\<close>

section \<open>Recordings and passes\<close>

definition playable :: "'e reader_env \<Rightarrow> 'e reader \<Rightarrow> bool" where
  "playable env rd =
     (if rd_index rd = None then scan_playable env rd else indexed_playable env rd)"

definition bag :: "'e reader_env \<Rightarrow> 'e reader \<Rightarrow> row list" where
  "bag env rd = (if rd_index rd = None then scan_bag env rd else indexed_bag env rd)"

text \<open>A reader in the middle of a pass, and the rows the pass has still to deal with.\<close>

definition in_pass :: "'e reader_env \<Rightarrow> 'e reader \<Rightarrow> bool" where
  "in_pass env rd =
     (if rd_index rd = None then scanned.merge_ok env rd else indexed.merge_ok env rd)"

definition to_deliver :: "'e reader_env \<Rightarrow> 'e reader \<Rightarrow> row multiset" where
  "to_deliver env rd =
     (if rd_index rd = None then scanned.to_emit env rd else indexed.to_emit env rd)"

text \<open>The rows of the topics being played, and what makes their replay determined.\<close>

definition played :: "'e reader_env \<Rightarrow> 'e reader \<Rightarrow> row list" where
  "played env rd = filter (\<lambda>r. wanted rd (row_topic r)) (bag env rd)"

definition replayable_rows :: "row list \<Rightarrow> bool" where
  "replayable_rows rs \<longleftrightarrow> list_all (\<lambda>r. \<not> isl (row_data r)) rs \<and> distinct (map row_key rs)"

definition messages_of :: "'e reader \<Rightarrow> row list \<Rightarrow> message list" where
  "messages_of rd rs = map (message_of (rd_topics rd)) (playback_order (rd_reverse rd) rs)"

lemma replayable_rowsE:
  assumes "replayable_rows rs"
  shows "\<forall>r \<in> set rs. \<exists>bs. row_data r = Inr bs" "distinct_keys (mset rs)"
proof -
  have "\<exists>bs. d = Inr bs" if "\<not> isl d" for d :: "bytes result"
    using that by (cases d) auto
  then show "\<forall>r \<in> set rs. \<exists>bs. row_data r = Inr bs"
    using assms by (simp add: replayable_rows_def list_all_iff)
  have "inj_on row_key (set rs)"
    using assms by (simp add: replayable_rows_def distinct_map)
  then show "distinct_keys (mset rs)"
    unfolding distinct_keys_def set_mset_mset by (simp add: inj_on_def)
qed

lemma replayable_rows_filter: "replayable_rows rs \<Longrightarrow> replayable_rows (filter P rs)"
  by (auto simp: replayable_rows_def list_all_iff distinct_map inj_on_def)

lemma drain_pass:
  assumes "in_pass env rd" "mset rs = wanted_rows (wanted rd) (to_deliver env rd)" "replayable_rows rs"
  shows "drain env rd = Inr (messages_of rd rs)"
  using assms scanned.drain_rows [of env rd rs] indexed.drain_rows [of env rd rs]
    replayable_rowsE [OF assms(3)]
  by (auto simp: in_pass_def to_deliver_def messages_of_def split: if_splits)

lemma same_pass_messages: "same_pass rd rd' \<Longrightarrow> messages_of rd' rs = messages_of rd rs"
  by (simp add: same_pass_def messages_of_def)

lemma playable_cong:
  "same_recording rd rd' \<Longrightarrow> playable env rd' = playable env rd \<and> bag env rd' = bag env rd"
  using scan_frame [of rd rd'] indexed_recording_frame [of rd rd']
  by (simp add: playable_def bag_def same_recording_def)

text \<open>Every way a pass starts, for both paths at once.\<close>

lemma pass_starts:
  assumes "in_pass env rd'" "same_pass rd rd'" "replayable_rows (filter P (played env rd))"
    "wanted_rows (wanted rd') (to_deliver env rd') = filter_mset P (mset (played env rd))"
  shows "drain env rd' = Inr (messages_of rd (filter P (played env rd)))"
  using drain_pass [OF assms(1) _ assms(3)] assms(4) same_pass_messages [OF assms(2)] by simp

lemma restart_pass:
  assumes "playable env rd" "restart env rd = (Inr (), rd')"
  shows "in_pass env rd' \<and> same_pass rd rd'
    \<and> wanted_rows (wanted rd') (to_deliver env rd') = mset (played env rd)"
proof (cases "rd_index rd")
  case None
  then have "scan_playable env rd" using assms(1) by (simp add: playable_def)
  from scanned.restart_rows [OF this] scanned.wanted_pass_rows [OF this, of rd' "\<lambda>r. True"]
  show ?thesis
    using None assms(2)
    by (auto simp: in_pass_def to_deliver_def played_def bag_def same_pass_def)
next
  case (Some ix)
  then have "indexed_playable env rd" using assms(1) by (simp add: playable_def)
  from indexed.restart_rows [OF this] indexed.wanted_pass_rows [OF this, of rd' "\<lambda>r. True"]
  show ?thesis
    using Some assms(2)
    by (auto simp: in_pass_def to_deliver_def played_def bag_def same_pass_def)
qed

lemma seek_pass:
  assumes "playable env rd"
  shows "\<exists>rd'. seek env t rd = (Inr (), rd') \<and> in_pass env rd' \<and> same_pass rd rd'
    \<and> wanted_rows (wanted rd') (to_deliver env rd') =
        filter_mset (from_time (rd_reverse rd) t) (mset (played env rd))
    \<and> rd_position rd' = t \<and> rd_cursor rd' = None"
proof (cases "rd_index rd")
  case None
  then have playable: "scan_playable env rd" using assms by (simp add: playable_def)
  obtain rd' where "seek env t rd = (Inr (), rd')" "scanned.merge_ok env rd'" "same_pass rd rd'"
    "scanned.to_emit env rd' = filter_mset (from_time (rd_reverse rd) t) (scanned.pass_rows env rd)"
    "rd_position rd' = t" "rd_cursor rd' = None"
    using scanned.seek_rows [OF playable] by blast
  then show ?thesis
    using None scanned.wanted_pass_rows [OF playable, of rd']
    by (auto simp: in_pass_def to_deliver_def played_def bag_def same_pass_def)
next
  case (Some ix)
  then have playable: "indexed_playable env rd" using assms by (simp add: playable_def)
  obtain rd' where "seek env t rd = (Inr (), rd')" "indexed.merge_ok env rd'" "same_pass rd rd'"
    "indexed.to_emit env rd' = filter_mset (from_time (rd_reverse rd) t) (indexed.pass_rows env rd)"
    "rd_position rd' = t" "rd_cursor rd' = None"
    using indexed.seek_rows [OF playable] by blast
  then show ?thesis
    using Some indexed.wanted_pass_rows [OF playable, of rd']
    by (auto simp: in_pass_def to_deliver_def played_def bag_def same_pass_def)
qed

lemma resume_pass:
  assumes "playable env (rd\<lparr>rd_filter := topics\<rparr>)" "rd_index rd \<noteq> None" "topics \<noteq> rd_filter rd"
    "rd_cursor rd = Some c" "rd_position rd = fst c"
  shows "\<exists>rd'. set_filter env topics rd = (Inr (), rd') \<and> in_pass env rd'
    \<and> same_pass (rd\<lparr>rd_filter := topics\<rparr>) rd'
    \<and> wanted_rows (wanted rd') (to_deliver env rd') =
        filter_mset (\<lambda>r. rank (rd_reverse rd) c < rank (rd_reverse rd) (row_key r))
          (mset (played env (rd\<lparr>rd_filter := topics\<rparr>)))"
proof -
  let ?rd = "rd\<lparr>rd_filter := topics\<rparr>"
  have playable: "indexed_playable env ?rd" using assms(1,2) by (simp add: playable_def)
  obtain rd' where rd': "set_filter env topics rd = (Inr (), rd')" "indexed.merge_ok env rd'"
    "same_pass ?rd rd'"
    "indexed.to_emit env rd' =
       filter_mset (resumes_at (rd_reverse rd) (rd_cursor rd) (rd_position rd)) (indexed.pass_rows env ?rd)"
    using indexed.set_filter_rows [OF playable assms(2,3)] assms(4,5) by auto
  moreover have "resumes_at (rd_reverse rd) (Some c) (fst c)
      = (\<lambda>r. rank (rd_reverse rd) c < rank (rd_reverse rd) (row_key r))"
    by (simp add: resumes_at_def fun_eq_iff)
  ultimately show ?thesis
    using assms(2,4,5) indexed.wanted_pass_rows [OF playable rd'(3)]
    by (auto simp: in_pass_def to_deliver_def played_def bag_def same_pass_def)
qed

text \<open>Reading refines the machine of \<open>Contract\<close>, on either path.\<close>

lemma read_pass:
  assumes "in_pass env rd"
  shows "\<exists>out rd'. read_next env rd = (result_of (rd_topics rd) out, rd')
    \<and> playback_step (rd_reverse rd) (wanted rd) (to_deliver env rd) out (to_deliver env rd')
    \<and> in_pass env rd' \<and> same_pass rd rd' \<and> cursor_after env rd out rd'"
proof (cases "rd_index rd")
  case None
  then obtain out rd' where read: "scanned.read_refines env rd out rd'"
    using scanned.read_next_refines [of env rd] assms by (auto simp: in_pass_def)
  then have "rd_index rd' = None" using None by (simp add: scanned.read_refines_def same_pass_def)
  then show ?thesis
    using read None unfolding scanned.read_refines_def
    by (intro exI [of _ out] exI [of _ rd']) (simp add: in_pass_def to_deliver_def)
next
  case (Some ix)
  then obtain out rd' where read: "indexed.read_refines env rd out rd'"
    using indexed.read_next_refines [of env rd] assms by (auto simp: in_pass_def)
  then have "rd_index rd' = Some ix" using Some by (simp add: indexed.read_refines_def same_pass_def)
  then show ?thesis
    using read Some unfolding indexed.read_refines_def
    by (intro exI [of _ out] exI [of _ rd']) (simp add: in_pass_def to_deliver_def)
qed

text \<open>Keeping the message for the caller to borrow changes nothing about the pass.\<close>

lemma borrow_pass [simp]:
  "in_pass env (rd\<lparr>rd_last_message := m\<rparr>) = in_pass env rd"
  "to_deliver env (rd\<lparr>rd_last_message := m\<rparr>) = to_deliver env rd"
  "wanted (rd\<lparr>rd_last_message := m\<rparr>) = wanted rd"
  by (simp_all add: in_pass_def to_deliver_def wanted_def fun_eq_iff)

definition deliverable :: "'e reader_env \<Rightarrow> 'e reader \<Rightarrow> bool" where
  "deliverable env rd \<longleftrightarrow>
     in_pass env rd
     \<and> (\<exists>rs. mset rs = wanted_rows (wanted rd) (to_deliver env rd) \<and> replayable_rows rs)"

lemma borrow_drain:
  assumes "deliverable env rd"
  shows "drain env (rd\<lparr>rd_last_message := m\<rparr>) = drain env rd"
proof -
  obtain rs where rs: "mset rs = wanted_rows (wanted rd) (to_deliver env rd)" "replayable_rows rs"
    using assms by (auto simp: deliverable_def)
  then show ?thesis
    using drain_pass [of env rd rs] drain_pass [of env "rd\<lparr>rd_last_message := m\<rparr>" rs] assms
    by (simp add: deliverable_def messages_of_def)
qed

lemma replayable_rows_subset:
  assumes "replayable_rows rs" "mset rs' \<subseteq># mset rs"
  shows "replayable_rows rs'"
proof -
  obtain zs where "mset rs = mset (rs' @ zs)"
    using assms(2) by (metis mset_append ex_mset subset_mset.add_diff_inverse)
  then have "mset (map row_key rs) = mset (map row_key (rs' @ zs))" by simp
  then have "distinct (map row_key (rs' @ zs))"
    using assms(1) mset_eq_imp_distinct_iff by (metis replayable_rows_def)
  then have "distinct (map row_key rs')" by simp
  moreover have "set rs' \<subseteq> set rs" using assms(2) by (metis set_mset_mono set_mset_mset)
  ultimately show ?thesis using assms(1) by (auto simp: replayable_rows_def list_all_iff)
qed

lemma deliverable_read:
  assumes "deliverable env rd" "read_next env rd = (Inr (Some m), rd')"
  shows "deliverable env rd'"
proof -
  obtain out where step: "result_of (rd_topics rd) out = Inr (Some m)"
    "playback_step (rd_reverse rd) (wanted rd) (to_deliver env rd) out (to_deliver env rd')"
    "in_pass env rd'" "same_pass rd rd'"
    using read_pass [of env rd] assms by (auto simp: deliverable_def)
  obtain rs where rs: "mset rs = wanted_rows (wanted rd) (to_deliver env rd)" "replayable_rows rs"
    using assms(1) by (auto simp: deliverable_def)
  obtain rs' where rs': "mset rs' = wanted_rows (wanted rd) (to_deliver env rd')"
    using ex_mset by blast
  have "mset rs' \<subseteq># mset rs"
    unfolding rs rs' by (rule multiset_filter_mono [OF step_subset [OF step(2)]])
  then have "replayable_rows rs'" using replayable_rows_subset rs(2) by blast
  then show ?thesis using step(3) rs' same_pass_wanted [OF step(4)] by (auto simp: deliverable_def)
qed

section \<open>Opening\<close>

text \<open>
  What the file has to be like: every message chunk loads, with its rows in receive-time
  order under all three timelines, and an index tells the truth about its chunks.
\<close>

definition true_recording :: "'e reader_env \<Rightarrow> 'e reader \<Rightarrow> bool" where
  "true_recording env rd =
     (if rd_index rd = None then list_all (readable_msg env rd) (file_msgs env)
      else list_all (faithful_chunk env rd) (chunk_refs rd))"

lemma scan_all_summaries:
  "scan_all p msgs acc = Inr (acc', scanned) \<Longrightarrow> scanned = filter_map summary_of msgs"
  by (induction p msgs acc arbitrary: acc' scanned rule: scan_all.induct)
    (auto simp: summary_of_def split: option.splits if_splits sum.splits)

lemma found_in_scan:
  assumes "found_in env None = Inr (rid, found, yaml, scanned)"
  shows "\<exists>msgs. scan (env_file env) = Inr msgs \<and> scanned = filter_map summary_of msgs"
  using assms by (auto simp: found_in_def dest: scan_all_summaries split: sum.splits)

lemma reader_of_recording:
  "rd_index (reader_of env index rid found yaml scanned) =
     map_option (index_retain (\<lambda>c. counted
       (fst (index_topics (env_archetype_ok env) found [] []))
       (snd (index_topics (env_archetype_ok env) found [] [])) (cr_entity c) (cr_components c) \<noteq> None))
       index"
  "rd_earliest_remaining (reader_of env index rid found yaml scanned) =
     (if index = None then suffix_minima scanned else [])"
  "rd_filter (reader_of env index rid found yaml scanned) = []"
  "rd_reverse (reader_of env index rid found yaml scanned) = False"
  by (simp_all add: reader_of_def Let_def split: prod.split option.split)

lemma reader_openE:
  assumes "reader_open env = Inr rd"
  obtains index rid found yaml scanned rd0 where
    "index_open (env_file env) = Inr index" "found_in env index = Inr (Some rid, found, yaml, scanned)"
    "rd0 = reader_of env index rid found yaml scanned" "restart env rd0 = (Inr (), rd)"
  using assms that
  by (auto simp: reader_open_def split: sum.splits option.splits prod.splits if_splits)

lemma open_pass:
  assumes opened: "reader_open env = Inr rd" and recording: "true_recording env rd"
  shows "playable env rd \<and> in_pass env rd
    \<and> wanted_rows (wanted rd) (to_deliver env rd) = mset (played env rd)
    \<and> rd_filter rd = [] \<and> \<not> rd_reverse rd"
proof -
  obtain index rid found yaml scanned rd0 where o: "index_open (env_file env) = Inr index"
    "found_in env index = Inr (Some rid, found, yaml, scanned)"
    "rd0 = reader_of env index rid found yaml scanned" "restart env rd0 = (Inr (), rd)"
    using opened by (rule reader_openE)
  have pass: "same_pass rd0 rd" using restart_frame [OF o(4)] by simp
  note fields = reader_of_recording [of env index rid found yaml scanned]
  have "playable env rd"
  proof (cases index)
    case None
    then show ?thesis
      using found_in_scan [of env "Some rid" found yaml scanned] o(2) recording fields pass
      by (auto simp: playable_def scan_playable_def scan_readable_def true_recording_def
          file_msgs_def same_pass_def o(3))
  next
    case (Some ix)
    then have "index_wf ix" using index_open_wf o(1) by blast
    then show ?thesis
      using index_retain_wf [of ix] recording fields Some pass
      by (auto simp: playable_def indexed_playable_def true_recording_def same_pass_def o(3))
  qed
  moreover from this have "playable env rd0" and played: "played env rd0 = played env rd"
    using playable_cong [OF same_pass_recording [OF pass], of env] same_pass_wanted [OF pass]
    by (simp_all add: played_def)
  ultimately show ?thesis
    using restart_pass [OF _ o(4)] fields(3,4) pass by (simp add: same_pass_def o(3))
qed

end
