(* ===== verification/Sample_Bag.thy ===== *)
theory Sample_Bag
  imports Passes
begin

text \<open>
  A concrete recording for the witnesses: two topics whose chunks overlap in time, written
  once with a footer and once without, with what \<open>Reader::open\<close> makes of it.
\<close>

section \<open>The file\<close>

definition blob_column :: "bytes list \<Rightarrow> list_array" where
  "blob_column bss =
     \<lparr>la_valid = replicate (length bss) True, la_offsets = [0..<Suc (length bss)],
      la_values = ListA (replicate (length bss) True)
        (fold (\<lambda>bs offs. offs @ [last offs + length bs]) bss [0]) (U8A (concat bss))\<rparr>"

definition blob_chunk :: "nat \<Rightarrow> (i64 \<times> i64 \<times> i64 \<times> bytes) list \<Rightarrow> nat chunk" where
  "blob_chunk entity rows =
     \<lparr>ch_entity = entity, ch_static = False, ch_num_rows = length rows,
      ch_timelines =
        [(RECV_TIMESTAMP, map fst rows), (SEND_TIMESTAMP, map (fst \<circ> snd) rows),
         (SEQUENCE_NUMBER, map (fst \<circ> snd \<circ> snd) rows)],
      ch_components = [(raw_descriptor, blob_column (map (snd \<circ> snd \<circ> snd) rows))]\<rparr>"

definition topic_chunk :: "nat \<Rightarrow> string \<Rightarrow> nat chunk" where
  "topic_chunk entity name =
     projr (topic_statics_chunk plain_builder entity
       \<lparr>rec_topic = name, rec_type_name = ''std_msgs/msg/Empty'', rec_schema_encoding = [],
        rec_schema_text = [], rec_qos_profiles = [], rec_type_hash = []\<rparr>)"

definition bag_chunk :: "chunk_id \<Rightarrow> nat chunk" where
  "bag_chunk i =
     (if i = 10 then topic_chunk 1 ''/a''
      else if i = 11 then blob_chunk 1 [(5, 4, 0, [1]), (9, 9, 3, [2])]
      else if i = 12 then blob_chunk 2 [(7, 6, 1, [3]), (20, 19, 4, [4])]
      else topic_chunk 2 ''/b'')"

definition bag_manifest :: "nat manifest" where
  "bag_manifest =
     \<lparr>m_chunk_ids = [10, 11, 12, 13], m_entities = [1, 1, 2, 2],
      m_is_static = [True, False, False, True], m_num_rows = [1, 2, 2, 1],
      m_temporal =
        [(1, [(RECV_TIMESTAMP, [(raw_descriptor, [(11, 5, 9)])])]),
         (2, [(RECV_TIMESTAMP, [(raw_descriptor, [(12, 7, 20)])])])]\<rparr>"

definition bag_file :: "bool \<Rightarrow> nat rrd_file" where
  "bag_file indexed =
     \<lparr>f_opens = True,
      f_footer = Inr (if indexed then Some [(''rec'', Some bag_manifest)] else None),
      f_read_chunks = (\<lambda>ids. Inr (map bag_chunk ids)),
      f_decode = Some (map (\<lambda>i. Inr (ArrowMsg ''rec'' (Some (bag_chunk i)))) [10, 11, 12, 13])\<rparr>"

definition bag_env :: "bool \<Rightarrow> nat reader_env" where
  "bag_env indexed =
     \<lparr>env_file = bag_file indexed, env_property = 0, env_archetype_ok = (\<lambda>_. True),
      env_plan = (\<lambda>_ _. None), env_cdr = plain_writer\<rparr>"

lemma topic_chunk_eval:
  "topic_chunk entity name =
    \<lparr>ch_entity = entity, ch_static = True, ch_num_rows = 1, ch_timelines = [],
     ch_components =
      [(''rosbag2.TopicMetadata:metadata'',
        \<lparr>la_valid = [True], la_offsets = [0, 1],
         la_values = StructA 1
           [(''name'', StrA [True] [name]), (''type'', StrA [True] [''std_msgs/msg/Empty'']),
            (''serialization_format'', StrA [True] [''cdr'']),
            (''offered_qos_profiles'', StrA [True] [[]]),
            (''type_description_hash'', StrA [True] [[]])]\<rparr>),
       (''rosbag2.MessageDefinition:definition'',
        \<lparr>la_valid = [True], la_offsets = [0, 1],
         la_values = StructA 1
           [(''encoding'', StrA [True] [[]]),
            (''encoded_message_definition'', BinA [True] [[]])]\<rparr>)]\<rparr>"
  by (simp add: topic_chunk_def topic_statics_chunk_def utf8_row_def one_row_def plain_builder_def
      FIELD_NAME_def FIELD_TYPE_def FIELD_SERIALIZATION_FORMAT_def FIELD_OFFERED_QOS_PROFILES_def
      FIELD_TYPE_DESCRIPTION_HASH_def FIELD_ENCODING_def FIELD_ENCODED_MESSAGE_DEFINITION_def
      metadata_descriptor_def definition_descriptor_def descriptor_def TOPIC_METADATA_def
      MESSAGE_DEFINITION_def list_len_def)

section \<open>What opening it gives\<close>

definition bag_topic :: "string \<Rightarrow> topic_info" where
  "bag_topic name =
     \<lparr>ti_name = name, ti_type_name = ''std_msgs/msg/Empty'', ti_schema_encoding = [],
      ti_schema_text = [], ti_qos_profiles = [], ti_type_hash = [], ti_message_count = 2,
      ti_columns = \<lparr>col_raw = raw_descriptor, col_reflected = Some ''std_msgs.msg.Empty:message''\<rparr>,
      ti_plan = None\<rparr>"

definition bag_index :: "nat chunk_index" where
  "bag_index =
     \<lparr>ix_recording_id = ''rec'',
      ix_chunks =
        [\<lparr>cr_id = 11, cr_entity = 1, cr_num_rows = 2, cr_start = 5, cr_end = 9,
          cr_components = [raw_descriptor]\<rparr>,
         \<lparr>cr_id = 12, cr_entity = 2, cr_num_rows = 2, cr_start = 7, cr_end = 20,
          cr_components = [raw_descriptor]\<rparr>],
      ix_temporal_chunks = 2, ix_max_end_through = [9, 20], ix_statics = [10, 13]\<rparr>"

definition bag_reader :: "bool \<Rightarrow> nat reader" where
  "bag_reader indexed =
     \<lparr>rd_index = (if indexed then Some bag_index else None), rd_at = 0,
      rd_source = (if indexed then None
        else Some (map (\<lambda>i. ArrowMsg ''rec'' (Some (bag_chunk i))) [10, 11, 12, 13])),
      rd_topics = [bag_topic ''/a'', bag_topic ''/b''], rd_topic_index = [(1, 0), (2, 1)],
      rd_window = [], rd_position = i64_MIN, rd_filter = [], rd_cursor = None,
      rd_metadata_yaml = None, rd_recording_id = ''rec'', rd_message_count = 4,
      rd_time_range = Some (5, 20),
      rd_earliest_remaining = (if indexed then [] else [5, 7, i64_MAX]),
      rd_next_chunk = 0, rd_reverse = False, rd_last_message = None\<rparr>"

lemma bag_index_open: "index_open (bag_file True) = Inr (Some bag_index)"
  by (simp add: index_open_def bag_file_def bag_manifest_def bag_index_def summarize_def
      add_entry_def get_def recompute_max_end_through_def i64_MIN_def numeral_eq_Suc Let_def)

lemma bag_chunks:
  "bag_chunk 10 = topic_chunk 1 ''/a''" "bag_chunk 13 = topic_chunk 2 ''/b''"
  "bag_chunk 11 = blob_chunk 1 [(5, 4, 0, [1]), (9, 9, 3, [2])]"
  "bag_chunk 12 = blob_chunk 2 [(7, 6, 1, [3]), (20, 19, 4, [4])]"
  by (simp_all add: bag_chunk_def)

lemmas static_names =
      FIELD_NAME_def FIELD_TYPE_def FIELD_SERIALIZATION_FORMAT_def FIELD_OFFERED_QOS_PROFILES_def
      FIELD_TYPE_DESCRIPTION_HASH_def FIELD_ENCODING_def FIELD_ENCODED_MESSAGE_DEFINITION_def
      metadata_descriptor_def definition_descriptor_def descriptor_def TOPIC_METADATA_def
      MESSAGE_DEFINITION_def

definition empty_topic :: "string \<Rightarrow> topic_statics" where
 "empty_topic name = \<lparr>st_topic = Some name, st_type_name = Some ''std_msgs/msg/Empty'', st_schema_encoding = Some [],
      st_schema_text = Some [], st_qos_profiles = Some [], st_type_hash = Some []\<rparr>"

lemma topic_statics_overwritten:
  "s\<lparr>st_topic := a, st_type_name := b, st_qos_profiles := c, st_type_hash := d,
     st_schema_encoding := e, st_schema_text := f\<rparr> =
   \<lparr>st_topic = a, st_type_name = b, st_schema_encoding = e, st_schema_text = f,
    st_qos_profiles = c, st_type_hash = d\<rparr>" for s :: topic_statics
  by (cases s) simp

lemma collect_topic_chunk:
  assumes "entity \<noteq> 0"
  shows "collect 0 (topic_chunk entity name) (found, yaml) =
     Inr (bt_entry entity (\<lambda>_. empty_topic name) found, yaml)"
  using assms by (simp add: collect_def topic_chunk_eval read_metadata_property_def set_metadata_fields_def
    set_definition_fields_def static_names struct_row_def struct_string_def struct_bytes_def struct_field_def
    column_def list_value_def list_is_null_def list_len_def empty_topic_def fun_eq_iff Let_def
    topic_statics_overwritten)

lemma found_in_bag: "found_in (bag_env indexed) (if indexed then Some bag_index else None) =
   Inr (Some ''rec'', [(1, empty_topic ''/a''), (2, empty_topic ''/b'')], None,
     if indexed then [] else map (\<lambda>i. scan_chunk (bag_chunk i)) [11, 12])"
  by (auto simp: found_in_def bag_env_def bag_file_def scan_def index_load_def bag_index_def
    bag_chunks collect_topic_chunk) (simp_all add: blob_chunk_def topic_chunk_eval collect_topic_chunk [unfolded topic_chunk_eval])
lemma scan_bag_chunks: "scan_chunk (bag_chunk 11) = \<lparr>sc_entity = 1, sc_components = [raw_descriptor], sc_num_rows = 2,
   sc_earliest = 5, sc_time_range = Some (5, 9)\<rparr>"
  "scan_chunk (bag_chunk 12) = \<lparr>sc_entity = 2, sc_components = [raw_descriptor], sc_num_rows = 2,
   sc_earliest = 7, sc_time_range = Some (7, 20)\<rparr>"
  by (simp_all add: bag_chunks scan_chunk_def blob_chunk_def times_def RECV_TIMESTAMP_def i64_MAX_def)

lemma reader_of_bag: "restart (bag_env indexed) (reader_of (bag_env indexed) (if indexed then Some bag_index else None) ''rec''
   [(1, empty_topic ''/a''), (2, empty_topic ''/b'')] None 
   (if indexed then [] else map (\<lambda>i. scan_chunk (bag_chunk i)) [11, 12]))
   = (Inr (), bag_reader indexed)"
  by (cases indexed) (simp_all add: bag_reader_def reader_of_def bag_env_def topic_info_of_def empty_topic_def columns_for_type_def
    reflected_descriptor_def descriptor_def dotted_def counted_def holds_messages_def holds_structs_def raw_descriptor_def
    scan_bag_chunks bag_topic_def
    finish_topic_def restart_def scan_def bag_file_def bag_index_def index_retain_def recompute_max_end_through_def
    index_message_count_def index_time_range_def i64_MIN_def i64_MAX_def Let_def wrap_u64_def enumerate_eq_zip)

lemma bag_env_file: "env_file (bag_env indexed) = bag_file indexed"
  by (simp add: bag_env_def)

lemma bag_opens: "reader_open (bag_env indexed) = Inr (bag_reader indexed)"
proof -
  have "index_open (bag_file indexed) = Inr (if indexed then Some bag_index else None)"
    using bag_index_open by (simp add: index_open_def bag_file_def)
  then show ?thesis
    using found_in_bag [of indexed] reader_of_bag [of indexed]
    by (simp add: reader_open_def describes_itself_def bag_env_file)
qed

lemma bag_rows: "bag (bag_env indexed) (bag_reader indexed) =
   [((5, 0), 0, 4, Inr [1]), ((9, 3), 0, 9, Inr [2]), ((7, 1), 1, 6, Inr [3]), ((20, 4), 1, 19, Inr [4])]"
  by (cases indexed) (simp_all add: bag_def indexed_bag_def scan_bag_def chunk_refs_def bag_reader_def bag_index_def
     index_window_def index_load_def bag_env_def bag_file_def bag_chunks blob_chunk_def load_window_def
     times_def column_def bag_topic_def RECV_TIMESTAMP_def SEND_TIMESTAMP_def SEQUENCE_NUMBER_def raw_descriptor_def
     descriptor_def Let_def pending_def row_at_def row_payload_def data_row_def sequence_number_def get_def
     blob_column_def blob_at_def list_len_def list_is_null_def list_value_def upt_rec file_msgs_def scan_def
     scanned_window_def scan_step_def topic_chunk_eval)
end
