(* ===== verification/Replaying.thy ===== *)
theory Replaying
  imports Sample_Bag
begin

text \<open>
  The theorems about playback: what reading, seeking, filtering, reversing and failing do
  on a recording, on the indexed and on the scan path alike.
\<close>

section \<open>A whole recording\<close>

text \<open>
  C4: opening a recording and reading it to the end delivers every row of every message
  chunk exactly once, in order of receive time and then of write order, whichever of the
  two paths the reader is on. Rows of equal receive time are told apart by their sequence
  number, so the order is determined.
\<close>

theorem open_replays:
  assumes "reader_open env = Inr rd" "true_recording env rd" "replayable_rows (bag env rd)"
  shows "drain env rd = Inr (map (message_of (rd_topics rd)) (sort_key row_key (bag env rd)))"
proof -
  note pass = open_pass [OF assms(1,2)]
  have all: "played env rd = bag env rd"
    using pass by (simp add: played_def wanted_def)
  show ?thesis
    using drain_pass [of env rd "bag env rd"] pass assms(3)
    by (simp add: all messages_of_def playback_order_def)
qed

lemma bag_replayable: "replayable_rows (bag (bag_env indexed) (bag_reader indexed))"
  by (simp add: bag_rows replayable_rows_def)

lemma bag_true: "true_recording (bag_env indexed) (bag_reader indexed)"
  by (cases indexed) (simp_all add: true_recording_def faithful_chunk_def chunk_refs_def bag_reader_def bag_index_def
     index_window_def index_load_def bag_env_def bag_file_def bag_chunks blob_chunk_def load_window_def
     times_def column_def bag_topic_def RECV_TIMESTAMP_def SEND_TIMESTAMP_def SEQUENCE_NUMBER_def raw_descriptor_def
     descriptor_def Let_def good_window_def same_length_def in_range_def i64_MIN_def i64_MAX_def
     pending_def row_at_def sequence_number_def get_def upt_rec file_msgs_def scan_def rank_def rank_time_def
     readable_msg_def scan_step_def topic_chunk_eval)

theorem open_replays_witness:
  "\<exists>rd. reader_open (bag_env True) = Inr rd
     \<and> drain (bag_env True) rd =
         Inr (map (message_of (rd_topics rd)) (sort_key row_key (bag (bag_env True) rd)))"
  using open_replays [OF bag_opens bag_true bag_replayable] bag_opens by blast

lemma bag_pass:
  "playable (bag_env indexed) (bag_reader indexed)" "in_pass (bag_env indexed) (bag_reader indexed)"
  using open_pass [OF bag_opens bag_true] by blast+

section \<open>One read\<close>

text \<open>
  C6: from anywhere in a pass, \<open>read_next\<close> is one step of the playback machine of
  \<open>Contract\<close>: it skips the unwanted rows that come first and delivers the least row that is
  left, or reports the end only when no wanted row is left, or fails on the least row and
  leaves it. It stays inside the pass and records the delivered row as the cursor.
\<close>

theorem read_next_refines_machine:
  assumes "in_pass env rd"
  shows "\<exists>out rd'. read_next env rd = (result_of (rd_topics rd) out, rd')
    \<and> playback_step (rd_reverse rd) (wanted rd) (to_deliver env rd) out (to_deliver env rd')
    \<and> in_pass env rd' \<and> same_pass rd rd' \<and> cursor_after env rd out rd'"
  by (rule read_pass [OF assms])

theorem read_next_refines_machine_witness:
  "\<exists>out rd'. read_next (bag_env True) (bag_reader True) = (result_of (rd_topics (bag_reader True)) out, rd')
    \<and> in_pass (bag_env True) rd'"
  using read_next_refines_machine [OF bag_pass(2) [of True]] by blast

section \<open>Seeking\<close>

text \<open>
  C9: after \<open>seek\<close> on a playable recording, draining delivers exactly the rows of the
  played topics at or after the time sought, or at or before it when reversed, in playback
  order. Nothing before it is delivered and nothing from it on is lost, although the index
  skips chunks without reading them.
\<close>

theorem seek_replays:
  assumes "playable env rd" "replayable_rows (played env rd)"
  shows "\<exists>rd'. seek env t rd = (Inr (), rd') \<and> rd_position rd' = t
    \<and> drain env rd' =
        Inr (messages_of rd (filter (from_time (rd_reverse rd) t) (played env rd)))"
  using seek_pass [OF assms(1), of t] pass_starts [of env _ rd "from_time (rd_reverse rd) t"]
    replayable_rows_filter [OF assms(2), of "from_time (rd_reverse rd) t"]
  by auto

lemma bag_played: "played (bag_env indexed) (bag_reader indexed) = bag (bag_env indexed) (bag_reader indexed)"
  by (simp add: played_def wanted_def bag_reader_def)

lemma bag_played_replayable: "replayable_rows (played (bag_env indexed) (bag_reader indexed))"
  unfolding bag_played by (rule bag_replayable)

theorem seek_replays_witness:
  "\<exists>rd'. seek (bag_env True) 7 (bag_reader True) = (Inr (), rd') \<and> rd_position rd' = 7
    \<and> drain (bag_env True) rd' = Inr (messages_of (bag_reader True)
        (filter (from_time False 7) (played (bag_env True) (bag_reader True))))"
  using seek_replays [OF bag_pass(1) bag_played_replayable, of True 7] by (simp add: bag_reader_def)

section \<open>Filtering\<close>

text \<open>
  C12: changing the filter on the indexed path takes effect in place. With the last row
  delivered at the cursor \<open>c\<close>, draining under the new filter delivers exactly the rows of
  the newly wanted topics whose sort key comes after \<open>c\<close>: nothing is delivered twice, and
  nothing the old filter held back after the cursor is lost.
\<close>

theorem set_filter_resumes:
  assumes "playable env (rd\<lparr>rd_filter := topics\<rparr>)" "rd_index rd \<noteq> None" "topics \<noteq> rd_filter rd"
    and "rd_cursor rd = Some c" "rd_position rd = fst c"
    and "replayable_rows (played env (rd\<lparr>rd_filter := topics\<rparr>))"
  shows "\<exists>rd'. set_filter env topics rd = (Inr (), rd')
    \<and> drain env rd' = Inr (messages_of rd
        (filter (\<lambda>r. rank (rd_reverse rd) c < rank (rd_reverse rd) (row_key r))
           (played env (rd\<lparr>rd_filter := topics\<rparr>))))"
proof -
  let ?rd = "rd\<lparr>rd_filter := topics\<rparr>"
  let ?P = "\<lambda>r. rank (rd_reverse rd) c < rank (rd_reverse rd) (row_key r)"
  obtain rd' where "set_filter env topics rd = (Inr (), rd')" "in_pass env rd'" "same_pass ?rd rd'"
    "wanted_rows (wanted rd') (to_deliver env rd') = filter_mset ?P (mset (played env ?rd))"
    using resume_pass [OF assms(1-5)] by blast
  then show ?thesis
    using pass_starts [of env rd' ?rd ?P] replayable_rows_filter [OF assms(6), of ?P]
    by (simp add: messages_of_def)
qed

definition bag_midway :: "nat reader" where
  "bag_midway = (bag_reader True)\<lparr>rd_filter := [''/a''], rd_cursor := Some (5, 0), rd_position := 5\<rparr>"

lemma bag_midway_playable: "playable (bag_env True) (bag_midway\<lparr>rd_filter := []\<rparr>)"
  "bag (bag_env True) (bag_midway\<lparr>rd_filter := []\<rparr>) = bag (bag_env True) (bag_reader True)"
proof -
  have "same_recording (bag_reader True) (bag_midway\<lparr>rd_filter := []\<rparr>)"
    by (simp add: bag_midway_def same_recording_def)
  then show "playable (bag_env True) (bag_midway\<lparr>rd_filter := []\<rparr>)"
    "bag (bag_env True) (bag_midway\<lparr>rd_filter := []\<rparr>) = bag (bag_env True) (bag_reader True)"
    using playable_cong bag_pass(1) by blast+
qed

theorem set_filter_resumes_witness:
  "\<exists>rd'. set_filter (bag_env True) [] bag_midway = (Inr (), rd')
    \<and> drain (bag_env True) rd' = Inr (messages_of bag_midway
        (filter (\<lambda>r. rank False (5, 0) < rank False (row_key r))
           (played (bag_env True) (bag_midway\<lparr>rd_filter := []\<rparr>))))"
proof -
  have "replayable_rows (played (bag_env True) (bag_midway\<lparr>rd_filter := []\<rparr>))"
    unfolding played_def bag_midway_playable by (intro replayable_rows_filter bag_replayable)
  from set_filter_resumes [OF bag_midway_playable(1) _ _ _ _ this, of "(5, 0)"] show ?thesis
    by (simp add: bag_midway_def bag_reader_def)
qed

section \<open>Reversing\<close>

text \<open>
  C15: \<open>set_reverse\<close> starts the pass over in the other direction, and what a reverse pass
  delivers is what a forward pass delivers, back to front, message for message.
\<close>

theorem set_reverse_mirrors:
  assumes "playable env rd" "\<not> rd_reverse rd" "replayable_rows (played env rd)"
    and "restart env rd = (Inr (), forward)"
  shows "\<exists>backward ms. set_reverse env True rd = (Inr (), backward)
    \<and> drain env forward = Inr ms \<and> drain env backward = Inr (rev ms)"
proof -
  let ?rd = "rd\<lparr>rd_reverse := True\<rparr>"
  have same: "same_recording rd ?rd" by (simp add: same_recording_def)
  have played: "played env ?rd = played env rd"
    using playable_cong [OF same, of env] by (simp add: played_def wanted_def)
  have playable: "playable env ?rd" using playable_cong [OF same] assms(1) by blast
  obtain backward where bwd: "restart env ?rd = (Inr (), backward)"
    using playable scanned.restart_rows [of env ?rd] indexed.restart_rows [of env ?rd]
    by (auto simp: playable_def split: if_splits)
  have "drain env forward = Inr (messages_of rd (played env rd))"
    using pass_starts [of env forward rd "\<lambda>r. True"] restart_pass [OF assms(1,4)] assms(3) by simp
  moreover have "drain env backward = Inr (messages_of ?rd (played env rd))"
    using pass_starts [of env backward ?rd "\<lambda>r. True"] restart_pass [OF playable bwd] assms(3)
    by (simp add: played)
  moreover have "messages_of ?rd (played env rd) = rev (messages_of rd (played env rd))"
    using assms(2) by (simp add: messages_of_def playback_order_reverse rev_map)
  ultimately show ?thesis using bwd assms(2) by (auto simp: set_reverse_def)
qed

lemma bag_restarts: "restart (bag_env indexed) (bag_reader indexed) = (Inr (), bag_reader indexed)"
  by (cases indexed) (simp_all add: restart_def bag_reader_def scan_def bag_env_def bag_file_def)

theorem set_reverse_mirrors_witness:
  "\<exists>backward ms. set_reverse (bag_env False) True (bag_reader False) = (Inr (), backward)
    \<and> drain (bag_env False) (bag_reader False) = Inr ms
    \<and> drain (bag_env False) backward = Inr (rev ms)"
  by (rule set_reverse_mirrors [OF bag_pass(1) _ bag_played_replayable bag_restarts])
    (simp add: bag_reader_def)

section \<open>The two paths\<close>

text \<open>
  C17: a footer changes how a recording is read and nothing about what is played. Two
  readers whose recordings hold the same rows, one on the indexed and one on the scan path
  or both on the same, deliver the same messages after the same seek.
\<close>

theorem paths_agree:
  assumes "playable env rd" "playable env' rd'" "replayable_rows (played env rd)"
    and "mset (bag env' rd') = mset (bag env rd)" "rd_topics rd' = rd_topics rd"
    and "rd_filter rd' = rd_filter rd" "rd_reverse rd' = rd_reverse rd"
  shows "\<exists>r r'. seek env t rd = (Inr (), r) \<and> seek env' t rd' = (Inr (), r')
    \<and> drain env' r' = drain env r"
proof -
  let ?P = "from_time (rd_reverse rd) t"
  have "wanted rd' = wanted rd"
    using assms(5,6) by (simp add: wanted_def fun_eq_iff)
  then have rows: "mset (filter ?P (played env' rd')) = mset (filter ?P (played env rd))"
    using assms(4) by (simp add: played_def)
  obtain r where r: "seek env t rd = (Inr (), r)" "in_pass env r" "same_pass rd r"
    "wanted_rows (wanted r) (to_deliver env r) = filter_mset ?P (mset (played env rd))"
    using seek_pass [OF assms(1), of t] by blast
  obtain r' where r': "seek env' t rd' = (Inr (), r')" "in_pass env' r'" "same_pass rd' r'"
    "wanted_rows (wanted r') (to_deliver env' r') = filter_mset ?P (mset (played env' rd'))"
    using seek_pass [OF assms(2), of t] assms(7) by auto
  have one: "replayable_rows (filter ?P (played env rd))"
    using assms(3) by (rule replayable_rows_filter)
  have "drain env' r' = Inr (messages_of r' (filter ?P (played env rd)))"
    using r'(4) rows by (intro drain_pass [OF r'(2) _ one]) simp
  moreover have "drain env r = Inr (messages_of r (filter ?P (played env rd)))"
    using r(4) by (intro drain_pass [OF r(2) _ one]) simp
  moreover have "messages_of r' rs = messages_of r rs" for rs
    using r(3) r'(3) assms(5,7) by (simp add: messages_of_def same_pass_def)
  ultimately show ?thesis using r(1) r'(1) by auto
qed

theorem paths_agree_witness:
  "\<exists>r r'. seek (bag_env True) 6 (bag_reader True) = (Inr (), r)
    \<and> seek (bag_env False) 6 (bag_reader False) = (Inr (), r')
    \<and> drain (bag_env False) r' = drain (bag_env True) r"
  by (rule paths_agree [OF bag_pass(1) bag_pass(1) bag_played_replayable])
    (simp_all only: bag_rows, simp_all add: bag_reader_def)

section \<open>Counting\<close>

lemma index_topics_bound:
  "index_topics ok found topics ti = (topics', ti') \<Longrightarrow> \<forall>(e, i) \<in> set ti. i < length topics \<Longrightarrow>
     \<forall>(e, i) \<in> set ti'. i < length topics'"
  by (induction ok found topics ti rule: index_topics.induct)
    (fastforce split: option.splits dest: less_SucI)+

lemma counted_bound:
  "\<forall>(e, i) \<in> set ti. i < length topics \<Longrightarrow> counted topics ti entity components = Some t \<Longrightarrow>
     t < length topics"
  by (auto simp: counted_def dest!: map_of_SomeD split: option.splits if_splits)

text \<open>The tally counts every row of every counted chunk once, up to wrap-around.\<close>

lemma tally_sum:
  "\<forall>(e, i) \<in> set ti. i < length topics \<Longrightarrow> length counts = length topics \<Longrightarrow>
     wrap_u64 (sum_list (fst (tally topics ti seen (counts, flags)))) =
     wrap_u64 (sum_list counts
       + (\<Sum>(e, c, n) \<leftarrow> filter (\<lambda>(e, c, n). counted topics ti e c \<noteq> None) seen. n))
     \<and> length (fst (tally topics ti seen (counts, flags))) = length topics"
proof (induction seen arbitrary: counts flags)
  case (Cons s seen)
  obtain e c n where s: "s = (e, c, n)" by (cases s)
  show ?case
  proof (cases "counted topics ti e c")
    case (Some t)
    have t: "t < length counts" using counted_bound [OF Cons.prems(1) Some] Cons.prems(2) by simp
    let ?counts = "counts[t := wrap_u64 (counts ! t + n)]"
    have "wrap_u64 (sum_list ?counts + m) = wrap_u64 (sum_list counts + (n + m))" for m
    proof -
      obtain rest where rest: "sum_list counts = counts ! t + rest"
        using le_Suc_ex [OF elem_le_sum_list [OF t]] by blast
      then have "sum_list ?counts = rest + wrap_u64 (counts ! t + n)"
        using t by (simp add: sum_list_update)
      then show ?thesis
        using rest wrap_u64_add [of rest "counts ! t + n" m] by (simp add: ac_simps)
    qed
    then show ?thesis using Cons.IH [of ?counts] Cons.prems Some by (simp add: s)
  qed (use Cons s in simp)
qed simp

definition seen_chunks ::
  "'e chunk_index option \<Rightarrow> 'e scanned_chunk list \<Rightarrow> ('e \<times> string list \<times> usize) list" where
  "seen_chunks index scanned =
     (case index of
        Some ix \<Rightarrow> map (\<lambda>c. (cr_entity c, cr_components c, cr_num_rows c)) (ix_chunks ix)
      | None \<Rightarrow> map (\<lambda>c. (sc_entity c, sc_components c, sc_num_rows c)) scanned)"

lemma sum_filter_map:
  "(\<Sum>(e, c, n) \<leftarrow> filter (\<lambda>(e, c, n). P e c) (map (\<lambda>x. (f x, g x, h x)) xs). n)
     = sum_list (map h (filter (\<lambda>x. P (f x) (g x)) xs))"
  by (induction xs) simp_all

lemma map_enumerate_nth:
  "length ys = length xs \<Longrightarrow> map (\<lambda>(i, x). ys ! i) (enumerate 0 xs) = ys"
  by (rule nth_equalityI) (simp_all add: nth_enumerate_eq)

text \<open>The tally and the counts of the reader, in terms of the topics found and the chunks seen.\<close>

abbreviation tallied :: "topic_info list \<Rightarrow> ('e \<times> usize) list \<Rightarrow> ('e \<times> string list \<times> usize) list
    \<Rightarrow> usize list \<times> bool list" where
  "tallied topics ti seen \<equiv>
     tally topics ti seen (replicate (length topics) 0, replicate (length topics) False)"

lemma reader_of_topic_counts:
  assumes "index_topics (env_archetype_ok env) found [] [] = (topics, ti)"
  shows "map ti_message_count (rd_topics (reader_of env index rid found yaml scanned))
    = fst (tallied topics ti (seen_chunks index scanned))"
proof -
  let ?tally = "tallied topics ti (seen_chunks index scanned)"
  have bound: "\<forall>(e, i) \<in> set ti. i < length topics"
    using index_topics_bound [OF assms] by simp
  have count: "ti_message_count (finish_topic env ?tally i info) = fst ?tally ! i" for i info
    by (simp add: finish_topic_def Let_def)
  have "map ti_message_count (rd_topics (reader_of env index rid found yaml scanned))
      = map (\<lambda>(i, x). fst ?tally ! i) (enumerate 0 topics)"
    by (simp add: reader_of_def assms Let_def count seen_chunks_def [symmetric] prod.case_distrib
        cong: prod.case_cong)
  also have "\<dots> = fst ?tally"
    using tally_sum [OF bound, of "replicate (length topics) 0" "seen_chunks index scanned"]
    by (intro map_enumerate_nth) simp
  finally show ?thesis .
qed

lemma reader_of_message_count:
  assumes "index_topics (env_archetype_ok env) found [] [] = (topics, ti)"
  shows "rd_message_count (reader_of env index rid found yaml scanned) =
    wrap_u64 (\<Sum>(e, c, n) \<leftarrow> filter (\<lambda>(e, c, n). counted topics ti e c \<noteq> None)
      (seen_chunks index scanned). n)"
  by (cases index)
    (simp_all add: reader_of_def assms Let_def seen_chunks_def sum_filter_map index_message_count_def
      index_retain_def recompute_max_end_through_def del: not_None_eq)

lemma reader_of_counts:
  "wrap_u64 (sum_list (map ti_message_count (rd_topics (reader_of env index rid found yaml scanned))))
     = rd_message_count (reader_of env index rid found yaml scanned)"
proof -
  obtain topics ti where topics: "index_topics (env_archetype_ok env) found [] [] = (topics, ti)"
    by fastforce
  have bound: "\<forall>(e, i) \<in> set ti. i < length topics"
    using index_topics_bound [OF topics] by simp
  show ?thesis
    unfolding reader_of_topic_counts [OF topics] reader_of_message_count [OF topics]
    using tally_sum [OF bound, of "replicate (length topics) 0"] by (simp add: sum_list_replicate)
qed

lemma restart_counts:
  "restart env rd = (r, rd') \<Longrightarrow>
     rd_message_count rd' = rd_message_count rd \<and> rd_topics rd' = rd_topics rd"
  by (auto simp: restart_def Let_def split: if_splits sum.splits)

text \<open>
  C31: the message count a reader reports for the recording is the sum of the counts it
  reports for its topics, on either path (modulo the width of \<open>usize\<close>, at which both are
  summed).
\<close>

theorem open_counts_add_up:
  assumes "reader_open env = Inr rd"
  shows "rd_message_count rd = wrap_u64 (sum_list (map ti_message_count (rd_topics rd)))"
  using reader_openE [OF assms] reader_of_counts restart_counts by metis

theorem open_counts_add_up_witness:
  "rd_message_count (bag_reader False) =
     wrap_u64 (sum_list (map ti_message_count (rd_topics (bag_reader False))))"
  by (rule open_counts_add_up [OF bag_opens])

section \<open>Rows that go backwards\<close>

text \<open>
  Nothing sorts the rows inside a chunk: a topic whose receive times go backwards within
  one chunk is replayed in the order it was written, out of receive-time order. The
  hypothesis of the theorems above that every chunk's rows are in order is needed.
\<close>

definition backwards_chunk :: "nat chunk" where
  "backwards_chunk = blob_chunk 3 [(9, 9, 0, [1]), (5, 5, 1, [2])]"

definition backwards_msgs :: "nat log_msg list" where
  "backwards_msgs =
     [ArrowMsg ''rec'' (Some (topic_chunk 3 ''/a'')), ArrowMsg ''rec'' (Some backwards_chunk)]"

definition backwards_env :: "nat reader_env" where
  "backwards_env =
     (bag_env False)\<lparr>env_file := (bag_file False)\<lparr>f_decode := Some (map Inr backwards_msgs)\<rparr>\<rparr>"


lemma backwards_file:
  "env_file backwards_env = (bag_file False)\<lparr>f_decode := Some (map Inr backwards_msgs)\<rparr>"
  "env_property backwards_env = 0" "env_archetype_ok backwards_env = (\<lambda>_. True)"
  "env_cdr backwards_env = plain_writer"
  by (simp_all add: backwards_env_def bag_env_def)

definition backwards_reader :: "nat reader" where
  "backwards_reader =
     \<lparr>rd_index = None, rd_at = 0,
      rd_source = Some backwards_msgs,
      rd_topics = [bag_topic ''/a''], rd_topic_index = [(3, 0)],
      rd_window = [], rd_position = i64_MIN, rd_filter = [], rd_cursor = None,
      rd_metadata_yaml = None, rd_recording_id = ''rec'', rd_message_count = 2,
      rd_time_range = Some (5, 9),
      rd_earliest_remaining = [5, i64_MAX],
      rd_next_chunk = 0, rd_reverse = False, rd_last_message = None\<rparr>"

lemma backwards_opens: "reader_open backwards_env = Inr backwards_reader"
proof -
  have "index_open (env_file backwards_env) = Inr None"
    by (simp add: index_open_def backwards_file bag_file_def)
  moreover have "found_in backwards_env None = Inr (Some ''rec'', [(3, empty_topic ''/a'')], None,
     [\<lparr>sc_entity = 3, sc_components = [raw_descriptor], sc_num_rows = 2,
       sc_earliest = 5, sc_time_range = Some (5, 9)\<rparr>])"
    by (simp add: found_in_def backwards_file bag_file_def scan_def backwards_msgs_def
        collect_topic_chunk)
      (simp add: backwards_chunk_def blob_chunk_def topic_chunk_eval collect_topic_chunk [unfolded topic_chunk_eval]
         scan_chunk_def times_def RECV_TIMESTAMP_def i64_MAX_def)
  ultimately show ?thesis
    by (simp add: reader_open_def describes_itself_def) 
     (simp add: backwards_reader_def backwards_msgs_def reader_of_def backwards_file topic_info_of_def empty_topic_def columns_for_type_def
    reflected_descriptor_def descriptor_def dotted_def counted_def holds_messages_def holds_structs_def raw_descriptor_def
     bag_topic_def backwards_chunk_def
    finish_topic_def restart_def scan_def bag_file_def i64_MIN_def i64_MAX_def Let_def wrap_u64_def enumerate_eq_zip)
qed
definition backwards_window :: window where
  "backwards_window =
     \<lparr>w_topic = 0, w_recv = [9, 5], w_send = [9, 5], w_seq = [0, 1],
      w_blobs = Some (blob_column [[1], [2]]), w_messages = None, w_next = 0, w_reversed = False\<rparr>"

lemma backwards_loads:
  "load_window backwards_chunk 0 (bag_topic ''/a'') = Inr (Some backwards_window)"
  by (simp add: load_window_def backwards_chunk_def blob_chunk_def times_def column_def bag_topic_def
      RECV_TIMESTAMP_def SEND_TIMESTAMP_def SEQUENCE_NUMBER_def raw_descriptor_def descriptor_def
      backwards_window_def)

lemma backwards_blobs:
  "blob_at (blob_column [[1], [2]]) 0 = Some [1]"
  "blob_at (blob_column [[1], [2]]) (Suc 0) = Some [2]"
  by (simp_all add: blob_column_def blob_at_def list_len_def list_is_null_def list_value_def upt_rec)

lemma backwards_steps:
  "scan_step rd (ArrowMsg ''rec'' (Some (topic_chunk 3 ''/a''))) = None"
  "rd_topics rd = [bag_topic ''/a''] \<Longrightarrow> rd_topic_index rd = [(3, 0)] \<Longrightarrow>
     scan_step rd (ArrowMsg ''rec'' (Some backwards_chunk)) = Some (Inr (Some backwards_window))"
  using backwards_loads by (simp_all add: scan_step_def) (simp_all add: backwards_chunk_def blob_chunk_def topic_chunk_eval)

lemma bag_topic_name: "ti_name (bag_topic name) = name"
  by (simp add: bag_topic_def)

text \<open>The definitions a read goes through, for evaluating one.\<close>

lemmas reading =
  drain.simps read_next.simps take_row_def next_row_def fill_def fill_loop.simps settled_def
  exhausted_def candidate_def pull_def earliest_unread_def push_window_def orient_def w_head_def
  w_key_def window_keys_def sequence_number_def row_payload_def data_row_def advance_def wanted_def
  get_def Let_def enumerate_eq_zip swap_remove_def

theorem backwards_chunk_replays_backwards:
  "\<exists>rd. reader_open backwards_env = Inr rd
     \<and> map_sum id (map msg_recv_timestamp) (drain backwards_env rd) = Inr [9, 5]"
proof -
  have "map_sum id (map msg_recv_timestamp) (drain backwards_env backwards_reader) = Inr [9, 5]"
    by (simp add: reading backwards_reader_def backwards_msgs_def backwards_steps backwards_blobs
        backwards_window_def i64_MAX_def backwards_file bag_topic_name upt_rec)
  then show ?thesis using backwards_opens by blast
qed

section \<open>A row without a payload\<close>

text \<open>The first of two rows has neither bytes nor a struct: reading it fails.\<close>

definition torn_chunk :: "nat chunk" where
  "torn_chunk = (blob_chunk 3 [(5, 5, 0, [1]), (6, 6, 1, [2])])\<lparr>ch_components :=
     [(raw_descriptor, (blob_column [[1], [2]])\<lparr>la_valid := [False, True]\<rparr>)]\<rparr>"

definition torn_env :: "nat reader_env" where
  "torn_env =
     (bag_env False)\<lparr>env_file := (bag_file False)\<lparr>f_decode :=
        Some [Inr (ArrowMsg ''rec'' (Some torn_chunk))]\<rparr>\<rparr>"

definition torn_reader :: "nat reader" where
  "torn_reader = backwards_reader\<lparr>rd_source := Some [ArrowMsg ''rec'' (Some torn_chunk)]\<rparr>"

definition torn_window :: window where
  "torn_window =
     \<lparr>w_topic = 0, w_recv = [5, 6], w_send = [5, 6], w_seq = [0, 1],
      w_blobs = Some ((blob_column [[1], [2]])\<lparr>la_valid := [False, True]\<rparr>),
      w_messages = None, w_next = 0, w_reversed = False\<rparr>"

lemma torn_loads: "load_window torn_chunk 0 (bag_topic ''/a'') = Inr (Some torn_window)"
  by (simp add: load_window_def torn_chunk_def blob_chunk_def times_def column_def bag_topic_def
      RECV_TIMESTAMP_def SEND_TIMESTAMP_def SEQUENCE_NUMBER_def raw_descriptor_def descriptor_def
      torn_window_def)

lemma torn_step:
  "rd_topics rd = [bag_topic ''/a''] \<Longrightarrow> rd_topic_index rd = [(3, 0)] \<Longrightarrow>
     scan_step rd (ArrowMsg ''rec'' (Some torn_chunk)) = Some (Inr (Some torn_window))"
  using torn_loads by (simp add: scan_step_def) (simp add: torn_chunk_def blob_chunk_def)

lemma torn_file:
  "env_file torn_env = (bag_file False)\<lparr>f_decode := Some [Inr (ArrowMsg ''rec'' (Some torn_chunk))]\<rparr>"
  "env_cdr torn_env = plain_writer"
  by (simp_all add: torn_env_def bag_env_def)

lemma torn_blob: "blob_at ((blob_column [[1], [2]])\<lparr>la_valid := [False, True]\<rparr>) 0 = None"
  by (simp add: blob_at_def list_len_def list_is_null_def)

lemma torn_summary: "summary_of (ArrowMsg ''rec'' (Some torn_chunk)) = Some \<lparr>sc_entity = 3,
    sc_components = [raw_descriptor], sc_num_rows = 2, sc_earliest = 5, sc_time_range = Some (5, 6)\<rparr>"
  by (simp add: summary_of_def scan_chunk_def torn_chunk_def blob_chunk_def times_def
      RECV_TIMESTAMP_def i64_MAX_def)

lemma torn_good: "good_window cw topics torn_window"
  by (simp add: good_window_def torn_window_def same_length_def in_range_def i64_MIN_def i64_MAX_def
      pending_def row_at_def sequence_number_def get_def upt_rec rank_def rank_time_def)

lemma torn_in_pass: "in_pass torn_env torn_reader"
proof -
  have "scan_step torn_reader (ArrowMsg ''rec'' (Some torn_chunk)) = Some (Inr (Some torn_window))"
    by (rule torn_step) (simp_all add: torn_reader_def backwards_reader_def)
  then have "playable torn_env torn_reader"
    by (simp add: playable_def scan_playable_def scan_readable_def scan_def torn_file bag_file_def
        readable_msg_def torn_good torn_summary torn_reader_def backwards_reader_def i64_MAX_def)
  moreover have "restart torn_env torn_reader = (Inr (), torn_reader)"
    by (simp add: restart_def scan_def torn_file bag_file_def torn_reader_def backwards_reader_def)
  ultimately show ?thesis using restart_pass by blast
qed

lemma torn_fails: "\<exists>rd. read_next torn_env torn_reader = (Inl (NoPayload 0), rd)"
  by (simp add: reading torn_reader_def backwards_reader_def torn_step torn_window_def torn_blob
      torn_file bag_topic_name i64_MAX_def)

end
