(* ===== verification/Failing.thy ===== *)
theory Failing
  imports Replaying
begin

text \<open>
  Reads that fail. The reader moves on in the file before it loads a chunk, so a chunk that
  fails to load is behind it afterwards; a row that cannot be encoded stays the next one.
\<close>

section \<open>Moving on in the file\<close>

text \<open>What reading on leaves alone, and that it only moves forward in the file.\<close>

definition ahead :: "'e reader \<Rightarrow> 'e reader \<Rightarrow> bool" where
  "ahead rd rd' \<longleftrightarrow>
     rd_index rd' = rd_index rd \<and> rd_topics rd' = rd_topics rd \<and> rd_topic_index rd' = rd_topic_index rd
     \<and> rd_filter rd' = rd_filter rd \<and> rd_reverse rd' = rd_reverse rd \<and> rd_cursor rd' = rd_cursor rd
     \<and> rd_at rd \<le> rd_at rd'
     \<and> (\<forall>left. rd_source rd' = Some left \<longrightarrow> (\<exists>passed. rd_source rd = Some (passed @ left)))"

text \<open>
  The chunk a failing read left behind: with an index, the one just before the position in the
  index; in a scan, one that is no longer in the source.
\<close>

definition left_behind :: "'e reader_env \<Rightarrow> 'e reader \<Rightarrow> 'e reader \<Rightarrow> error \<Rightarrow> bool" where
  "left_behind env rd rd' e \<longleftrightarrow>
     (case rd_index rd of
        Some ix \<Rightarrow>
          rd_at rd < rd_at rd' \<and> rd_at rd' \<le> length (ix_chunks ix)
          \<and> index_step env rd (ordered_chunks rd ! (rd_at rd' - 1)) = Inl e
      | None \<Rightarrow>
          (\<exists>passed msg left. rd_source rd = Some (passed @ msg # left)
             \<and> scan_step rd msg = Some (Inl e) \<and> rd_source rd' = Some left))"

lemma ahead_refl [simp]: "ahead rd rd"
  by (simp add: ahead_def)

lemma ahead_trans: "ahead rd rd' \<Longrightarrow> ahead rd' rd'' \<Longrightarrow> ahead rd rd''"
  unfolding ahead_def by (metis append.assoc le_trans option.inject)

lemma ahead_push [simp]: "ahead rd (push_window w rd') = ahead rd rd'"
  by (simp add: ahead_def push_window_def)

lemma ahead_advance: "ahead rd (advance rd i)"
  by (simp add: ahead_def advance_def Let_def)

lemma ordered_chunks_cong:
  "rd_index rd' = rd_index rd \<Longrightarrow> rd_reverse rd' = rd_reverse rd \<Longrightarrow> ordered_chunks rd' = ordered_chunks rd"
  by (simp add: ordered_chunks_def chunk_refs_def)

lemma ahead_left_behind:
  assumes "ahead rd rd1" "left_behind env rd1 rd' e"
  shows "left_behind env rd rd' e"
proof (cases "rd_index rd")
  case None
  then obtain passed msg left where chunk: "rd_source rd1 = Some (passed @ msg # left)"
    "scan_step rd1 msg = Some (Inl e)" "rd_source rd' = Some left"
    using assms by (auto simp: left_behind_def ahead_def)
  moreover obtain before where "rd_source rd = Some (before @ passed @ msg # left)"
    using assms(1) chunk(1) by (auto simp: ahead_def)
  moreover have "scan_step rd msg = scan_step rd1 msg"
    using assms(1) by (intro fun_cong [OF scan_step_cong]) (auto simp: ahead_def)
  ultimately have "rd_source rd = Some ((before @ passed) @ msg # left)
      \<and> scan_step rd msg = Some (Inl e) \<and> rd_source rd' = Some left" by simp
  with None show ?thesis unfolding left_behind_def by (simp only: option.case) blast
next
  case (Some ix)
  have "index_step env rd1 c = index_step env rd c" for c
    using assms(1) by (intro index_step_cong) (auto simp: ahead_def)
  moreover have "ordered_chunks rd1 = ordered_chunks rd"
    using assms(1) by (intro ordered_chunks_cong) (auto simp: ahead_def)
  ultimately show ?thesis using Some assms by (auto simp: left_behind_def ahead_def)
qed

section \<open>Pulling and filling\<close>

lemma pull_scan_ahead:
  assumes "pull_scan rd source = (r, rd')" "rd_source rd = None"
  shows "(\<forall>left. rd_source rd' = Some left \<longrightarrow> (\<exists>passed. source = passed @ left))
    \<and> (\<forall>e. r = Inl e \<longrightarrow> (\<exists>passed msg left. source = passed @ msg # left
         \<and> scan_step rd msg = Some (Inl e) \<and> rd_source rd' = Some left))"
  using assms
proof (induction rd source arbitrary: r rd' rule: pull_scan.induct)
  case (2 rd msg source)
  have later: ?case
    if "pull_scan rd1 source = (r, rd')" "rd_source rd1 = None" "rd_topics rd1 = rd_topics rd"
      "rd_topic_index rd1 = rd_topic_index rd"
      "(\<forall>left. rd_source rd' = Some left \<longrightarrow> (\<exists>passed. source = passed @ left))
       \<and> (\<forall>e. r = Inl e \<longrightarrow> (\<exists>passed msg left. source = passed @ msg # left
            \<and> scan_step rd1 msg = Some (Inl e) \<and> rd_source rd' = Some left))" for rd1
    using that(5) unfolding scan_step_cong [OF that(3,4)] by (metis append_Cons)
  show ?case
  proof (cases "scan_step rd msg")
    case None
    with "2.prems" have rest: "pull_scan rd source = (r, rd')" by simp
    from later [OF rest "2.prems"(2) refl refl "2.IH"(1) [OF None rest "2.prems"(2)]] show ?thesis .
  next
    case (Some loaded)
    let ?rd = "rd\<lparr>rd_next_chunk := Suc (rd_next_chunk rd)\<rparr>"
    show ?thesis
    proof (cases loaded)
      case (Inl e)
      with "2.prems" Some have "r = Inl e" "rd_source rd' = Some source" by auto
      with Some Inl show ?thesis by (metis append_Cons append_Nil option.inject sum.inject(1))
    next
      case (Inr w)
      show ?thesis
      proof (cases w)
        case None
        with "2.prems" Some Inr have rest: "pull_scan ?rd source = (r, rd')" by simp
        have "rd_source ?rd = None" using "2.prems"(2) by simp
        from later [OF rest this _ _ "2.IH"(2) [OF Some refl Inr None rest this]] show ?thesis by simp
      next
        case (Some v)
        with "2.prems" \<open>scan_step rd msg = Some loaded\<close> Inr
        have "r = Inr (Some (orient (rd_reverse rd) v))" "rd_source rd' = Some source" by auto
        then show ?thesis by (metis append_Cons append_Nil option.inject sum.distinct(1))
      qed
    qed
  qed
qed simp

lemma index_position_ordered:
  assumes "rd_index rd = Some ix" "rd_at rd < length (ix_chunks ix)"
  shows "ix_chunks ix ! index_position rd ix = ordered_chunks rd ! rd_at rd"
  using assms by (simp add: index_position_def ordered_chunks_def chunk_refs_def rev_nth)

lemma pull_indexed_left_behind:
  assumes "pull_indexed env rd = (Inl e, rd')" "rd_index rd = Some ix"
  shows "left_behind env rd rd' e"
  using assms
proof (induction env rd arbitrary: rd' rule: pull_indexed.induct)
  case (1 env rd)
  let ?rd = "rd\<lparr>rd_at := Suc (rd_at rd)\<rparr>" and ?c = "ix_chunks ix ! index_position rd ix"
  have at: "rd_at rd < length (ix_chunks ix)"
    using "1.prems" by (auto simp: pull_indexed.simps [of env rd] split: if_splits)
  show ?case
  proof (cases "index_step env rd ?c")
    case (Inl e')
    then have "e' = e" "rd' = ?rd"
      using "1.prems" at by (auto simp: pull_indexed.simps [of env rd] Let_def)
    with Inl "1.prems"(2) at index_position_ordered [OF "1.prems"(2) at] show ?thesis
      by (simp add: left_behind_def)
  next
    case (Inr w)
    with "1.prems" at have w: "w = None" and rest: "pull_indexed env ?rd = (Inl e, rd')"
      by (auto simp: pull_indexed.simps [of env rd] Let_def split: option.splits)
    have "\<not> length (ix_chunks ix) \<le> rd_at rd" using at by simp
    from "1.IH" [OF "1.prems"(2) this refl refl _ w rest] Inr "1.prems"(2)
    have "left_behind env ?rd rd' e" by simp
    moreover have "ahead rd ?rd" by (simp add: ahead_def)
    ultimately show ?thesis by (rule ahead_left_behind [rotated])
  qed
qed

lemma pull_ahead:
  assumes "pull env rd = (r, rd')"
  shows "ahead rd rd'" "r = Inl e \<Longrightarrow> left_behind env rd rd' e"
proof -
  note same = same_but_source_fields [OF pull_frame(1) [OF assms]]
  show "ahead rd rd'"
  proof (cases "rd_index rd")
    case None
    then show ?thesis
      using assms same pull_scan_ahead [of "rd\<lparr>rd_source := None\<rparr>" _ r rd']
        pull_scan_frame [of "rd\<lparr>rd_source := None\<rparr>" _ r rd']
      by (auto simp: pull_def ahead_def split: option.splits)
  next
    case (Some ix)
    then have "pull_indexed env rd = (r, rd')" using assms by (simp add: pull_def)
    with pull_indexed_frame [OF this] same show ?thesis by (auto simp: ahead_def)
  qed
  show "left_behind env rd rd' e" if "r = Inl e"
  proof (cases "rd_index rd")
    case None
    then obtain source where source: "rd_source rd = Some source"
      "pull_scan (rd\<lparr>rd_source := None\<rparr>) source = (Inl e, rd')"
      using assms \<open>r = Inl e\<close> by (auto simp: pull_def split: option.splits)
    with None pull_scan_ahead [OF source(2)] scan_step_cong [of "rd\<lparr>rd_source := None\<rparr>" rd]
    show ?thesis by (auto simp: left_behind_def)
  next
    case (Some ix)
    then show ?thesis using pull_indexed_left_behind [OF _ Some] assms that by (simp add: pull_def)
  qed
qed

lemma fill_all_ahead: "fill_all env rd = (r, rd') \<Longrightarrow> ahead rd rd' \<and> (\<forall>e. r = Inl e \<longrightarrow> left_behind env rd rd' e)"
proof (induction env rd arbitrary: r rd' rule: fill_all.induct)
  case (1 env rd)
  obtain p rd1 where pull: "pull env rd = (p, rd1)" by fastforce
  show ?case
  proof (cases "\<exists>w. p = Inr (Some w)")
    case True
    then obtain w where w: "p = Inr (Some w)" ..
    then have rest: "fill_all env (push_window w rd1) = (r, rd')"
      using "1.prems" pull by (simp add: fill_all.simps [of env rd])
    have "ahead rd (push_window w rd1)" using pull_ahead(1) [OF pull] by simp
    with "1.IH" [OF pull [symmetric] w refl rest] show ?thesis
      by (blast intro: ahead_trans ahead_left_behind)
  next
    case False
    then show ?thesis
      using "1.prems" pull_ahead [OF pull]
      by (auto simp: pull fill_all.simps [of env rd] split: sum.splits option.splits)
  qed
qed

lemma fill_loop_ahead: "fill_loop env rd = (r, rd') \<Longrightarrow> ahead rd rd' \<and> (\<forall>e. r = Inl e \<longrightarrow> left_behind env rd rd' e)"
proof (induction env rd arbitrary: r rd' rule: fill_loop.induct)
  case (1 env rd)
  obtain p rd1 where pull: "pull env rd = (p, rd1)" by fastforce
  show ?case
  proof (cases "\<not> settled rd \<and> \<not> (exhausted rd \<and> candidate rd \<noteq> None) \<and> (\<exists>w. p = Inr (Some w))")
    case True
    then obtain w where w: "p = Inr (Some w)" by blast
    then have rest: "fill_loop env (push_window w rd1) = (r, rd')"
      using "1.prems" pull True by (auto simp: fill_loop.simps [of env rd])
    have "ahead rd (push_window w rd1)" using pull_ahead(1) [OF pull] by simp
    with "1.IH" [OF _ _ pull [symmetric] w refl rest] True show ?thesis
      by (blast intro: ahead_trans ahead_left_behind)
  next
    case False
    then show ?thesis
      using "1.prems" pull_ahead [OF pull]
      by (auto simp: pull fill_loop.simps [of env rd] split: if_splits sum.splits option.splits)
  qed
qed

lemma next_row_ahead:
  assumes "next_row env rd = (r, rd')"
  shows "ahead rd rd'" "r = Inl e \<Longrightarrow> left_behind env rd rd' e"
proof -
  obtain f where "fill env rd = (f, rd')" "\<forall>e. r = Inl e \<longrightarrow> f = Inl e"
    using assms by (auto simp: next_row_def Let_def split: prod.splits sum.splits)
  then show "ahead rd rd'" "r = Inl e \<Longrightarrow> left_behind env rd rd' e"
    by (auto simp: fill_def split: if_splits dest!: fill_all_ahead fill_loop_ahead)
qed

section \<open>A read that fails\<close>

lemma read_next_fails:
  assumes "read_next env rd = (Inl e, rd')"
  shows "rd_cursor rd' = rd_cursor rd \<and> (left_behind env rd rd' e \<or> read_next env rd' = (Inl e, rd'))"
  using assms
proof (induction env rd rule: read_next.induct)
  case (1 env rd)
  obtain n rd1 where row: "next_row env rd = (n, rd1)" by fastforce
  note next_row = next_row_ahead [OF row]
  show ?case
  proof (cases "\<exists>i k. n = Inr (Some (i, k))")
    case False
    then have "n = Inl e" "rd1 = rd'"
      using "1.prems" row by (auto simp: read_next.simps [of env rd] split: sum.splits option.splits)
    with next_row show ?thesis by (auto simp: ahead_def)
  next
    case True
    then obtain i k where n: "n = Inr (Some (i, k))" by blast
    note again = next_row_twice [OF row [unfolded n]]
    show ?thesis
    proof (cases "wanted rd1 (w_topic (rd_window rd1 ! i))")
      case False
      then have rest: "read_next env (advance rd1 i) = (Inl e, rd')"
        using "1.prems" row n by (simp add: read_next.simps [of env rd])
      have "ahead rd (advance rd1 i)" using next_row(1) ahead_advance by (rule ahead_trans)
      moreover from this have "rd_cursor (advance rd1 i) = rd_cursor rd" by (simp add: ahead_def)
      ultimately show ?thesis
        using "1.IH" [OF row [symmetric] n refl refl False rest] by (auto dest: ahead_left_behind)
    next
      case True
      then have "take_row env rd1 = (Inl e, rd')"
        using "1.prems" row n
        by (auto simp: read_next.simps [of env rd] split: prod.splits sum.splits option.splits)
      moreover from this have "rd' = rd1"
        using again by (auto simp: take_row_def Let_def split: sum.splits)
      ultimately have "read_next env rd' = (Inl e, rd')"
        using True by (simp add: read_next.simps [of env rd1] again)
      then show ?thesis using next_row(1) \<open>rd' = rd1\<close> by (simp add: ahead_def)
    qed
  qed
qed

text \<open>
  C22: what a failing read costs. The cursor never moves. Either a row could not be encoded:
  then reading again reports the same failure instead of silently going on behind the row. Or
  the chunk to be read next did not load: the reader has moved on before it loads a chunk, so
  that chunk is behind it and its rows are not read any more. Inside a pass, where every
  chunk loads, only the first happens, and every wanted row that was left is left.
\<close>

theorem failed_reads:
  assumes "read_next env rd = (Inl e, rd')"
  shows "rd_cursor rd' = rd_cursor rd
    \<and> (left_behind env rd rd' e \<or> read_next env rd' = (Inl e, rd'))
    \<and> (in_pass env rd \<longrightarrow>
         wanted_rows (wanted rd') (to_deliver env rd') = wanted_rows (wanted rd) (to_deliver env rd)
         \<and> read_next env rd' = (Inl e, rd'))"
proof -
  have "wanted_rows (wanted rd') (to_deliver env rd') = wanted_rows (wanted rd) (to_deliver env rd)
      \<and> read_next env rd' = (Inl e, rd')" if pass: "in_pass env rd"
  proof -
    obtain out where step: "result_of (rd_topics rd) out = Inl e"
      "playback_step (rd_reverse rd) (wanted rd) (to_deliver env rd) out (to_deliver env rd')"
      "same_pass rd rd'" "cursor_after env rd out rd'"
      using read_pass [OF pass] assms by auto
    then have out: "out = Failed e" by (cases out) auto
    show ?thesis
      using failed_stays [OF step(2) [unfolded out]] step(4) same_pass_wanted [OF step(3)]
      by (simp add: cursor_after_def out)
  qed
  then show ?thesis using read_next_fails [OF assms] by blast
qed

section \<open>Two failures\<close>

text \<open>
  The first chunk of the sample recording cannot be read: the read fails, and the next one
  delivers from the chunk behind it.
\<close>

definition unreadable_env :: "nat reader_env" where
  "unreadable_env =
     (bag_env True)\<lparr>env_file := (bag_file True)\<lparr>f_read_chunks :=
        (\<lambda>ids. if 11 \<in> set ids then Inl (External ''torn'') else Inr (map bag_chunk ids))\<rparr>\<rparr>"

definition later_window :: window where
  "later_window =
     \<lparr>w_topic = 1, w_recv = [7, 20], w_send = [6, 19], w_seq = [1, 4], w_blobs = Some (blob_column [[3], [4]]),
      w_messages = None, w_next = 0, w_reversed = False\<rparr>"

lemma later_loads: "load_window (bag_chunk 12) 1 (bag_topic ''/b'') = Inr (Some later_window)"
  by (simp add: load_window_def bag_chunks blob_chunk_def times_def column_def bag_topic_def
      RECV_TIMESTAMP_def SEND_TIMESTAMP_def SEQUENCE_NUMBER_def raw_descriptor_def descriptor_def
      later_window_def)

lemma unreadable_index:
  "rd_index (bag_reader True) = Some bag_index" "length (ix_chunks bag_index) = 2"
  "cr_start (ix_chunks bag_index ! 0) = 5" "cr_start (ix_chunks bag_index ! Suc 0) = 7"
  by (simp_all add: bag_reader_def bag_index_def)

lemma unreadable_steps:
  assumes "rd_topics rd = [bag_topic ''/a'', bag_topic ''/b'']" "rd_topic_index rd = [(1, 0), (2, 1)]"
    "rd_filter rd = []"
  shows "index_step unreadable_env rd (ix_chunks bag_index ! 0) = Inl (External ''torn'')"
    "index_step unreadable_env rd (ix_chunks bag_index ! Suc 0) = Inr (Some later_window)"
  using assms later_loads
  by (simp_all add: index_step_def wanted_def bag_index_def unreadable_env_def index_load_def)

lemma unreadable_fails:
  "read_next unreadable_env (bag_reader True) = (Inl (External ''torn''), (bag_reader True)\<lparr>rd_at := 1\<rparr>)"
  using unreadable_steps [of "bag_reader True"] unreadable_index
  by (simp add: bag_reader_def read_next.simps next_row_def fill_def fill_loop.simps settled_def
      candidate_def exhausted_def earliest_unread_def pull_def pull_indexed.simps index_position_def i64_MAX_def Let_def)

lemma later_blob: "blob_at (blob_column [[3], [4]]) 0 = Some [3]"
  by (simp add: blob_at_def blob_column_def list_len_def list_is_null_def list_value_def)

lemma unreadable_goes_on:
  "\<exists>m rd'. read_next unreadable_env ((bag_reader True)\<lparr>rd_at := 1\<rparr>) = (Inr (Some m), rd') \<and> msg_topic_name m = ''/b''"
  using unreadable_steps unreadable_index
  by (simp add: reading bag_reader_def pull_indexed.simps index_position_def i64_MAX_def later_window_def
      later_blob bag_topic_name)

theorem failed_reads_witness:
  "(\<exists>rd. read_next torn_env torn_reader = (Inl (NoPayload 0), rd)
      \<and> read_next torn_env rd = (Inl (NoPayload 0), rd))
   \<and> (let rd = (bag_reader True)\<lparr>rd_at := 1\<rparr>
      in read_next unreadable_env (bag_reader True) = (Inl (External ''torn''), rd)
         \<and> left_behind unreadable_env (bag_reader True) rd (External ''torn'')
         \<and> (\<exists>m rd'. read_next unreadable_env rd = (Inr (Some m), rd') \<and> msg_topic_name m = ''/b''))"
proof
  show "\<exists>rd. read_next torn_env torn_reader = (Inl (NoPayload 0), rd)
      \<and> read_next torn_env rd = (Inl (NoPayload 0), rd)"
    using torn_fails failed_reads torn_in_pass by blast
  have "read_next unreadable_env ((bag_reader True)\<lparr>rd_at := 1\<rparr>) \<noteq> (Inl e, rd)" for e rd
    using unreadable_goes_on by auto
  then have "left_behind unreadable_env (bag_reader True) ((bag_reader True)\<lparr>rd_at := 1\<rparr>) (External ''torn'')"
    using failed_reads [OF unreadable_fails] by simp
  with unreadable_fails unreadable_goes_on show "let rd = (bag_reader True)\<lparr>rd_at := 1\<rparr>
      in read_next unreadable_env (bag_reader True) = (Inl (External ''torn''), rd)
         \<and> left_behind unreadable_env (bag_reader True) rd (External ''torn'')
         \<and> (\<exists>m rd'. read_next unreadable_env rd = (Inr (Some m), rd') \<and> msg_topic_name m = ''/b'')"
    by (simp add: Let_def)
qed

end
