(* ===== verification/Pipeline.thy ===== *)
theory Pipeline
  imports Config Statics Replay
begin

text \<open>
  \<open>pipeline.rs\<close>: how one topic's messages become chunks. A message is one row, and each
  form the recording keeps of it, the raw bytes and the reflected struct, is a column that
  is null where the message lacks the form. The libraries are the record \<open>pipeline_env\<close>:
  the CDR decoder, the Arrow builders and the take kernel, the chunk constructor and the
  lenses; what the code relies on of them is stated as laws below.
\<close>

section \<open>The libraries\<close>

text \<open>
  \<open>CdrArrowDecoder::decode_message\<close> decodes a row, cancels it, or reports that its builders
  could not be returned to a row boundary.
\<close>

datatype decoding = Decoded | Cancelled | Unrecoverable

datatype output_mode = ForwardAll | ForwardUnmatched | DropUnmatched

record ('e, 'd) pipeline_env =
  pe_archetype_ok :: "string \<Rightarrow> bool"
  pe_separator :: "string \<Rightarrow> bool"
  pe_plan :: "string \<Rightarrow> string \<Rightarrow> plan option"
  pe_decoder :: "plan \<Rightarrow> 'd"
  pe_decode :: "'d \<Rightarrow> bytes \<Rightarrow> decoding \<times> 'd"
  pe_finish :: "'d \<Rightarrow> list_array \<times> 'd"
  pe_stamps :: "plan \<Rightarrow> list_array \<Rightarrow> int list option"
  pe_take :: "list_array \<Rightarrow> usize option list \<Rightarrow> list_array option result"
  pe_blobs :: "bytes option list \<Rightarrow> list_array"
  pe_chunk :: "'e chunk_builder"
  pe_lenses :: "output_mode \<Rightarrow> 'e chunk \<Rightarrow> (nat \<times> 'e chunk option + 'e chunk) list"
  pe_inputs :: "string list result"

section \<open>State\<close>

record times_buffer =
  tb_recv :: "i64 list"
  tb_send :: "i64 list"
  tb_sequence :: "i64 list"

text \<open>The blob builder is the list of what was appended to it, a blob or a null per row.\<close>

record rows_buffer =
  rb_times :: times_buffer
  rb_blobs :: "bytes option list"
  rb_blob_rows :: usize
  rb_decoded :: "bool list"

record 'd reflection =
  rf_plan :: plan
  rf_decoder :: 'd
  rf_descriptor :: string

record lens_set =
  ls_mode :: output_mode
  ls_inputs :: "string set"
  ls_keeps_unmatched :: bool

record ('e, 'd) pipeline =
  pl_entity :: 'e
  pl_keep_raw :: bool
  pl_reflection :: "'d reflection option"
  pl_rows :: rows_buffer
  pl_lenses :: "lens_set option"
  pl_stored :: representations
  pl_bytes :: usize

text \<open>
  What the pipeline logs. The events of an operation are a function beside it: \<open>new_events\<close>,
  \<open>push_events\<close> and \<open>flush_events\<close>, which the topic appends to the log where it calls the operation.
\<close>

datatype pipeline_event = WillBeRaw error | KeptRaw | RawFromHere usize | LensFailed

section \<open>Rows\<close>

definition times_push :: "i64 \<Rightarrow> i64 \<Rightarrow> i64 \<Rightarrow> times_buffer \<Rightarrow> times_buffer" where
  "times_push recv send sequence t =
     t\<lparr>tb_recv := tb_recv t @ [recv], tb_send := tb_send t @ [send],
       tb_sequence := tb_sequence t @ [sequence]\<rparr>"

definition times_columns :: "times_buffer \<Rightarrow> (string \<times> i64 list) list" where
  "times_columns t =
     [(RECV_TIMESTAMP, tb_recv t), (SEND_TIMESTAMP, tb_send t), (SEQUENCE_NUMBER, tb_sequence t)]"

definition no_rows :: rows_buffer where
  "no_rows = \<lparr>rb_times = \<lparr>tb_recv = [], tb_send = [], tb_sequence = []\<rparr>, rb_blobs = [],
              rb_blob_rows = 0, rb_decoded = []\<rparr>"

definition rows_len :: "rows_buffer \<Rightarrow> usize" where
  "rows_len r = length (tb_recv (rb_times r))"

definition rows_push ::
  "bytes option \<Rightarrow> bool \<Rightarrow> i64 \<Rightarrow> i64 \<Rightarrow> i64 \<Rightarrow> rows_buffer \<Rightarrow> rows_buffer" where
  "rows_push blob decoded recv send sequence r =
     r\<lparr>rb_times := times_push recv send sequence (rb_times r),
       rb_decoded := rb_decoded r @ [decoded],
       rb_blobs := rb_blobs r @ [blob],
       rb_blob_rows := (if blob = None then rb_blob_rows r else Suc (rb_blob_rows r))\<rparr>"

section \<open>Preparing a topic\<close>

definition new_reflection ::
  "('e, 'd) pipeline_env \<Rightarrow> string \<Rightarrow> string \<Rightarrow> bytes \<Rightarrow> 'd reflection result" where
  "new_reflection env type_name schema_encoding schema_text =
     (if schema_encoding \<noteq> REFLECTABLE_ENCODING then Inl (NotReflectable ''schema encoding'')
      else (case from_utf8 schema_text of
              None \<Rightarrow> Inl NotUtf8
            | Some text \<Rightarrow>
                if blank text then Inl (NotReflectable ''message definition is empty'')
                else if (case List.find (\<lambda>l. \<not> blank l) (str_lines text) of
                           None \<Rightarrow> False
                         | Some line \<Rightarrow> pe_separator env line)
                then Inl (NotReflectable ''definition is a delimited interface'')
                else (case pe_plan env type_name text of
                        None \<Rightarrow> Inl (NotReflectable ''failed to parse'')
                      | Some plan \<Rightarrow>
                          (case reflected_descriptor (pe_archetype_ok env) type_name of
                             Inl e \<Rightarrow> Inl e
                           | Inr d \<Rightarrow>
                               Inr \<lparr>rf_plan = plan, rf_decoder = pe_decoder env plan,
                                    rf_descriptor = d\<rparr>))))"

definition matches :: "lens_set \<Rightarrow> string \<Rightarrow> bool" where
  "matches ls reflected \<longleftrightarrow> reflected \<in> ls_inputs ls"

definition stored ::
  "representations \<Rightarrow> 'd reflection option \<Rightarrow> lens_set option \<Rightarrow> representations" where
  "stored asked reflection lenses =
     (case reflection of
        None \<Rightarrow> {Raw}
      | Some rf \<Rightarrow>
          (let s = {};
               s = (if Raw \<in> asked then insert Raw s else s);
               s = (if Reflected \<in> asked then insert Reflected s else s)
           in (case lenses of
                 None \<Rightarrow> s
               | Some ls \<Rightarrow>
                   if matches ls (rf_descriptor rf) then insert Lenses s
                   else if ls_keeps_unmatched ls then insert Reflected s
                   else s)))"

definition new_pipeline ::
  "('e, 'd) pipeline_env \<Rightarrow> 'e \<Rightarrow> representations \<Rightarrow> string \<Rightarrow> string \<Rightarrow> bytes
   \<Rightarrow> lens_set option \<Rightarrow> ('e, 'd) pipeline" where
  "new_pipeline env entity asked type_name schema_encoding schema_text lenses =
     (let needs_reflection = (Reflected \<in> asked \<or> Lenses \<in> asked);
          reflection =
            (if needs_reflection
             then (case new_reflection env type_name schema_encoding schema_text of
                     Inl _ \<Rightarrow> None | Inr rf \<Rightarrow> Some rf)
             else None)
      in \<lparr>pl_entity = entity, pl_keep_raw = (Raw \<in> asked), pl_reflection = reflection,
          pl_rows = no_rows, pl_lenses = lenses, pl_stored = stored asked reflection lenses,
          pl_bytes = 0\<rparr>)"

definition new_events ::
  "('e, 'd) pipeline_env \<Rightarrow> representations \<Rightarrow> string \<Rightarrow> string \<Rightarrow> bytes \<Rightarrow> pipeline_event list"
where
  "new_events env asked type_name schema_encoding schema_text =
     (if Reflected \<in> asked \<or> Lenses \<in> asked
      then (case new_reflection env type_name schema_encoding schema_text of
              Inl e \<Rightarrow> [WillBeRaw e] | Inr rf \<Rightarrow> [])
      else [])"

definition is_replayable :: "('e, 'd) pipeline \<Rightarrow> bool" where
  "is_replayable p \<longleftrightarrow> Raw \<in> pl_stored p \<or> Reflected \<in> pl_stored p"

definition records_nothing :: "('e, 'd) pipeline \<Rightarrow> bool" where
  "records_nothing p \<longleftrightarrow> pl_stored p = {}"

definition pipeline_len :: "('e, 'd) pipeline \<Rightarrow> usize" where
  "pipeline_len p = rows_len (pl_rows p)"

definition lenses_for ::
  "('e, 'd) pipeline_env \<Rightarrow> representations \<Rightarrow> unmatched \<Rightarrow> lens_set option result" where
  "lenses_for env asked when_unmatched =
     (if Lenses \<notin> asked then Inr None
      else
        (let mode = (if Reflected \<in> asked then ForwardAll
                     else (case when_unmatched of Keep \<Rightarrow> ForwardUnmatched | Drop \<Rightarrow> DropUnmatched))
         in (case pe_inputs env of
               Inl e \<Rightarrow> Inl e
             | Inr inputs \<Rightarrow>
                 Inr (Some \<lparr>ls_mode = mode, ls_inputs = set inputs,
                            ls_keeps_unmatched = (mode \<noteq> DropUnmatched)\<rparr>))))"

section \<open>Messages in\<close>

text \<open>
  The match of \<open>push\<close> on the decoder's answer: whether the row is decoded, and the pipeline
  after it. An unrecoverable decoder takes its rows with it; without raw copies the rows
  buffered alongside go too.
\<close>

definition decode_row :: "('e, 'd) pipeline_env \<Rightarrow> bytes \<Rightarrow> ('e, 'd) pipeline \<Rightarrow> bool \<times> ('e, 'd) pipeline"
where
  "decode_row env cdr p =
     (case pl_reflection p of
        None \<Rightarrow> (False, p)
      | Some rf \<Rightarrow>
          (case pe_decode env (rf_decoder rf) cdr of
             (Decoded, d) \<Rightarrow> (True, p\<lparr>pl_reflection := Some (rf\<lparr>rf_decoder := d\<rparr>)\<rparr>)
           | (Cancelled, d) \<Rightarrow> (False, p\<lparr>pl_reflection := Some (rf\<lparr>rf_decoder := d\<rparr>)\<rparr>)
           | (Unrecoverable, d) \<Rightarrow>
               (False,
                (if pl_keep_raw p then p\<lparr>pl_reflection := None\<rparr>
                 else p\<lparr>pl_reflection := None, pl_bytes := 0, pl_rows := no_rows\<rparr>))))"

definition push_events :: "('e, 'd) pipeline_env \<Rightarrow> bytes \<Rightarrow> ('e, 'd) pipeline \<Rightarrow> pipeline_event list"
where
  "push_events env cdr p =
     (case pl_reflection p of
        None \<Rightarrow> []
      | Some rf \<Rightarrow>
          (case fst (pe_decode env (rf_decoder rf) cdr) of
             Decoded \<Rightarrow> []
           | Cancelled \<Rightarrow> [KeptRaw]
           | Unrecoverable \<Rightarrow>
               [RawFromHere (if pl_keep_raw p then 0 else rows_len (pl_rows p))]))"

definition pipeline_push ::
  "('e, 'd) pipeline_env \<Rightarrow> bytes \<Rightarrow> i64 \<Rightarrow> i64 \<Rightarrow> i64 \<Rightarrow> ('e, 'd) pipeline \<Rightarrow> ('e, 'd) pipeline"
where
  "pipeline_push env cdr recv send sequence p =
     (case decode_row env cdr p of
        (decoded, p) \<Rightarrow>
          (let blob = (if pl_keep_raw p \<or> \<not> decoded then Some cdr else None)
           in p\<lparr>pl_rows := rows_push blob decoded recv send sequence (pl_rows p),
                pl_bytes := wrap_u64 (pl_bytes p + length cdr)\<rparr>))"

section \<open>Chunks out\<close>

text \<open>The indices \<open>scatter\<close> gathers by: a \<open>u32\<close> counter over the decoded rows.\<close>

fun scatter_indices :: "nat \<Rightarrow> bool list \<Rightarrow> usize option list" where
  "scatter_indices n [] = []"
| "scatter_indices n (decoded # rest) =
     (if decoded then Some n # scatter_indices ((n + 1) mod 2 ^ 32) rest
      else None # scatter_indices n rest)"

definition scatter :: "('e, 'd) pipeline_env \<Rightarrow> list_array \<Rightarrow> bool list \<Rightarrow> list_array result" where
  "scatter env dense decoded =
     (if list_all id decoded then Inr dense
      else (case pe_take env dense (scatter_indices 0 decoded) of
              Inl e \<Rightarrow> Inl e
            | Inr None \<Rightarrow> Inl (Downcast ''fixed_size_list'')
            | Inr (Some scattered) \<Rightarrow> Inr scattered))"

text \<open>\<open>nanos.into_iter().map(..).collect()\<close>: no stamps at all when one does not fit.\<close>

definition header_stamps :: "('e, 'd) pipeline_env \<Rightarrow> plan \<Rightarrow> list_array \<Rightarrow> i64 list option" where
  "header_stamps env plan messages =
     (case pe_stamps env plan messages of
        None \<Rightarrow> None
      | Some nanos \<Rightarrow>
          if list_all (\<lambda>n. i64_MIN \<le> n \<and> n \<le> i64_MAX) nanos then Some nanos else None)"

text \<open>Collecting columns into a map keyed by name: a later column replaces an earlier one.\<close>

fun timelines :: "(string \<times> 'v) list \<Rightarrow> (string \<times> 'v) list" where
  "timelines [] = []"
| "timelines (c # cs) =
     (if fst c \<in> fst ` set cs then timelines cs else c # timelines cs)"

text \<open>
  The struct column of a chunk, if the decoder holds any row: the time column it may add,
  the column itself, and the decoder emptied.
\<close>

definition struct_column ::
  "('e, 'd) pipeline_env \<Rightarrow> 'd reflection \<Rightarrow> bool list
   \<Rightarrow> ((string \<times> i64 list) list \<times> (string \<times> list_array) list) result \<times> 'd reflection" where
  "struct_column env rf decoded =
     (case pe_finish env (rf_decoder rf) of
        (messages, d) \<Rightarrow>
          (let rf' = rf\<lparr>rf_decoder := d\<rparr>
           in if list_len messages = 0 then (Inr ([], []), rf')
              else
                (let stamps =
                       (if list_all id decoded
                        then (case header_stamps env (rf_plan rf) messages of
                                None \<Rightarrow> [] | Some stamps \<Rightarrow> [(HEADER_STAMP, stamps)])
                        else [])
                 in (case scatter env messages decoded of
                       Inl e \<Rightarrow> (Inl e, rf')
                     | Inr messages \<Rightarrow> (Inr (stamps, [(rf_descriptor rf, messages)]), rf')))))"

definition pipeline_take ::
  "('e, 'd) pipeline_env \<Rightarrow> ('e, 'd) pipeline \<Rightarrow> 'e chunk option result \<times> ('e, 'd) pipeline" where
  "pipeline_take env p =
     (if rows_len (pl_rows p) = 0 then (Inr None, p)
      else
        (let rows = pl_rows p;
             p = p\<lparr>pl_rows := no_rows, pl_bytes := 0\<rparr>;
             blobs = (if rb_blob_rows rows > 0 then [(raw_descriptor, pe_blobs env (rb_blobs rows))]
                      else []);
             structs =
               (case pl_reflection p of
                  None \<Rightarrow> (Inr ([], []), None)
                | Some rf \<Rightarrow> map_prod id Some (struct_column env rf (rb_decoded rows)));
             p = p\<lparr>pl_reflection := snd structs\<rparr>
         in (case fst structs of
               Inl e \<Rightarrow> (Inl e, p)
             | Inr (stamps, messages) \<Rightarrow>
                 (case pe_chunk env (pl_entity p) (timelines (times_columns (rb_times rows) @ stamps))
                         (timelines (blobs @ messages)) of
                    Inl e \<Rightarrow> (Inl e, p)
                  | Inr chunk \<Rightarrow> (Inr (Some chunk), p)))))"

text \<open>
  A lens that fails returns its errors and what it derived before: each error is logged, and
  the partial chunk is still recorded.
\<close>

definition apply_lenses :: "('e, 'd) pipeline_env \<Rightarrow> ('e, 'd) pipeline \<Rightarrow> 'e chunk \<Rightarrow> 'e chunk list" where
  "apply_lenses env p chunk =
     (case pl_lenses p of
        None \<Rightarrow> [chunk]
      | Some ls \<Rightarrow>
          filter_map (\<lambda>r. case r of Inr c \<Rightarrow> Some c | Inl partial \<Rightarrow> snd partial)
            (pe_lenses env (ls_mode ls) chunk))"

definition lens_events :: "('e, 'd) pipeline_env \<Rightarrow> ('e, 'd) pipeline \<Rightarrow> 'e chunk \<Rightarrow> pipeline_event list"
where
  "lens_events env p chunk =
     (case pl_lenses p of
        None \<Rightarrow> []
      | Some ls \<Rightarrow>
          concat (map (\<lambda>r. case r of Inr c \<Rightarrow> [] | Inl partial \<Rightarrow> replicate (fst partial) LensFailed)
            (pe_lenses env (ls_mode ls) chunk)))"

definition pipeline_flush ::
  "('e, 'd) pipeline_env \<Rightarrow> ('e, 'd) pipeline \<Rightarrow> 'e chunk list result \<times> ('e, 'd) pipeline" where
  "pipeline_flush env p =
     (case pipeline_take env p of
        (Inl e, p) \<Rightarrow> (Inl e, p)
      | (Inr None, p) \<Rightarrow> (Inr [], p)
      | (Inr (Some chunk), p) \<Rightarrow> (Inr (apply_lenses env p chunk), p))"

definition flush_events :: "('e, 'd) pipeline_env \<Rightarrow> ('e, 'd) pipeline \<Rightarrow> pipeline_event list" where
  "flush_events env p =
     (case pipeline_take env p of
        (Inr (Some chunk), p) \<Rightarrow> lens_events env p chunk
      | _ \<Rightarrow> [])"

end
