(* ===== verification/Flushing.thy ===== *)
theory Flushing
  imports Pipeline
begin

text \<open>
  What a pipeline holds and what a flush delivers. The columns of the buffer and the rows
  inside the decoder are related to the list of messages that were pushed; every operation
  keeps the relation, and taking the rows out turns the list into the rows of one chunk.
\<close>

section \<open>What the libraries do\<close>

text \<open>
  For the plan of a topic, \<open>held d vs\<close> says that a decoder of the plan has the rows \<open>vs\<close>, each
  the value \<open>val\<close> of the bytes it was decoded from; \<open>rows a\<close> are the logical rows of an array,
  null or a value. The laws say that a decoded row is appended and a cancelled one is not,
  that finishing returns the rows and empties the decoder, that \<open>take\<close> gathers, that the
  blob builder returns what was appended and that \<open>Chunk\<close> is built of columns that cover the
  same rows.
\<close>

definition decodes_rows ::
  "('e, 'd) pipeline_env \<Rightarrow> plan \<Rightarrow> ('d \<Rightarrow> 'v list \<Rightarrow> bool) \<Rightarrow> (bytes \<Rightarrow> 'v) \<Rightarrow> bool" where
  "decodes_rows env plan held val \<longleftrightarrow>
     held (pe_decoder env plan) []
     \<and> (\<forall>d vs cdr d'. held d vs \<longrightarrow> pe_decode env d cdr = (Decoded, d') \<longrightarrow> held d' (vs @ [val cdr]))
     \<and> (\<forall>d vs cdr d'. held d vs \<longrightarrow> pe_decode env d cdr = (Cancelled, d') \<longrightarrow> held d' vs)"

definition finishes_rows ::
  "('e, 'd) pipeline_env \<Rightarrow> ('d \<Rightarrow> 'v list \<Rightarrow> bool) \<Rightarrow> (list_array \<Rightarrow> 'v option list) \<Rightarrow> bool" where
  "finishes_rows env held rows \<longleftrightarrow>
     (\<forall>d vs. held d vs \<longrightarrow>
        rows (fst (pe_finish env d)) = map Some vs \<and> held (snd (pe_finish env d)) [])"

definition takes_rows :: "('e, 'd) pipeline_env \<Rightarrow> (list_array \<Rightarrow> 'v option list) \<Rightarrow> bool" where
  "takes_rows env rows \<longleftrightarrow>
     (\<forall>dense indices. (\<forall>j. Some j \<in> set indices \<longrightarrow> j < list_len dense) \<longrightarrow>
        (\<exists>a. pe_take env dense indices = Inr (Some a)
           \<and> rows a = map (\<lambda>x. case x of None \<Rightarrow> None | Some j \<Rightarrow> rows dense ! j) indices))"

definition builds_blobs :: "('e, 'd) pipeline_env \<Rightarrow> bool" where
  "builds_blobs env \<longleftrightarrow>
     (\<forall>bs. list_len (pe_blobs env bs) = length bs
        \<and> (\<forall>i < length bs. blob_at (pe_blobs env bs) i = bs ! i))"

definition stamps_rows :: "('e, 'd) pipeline_env \<Rightarrow> bool" where
  "stamps_rows env \<longleftrightarrow>
     (\<forall>plan a stamps. pe_stamps env plan a = Some stamps \<longrightarrow> length stamps = list_len a)"

definition lawful ::
  "('e, 'd) pipeline_env \<Rightarrow> plan \<Rightarrow> ('d \<Rightarrow> 'v list \<Rightarrow> bool) \<Rightarrow> (bytes \<Rightarrow> 'v)
   \<Rightarrow> (list_array \<Rightarrow> 'v option list) \<Rightarrow> bool"
where
  "lawful env plan held val rows \<longleftrightarrow>
     decodes_rows env plan held val \<and> finishes_rows env held rows \<and> takes_rows env rows
     \<and> builds_blobs env \<and> stamps_rows env \<and> builds_chunks (pe_chunk env)
     \<and> (\<forall>a. length (rows a) = list_len a)"

section \<open>The messages a pipeline holds\<close>

record incoming =
  in_cdr :: bytes
  in_recv :: i64
  in_send :: i64
  in_sequence :: i64

abbreviation push_message ::
  "('e, 'd) pipeline_env \<Rightarrow> incoming \<Rightarrow> ('e, 'd) pipeline \<Rightarrow> ('e, 'd) pipeline" where
  "push_message env m \<equiv> pipeline_push env (in_cdr m) (in_recv m) (in_send m) (in_sequence m)"

text \<open>The forms a message is kept in: its bytes, its struct, or both, never neither.\<close>

definition blob_form :: "bool \<Rightarrow> incoming \<times> bool \<Rightarrow> bytes option" where
  "blob_form keep_raw md = (if keep_raw \<or> \<not> snd md then Some (in_cdr (fst md)) else None)"

definition struct_form :: "(bytes \<Rightarrow> 'v) \<Rightarrow> incoming \<times> bool \<Rightarrow> 'v option" where
  "struct_form val md = (if snd md then Some (val (in_cdr (fst md))) else None)"

lemma form_kept: "blob_form keep_raw md \<noteq> None \<or> struct_form val md \<noteq> None"
  by (simp add: blob_form_def struct_form_def)

definition holds ::
  "('d \<Rightarrow> 'v list \<Rightarrow> bool) \<Rightarrow> (bytes \<Rightarrow> 'v) \<Rightarrow> ('e, 'd) pipeline \<Rightarrow> incoming list \<Rightarrow> bool" where
  "holds held val p ms \<longleftrightarrow>
     (let r = pl_rows p; mds = zip ms (rb_decoded r)
      in length (rb_decoded r) = length ms
         \<and> tb_recv (rb_times r) = map in_recv ms
         \<and> tb_send (rb_times r) = map in_send ms
         \<and> tb_sequence (rb_times r) = map in_sequence ms
         \<and> rb_blobs r = map (blob_form (pl_keep_raw p)) mds
         \<and> rb_blob_rows r = length (filter_map id (rb_blobs r))
         \<and> pl_bytes p = wrap_u64 (sum_list (map (length \<circ> in_cdr) ms))
         \<and> (case pl_reflection p of
              None \<Rightarrow> pl_keep_raw p \<or> \<not> list_ex id (rb_decoded r)
            | Some rf \<Rightarrow> held (rf_decoder rf) (filter_map (struct_form val) mds)))"

text \<open>Where the decoder breaks and no raw copies are kept, the rows buffered before go.\<close>

definition breaks :: "('e, 'd) pipeline_env \<Rightarrow> ('e, 'd) pipeline \<Rightarrow> bytes \<Rightarrow> bool" where
  "breaks env p cdr =
     (case pl_reflection p of
        None \<Rightarrow> False
      | Some rf \<Rightarrow> fst (pe_decode env (rf_decoder rf) cdr) = Unrecoverable)"

definition after_push ::
  "('e, 'd) pipeline_env \<Rightarrow> ('e, 'd) pipeline \<Rightarrow> incoming list \<Rightarrow> incoming \<Rightarrow> incoming list" where
  "after_push env p ms m =
     (if breaks env p (in_cdr m) \<and> \<not> pl_keep_raw p then [m] else ms @ [m])"

lemma no_rows_simps [simp]:
  "tb_recv (rb_times no_rows) = []" "tb_send (rb_times no_rows) = []"
  "tb_sequence (rb_times no_rows) = []" "rb_blobs no_rows = []" "rb_blob_rows no_rows = 0"
  "rb_decoded no_rows = []" "rows_len no_rows = 0"
  by (simp_all add: no_rows_def rows_len_def)

lemma wrap_u64_0 [simp]: "wrap_u64 0 = 0"
  by (simp add: wrap_u64_def)

lemma wrap_u64_sum: "wrap_u64 (wrap_u64 a + b) = wrap_u64 (a + b)"
  using wrap_u64_add [of 0 a b] by simp

lemma holds_length: "holds held val p ms \<Longrightarrow> pipeline_len p = length ms"
  by (simp add: holds_def pipeline_len_def rows_len_def Let_def)

lemma holds_empty:
  assumes "pl_rows p = no_rows" "pl_bytes p = 0"
    and "\<And>rf. pl_reflection p = Some rf \<Longrightarrow> held (rf_decoder rf) []"
  shows "holds held val p []"
  using assms by (simp add: holds_def split: option.split)

lemma new_reflection_decoder:
  "new_reflection env type_name enc text = Inr rf \<Longrightarrow> rf_decoder rf = pe_decoder env (rf_plan rf)"
  by (auto simp: new_reflection_def split: if_splits option.splits sum.splits)

text \<open>The plan of a topic's reflection, where it has one.\<close>

definition follows_plan :: "plan \<Rightarrow> ('e, 'd) pipeline \<Rightarrow> bool" where
  "follows_plan plan p \<longleftrightarrow> (\<forall>rf. pl_reflection p = Some rf \<longrightarrow> rf_plan rf = plan)"

lemma new_pipeline_holds:
  assumes "decodes_rows env plan held val"
    and "follows_plan plan (new_pipeline env entity asked type_name enc text lenses)"
  shows "holds held val (new_pipeline env entity asked type_name enc text lenses) []"
  using assms
  by (intro holds_empty)
    (auto simp: new_pipeline_def decodes_rows_def follows_plan_def Let_def dest!: new_reflection_decoder
      split: if_splits sum.splits)

lemma push_row:
  "rb_times (rows_push blob decoded recv send sequence r) =
     times_push recv send sequence (rb_times r)"
  "rb_decoded (rows_push blob decoded recv send sequence r) = rb_decoded r @ [decoded]"
  "rb_blobs (rows_push blob decoded recv send sequence r) = rb_blobs r @ [blob]"
  "rb_blob_rows (rows_push blob decoded recv send sequence r) =
     (if blob = None then rb_blob_rows r else Suc (rb_blob_rows r))"
  "tb_recv (times_push recv send sequence t) = tb_recv t @ [recv]"
  "tb_send (times_push recv send sequence t) = tb_send t @ [send]"
  "tb_sequence (times_push recv send sequence t) = tb_sequence t @ [sequence]"
  by (simp_all add: rows_push_def times_push_def)

lemma push_holds_row:
  assumes "holds held val p ms"
    and "pl_keep_raw p' = pl_keep_raw p"
    and "pl_rows p' = rows_push (blob_form (pl_keep_raw p) (m, decoded)) decoded
           (in_recv m) (in_send m) (in_sequence m) (pl_rows p)"
    and "pl_bytes p' = wrap_u64 (pl_bytes p + length (in_cdr m))"
    and "case pl_reflection p' of
           None \<Rightarrow> pl_keep_raw p \<or> \<not> list_ex id (rb_decoded (pl_rows p)) \<and> \<not> decoded
         | Some rf' \<Rightarrow> held (rf_decoder rf')
             (filter_map (struct_form val) (zip ms (rb_decoded (pl_rows p)) @ [(m, decoded)]))"
  shows "holds held val p' (ms @ [m])"
  using assms
  by (auto simp: holds_def Let_def push_row wrap_u64_sum list_ex_append
      split: option.splits)

section \<open>Pushing\<close>

lemma push_unreflected:
  assumes "holds held val p ms" "pl_reflection p = None"
  shows "holds held val (push_message env m p) (ms @ [m])"
  by (rule push_holds_row [OF assms(1), where decoded = False])
    (use assms in \<open>auto simp: pipeline_push_def decode_row_def Let_def blob_form_def holds_def\<close>)

lemma push_reflected:
  assumes "decodes_rows env plan held val" "holds held val p ms" "pl_reflection p = Some rf"
    and "pe_decode env (rf_decoder rf) (in_cdr m) = (answer, d)" "answer \<noteq> Unrecoverable"
  shows "holds held val (push_message env m p) (ms @ [m])"
proof (rule push_holds_row [OF assms(2), where decoded = "answer = Decoded"])
  have "held (rf_decoder rf) (filter_map (struct_form val) (zip ms (rb_decoded (pl_rows p))))"
    "length (rb_decoded (pl_rows p)) = length ms"
    using assms(2,3) by (simp_all add: holds_def Let_def)
  then have "held d (filter_map (struct_form val) (zip ms (rb_decoded (pl_rows p)))
      @ (if answer = Decoded then [val (in_cdr m)] else []))"
    using assms(1,4,5) by (cases answer) (auto simp: decodes_rows_def)
  then show "case pl_reflection (push_message env m p) of
       None \<Rightarrow> pl_keep_raw p \<or> \<not> list_ex id (rb_decoded (pl_rows p)) \<and> answer \<noteq> Decoded
     | Some rf' \<Rightarrow> held (rf_decoder rf') (filter_map (struct_form val)
           (zip ms (rb_decoded (pl_rows p)) @ [(m, answer = Decoded)]))"
    using assms(3-5)
    by (cases answer)
      (auto simp: pipeline_push_def decode_row_def Let_def struct_form_def)
qed (use assms(3-5) in \<open>cases answer;
      auto simp: pipeline_push_def decode_row_def Let_def blob_form_def\<close>)+

lemma push_broken:
  assumes "holds held val p ms" "breaks env p (in_cdr m)"
  shows "holds held val (push_message env m p) (after_push env p ms m)"
    "pl_reflection (push_message env m p) = None"
proof -
  obtain rf d where rf: "pl_reflection p = Some rf"
    "pe_decode env (rf_decoder rf) (in_cdr m) = (Unrecoverable, d)"
    using assms(2) by (cases "pl_reflection p") (auto simp: breaks_def prod_eq_iff)
  let ?q = "if pl_keep_raw p then p\<lparr>pl_reflection := None\<rparr>
      else p\<lparr>pl_reflection := None, pl_bytes := 0, pl_rows := no_rows\<rparr>"
  have same: "push_message env m p = push_message env m ?q"
    by (simp add: pipeline_push_def decode_row_def rf)
  show "pl_reflection (push_message env m p) = None"
    by (simp add: pipeline_push_def decode_row_def rf Let_def)
  have "holds held val ?q (if pl_keep_raw p then ms else [])"
    using assms(1) by (auto simp: holds_def Let_def)
  from push_unreflected [OF this, of env m] show
    "holds held val (push_message env m p) (after_push env p ms m)"
    using assms(2) unfolding same by (cases "pl_keep_raw p") (simp_all add: after_push_def)
qed

lemma push_holds:
  assumes "decodes_rows env plan held val" "holds held val p ms"
  shows "holds held val (push_message env m p) (after_push env p ms m)"
proof (cases "breaks env p (in_cdr m)")
  case True
  then show ?thesis using push_broken [OF assms(2)] by simp
next
  case False
  then show ?thesis
    using push_unreflected [OF assms(2)] push_reflected [OF assms]
    by (cases "pl_reflection p")
      (auto simp: after_push_def breaks_def split_beta prod_eq_iff intro: prod.collapse [symmetric])
qed

section \<open>Taking the rows out\<close>

text \<open>Gathering by \<open>scatter_indices\<close> puts the values back at their rows.\<close>

fun spread :: "bool list \<Rightarrow> 'v list \<Rightarrow> 'v option list" where
  "spread [] vs = []"
| "spread (decoded # ds) vs =
     (if decoded then Some (hd vs) # spread ds (tl vs) else None # spread ds vs)"

lemma spread_forms:
  "length ds = length ms \<Longrightarrow>
     spread ds (filter_map (struct_form val) (zip ms ds)) = map (struct_form val) (zip ms ds)"
  by (induction ms ds rule: list_induct2') (auto simp: struct_form_def)

lemma scatter_indices_none: "\<forall>d \<in> set ds. \<not> d \<Longrightarrow> scatter_indices n ds = map (\<lambda>_. None) ds"
  by (induction ds arbitrary: n) auto

lemma spread_none: "\<forall>d \<in> set ds. \<not> d \<Longrightarrow> spread ds vs = map (\<lambda>_. None) ds"
  by (induction ds arbitrary: vs) auto

lemma none_decoded: "filter (\<lambda>d. d) ds = [] \<longleftrightarrow> (\<forall>d \<in> set ds. \<not> d)"
  by (simp add: filter_empty_conv)

lemma scatter_indices_less:
  "n + length (filter (\<lambda>d. d) ds) \<le> k \<Longrightarrow> k \<le> 2 ^ 32 \<Longrightarrow> Some j \<in> set (scatter_indices n ds) \<Longrightarrow> j < k"
proof (induction ds arbitrary: n)
  case (Cons d ds)
  show ?case
  proof (cases "Suc n < 2 ^ 32")
    case True
    then show ?thesis
      using Cons.IH [of n] Cons.IH [of "Suc n"] Cons.prems by (auto split: if_splits)
  next
    case False
    then have "length (filter (\<lambda>d. d) ds) = 0" if d
      using Cons.prems(1,2) that by (simp del: length_0_conv)
    then have "d \<Longrightarrow> filter (\<lambda>d. d) ds = []" by simp
    then show ?thesis
      using Cons.IH [of n] Cons.prems
      by (auto simp: none_decoded scatter_indices_none split: if_splits)
  qed
qed simp

lemma scatter_spreads:
  "n + length (filter (\<lambda>d. d) ds) \<le> length vs \<Longrightarrow> length vs \<le> 2 ^ 32 \<Longrightarrow>
     map (\<lambda>x. case x of None \<Rightarrow> None | Some j \<Rightarrow> map Some vs ! j) (scatter_indices n ds)
     = spread ds (drop n vs)"
proof (induction ds arbitrary: n)
  case (Cons d ds)
  show ?case
  proof (cases d)
    case True
    then have n: "n < length vs" using Cons.prems by simp
    then have hd: "hd (drop n vs) = vs ! n" "tl (drop n vs) = drop (Suc n) vs"
      by (simp_all add: hd_drop_conv_nth tl_drop drop_Suc)
    show ?thesis
    proof (cases "Suc n < 2 ^ 32")
      case less: True
      then show ?thesis using Cons.IH [of "Suc n"] Cons.prems True n hd by simp
    next
      case False
      then have "length vs = Suc n" using n Cons.prems(2) by simp
      then have "\<forall>d \<in> set ds. \<not> d" using Cons.prems(1) True by (simp add: none_decoded [symmetric])
      then show ?thesis using True n hd by (simp add: scatter_indices_none spread_none)
    qed
  qed (use Cons in simp)
qed simp

lemma length_forms:
  "length ds = length ms \<Longrightarrow> length (filter_map (struct_form val) (zip ms ds)) = length (filter (\<lambda>d. d) ds)"
  by (induction ms ds rule: list_induct2') (auto simp: struct_form_def)

lemma all_forms:
  "length ds = length ms \<Longrightarrow> list_all id ds \<Longrightarrow>
     map Some (filter_map (struct_form val) (zip ms ds)) = map (struct_form val) (zip ms ds)"
  by (induction ms ds rule: list_induct2') (auto simp: struct_form_def)

lemma scatter_aligns:
  assumes "lawful env plan held val rows" "length ds = length ms" "length ms < 2 ^ 32"
    and "rows dense = map Some (filter_map (struct_form val) (zip ms ds))"
  shows "\<exists>a. scatter env dense ds = Inr a \<and> rows a = map (struct_form val) (zip ms ds)"
proof (cases "list_all id ds")
  case True
  then show ?thesis using assms all_forms [OF assms(2)] by (simp add: scatter_def)
next
  case False
  let ?vs = "filter_map (struct_form val) (zip ms ds)"
  have len: "length ?vs = length (filter (\<lambda>d. d) ds)" "length ?vs \<le> 2 ^ 32"
    using length_forms [OF assms(2), of val] length_filter_le [of "\<lambda>d. d" ds] assms(2,3) by simp_all
  have "list_len dense = length ?vs"
    using assms(1,4) by (metis lawful_def length_map)
  then have "\<forall>j. Some j \<in> set (scatter_indices 0 ds) \<longrightarrow> j < list_len dense"
    using scatter_indices_less [of 0 ds "length ?vs"] len by simp
  then obtain a where a: "pe_take env dense (scatter_indices 0 ds) = Inr (Some a)"
    "rows a = map (\<lambda>x. case x of None \<Rightarrow> None | Some j \<Rightarrow> rows dense ! j) (scatter_indices 0 ds)"
    using assms(1) unfolding lawful_def takes_rows_def by blast
  have "rows a = spread ds (drop 0 ?vs)"
    unfolding a(2) assms(4) using len by (intro scatter_spreads) simp_all
  then show ?thesis
    using a(1) False spread_forms [OF assms(2), of val] by (simp add: scatter_def)
qed

section \<open>The chunk of a flush\<close>

text \<open>
  A chunk holds a list of messages with what each was decoded to when its rows are those
  messages, in order, under the three timelines, and the two columns have each message's
  blob and struct at its row, and null where it lacks that form.
\<close>

definition blob_row :: "columns \<Rightarrow> 'e chunk \<Rightarrow> usize \<Rightarrow> bytes option" where
  "blob_row cols c i =
     (case column c (col_raw cols) of None \<Rightarrow> None | Some l \<Rightarrow> blob_at l i)"

definition struct_cell ::
  "(list_array \<Rightarrow> 'v option list) \<Rightarrow> columns \<Rightarrow> 'e chunk \<Rightarrow> usize \<Rightarrow> 'v option" where
  "struct_cell rows cols c i =
     (case Option.bind (col_reflected cols) (column c) of None \<Rightarrow> None | Some a \<Rightarrow> rows a ! i)"

definition message_chunk ::
  "(list_array \<Rightarrow> 'v option list) \<Rightarrow> (bytes \<Rightarrow> 'v) \<Rightarrow> bool \<Rightarrow> columns \<Rightarrow> 'e chunk
   \<Rightarrow> (incoming \<times> bool) list \<Rightarrow> bool" where
  "message_chunk rows val keep_raw cols c mds \<longleftrightarrow>
     \<not> ch_static c \<and> ch_num_rows c = length mds
     \<and> times c RECV_TIMESTAMP = Some (map (in_recv \<circ> fst) mds)
     \<and> times c SEND_TIMESTAMP = Some (map (in_send \<circ> fst) mds)
     \<and> times c SEQUENCE_NUMBER = Some (map (in_sequence \<circ> fst) mds)
     \<and> (\<forall>i < length mds. blob_row cols c i = blob_form keep_raw (mds ! i)
          \<and> struct_cell rows cols c i = struct_form val (mds ! i))
     \<and> (column c (col_raw cols) = None) = (\<forall>md \<in> set mds. blob_form keep_raw md = None)
     \<and> (Option.bind (col_reflected cols) (column c) = None) =
         (\<forall>md \<in> set mds. struct_form val md = None)
     \<and> (\<forall>a. Option.bind (col_reflected cols) (column c) = Some a \<longrightarrow> length (rows a) = length mds)
     \<and> holds_messages cols (map fst (ch_components c))
     \<and> (\<forall>n. column c n \<noteq> None \<longrightarrow> n = col_raw cols \<or> Some n = col_reflected cols)"

text \<open>A pipeline writes the columns the reader looks for under the topic's type.\<close>

definition describes :: "columns \<Rightarrow> ('e, 'd) pipeline \<Rightarrow> bool" where
  "describes cols p \<longleftrightarrow>
     col_raw cols = raw_descriptor \<and> col_reflected cols \<noteq> Some raw_descriptor
     \<and> (\<forall>rf. pl_reflection p = Some rf \<longrightarrow> col_reflected cols = Some (rf_descriptor rf))"

definition forms :: "('e, 'd) pipeline \<Rightarrow> incoming list \<Rightarrow> (incoming \<times> bool) list" where
  "forms p ms =
     (if pl_reflection p = None then map (\<lambda>m. (m, False)) ms else zip ms (rb_decoded (pl_rows p)))"

lemma columns_not_raw: "col_reflected (columns_for_type ok t) \<noteq> Some raw_descriptor"
  using reflected_not_raw [of ok t raw_descriptor] by auto

lemma new_reflection_descriptor:
  "new_reflection env type_name enc text = Inr rf \<Longrightarrow>
     reflected_descriptor (pe_archetype_ok env) type_name = Inr (rf_descriptor rf)"
  by (auto simp: new_reflection_def split: if_splits option.splits sum.splits)

lemma new_pipeline_describes:
  "describes (columns_for_type (pe_archetype_ok env) type_name)
     (new_pipeline env entity asked type_name enc text lenses)"
  using columns_not_raw
  by (auto simp: describes_def new_pipeline_def Let_def dest!: new_reflection_descriptor
      split: if_splits sum.splits)

lemma push_describes: "describes cols p \<Longrightarrow> describes cols (push_message env m p)"
  by (auto simp: describes_def pipeline_push_def decode_row_def Let_def
      split: option.splits prod.splits decoding.splits)

lemma timelines_distinct: "distinct (map fst cs) \<Longrightarrow> timelines cs = cs"
  by (induction cs) auto

lemma forms_fst: "holds held val p ms \<Longrightarrow> map fst (forms p ms) = ms \<and> length (forms p ms) = length ms"
  by (simp add: holds_def forms_def Let_def comp_def)

lemma raw_blobs:
  "length ds = length ms \<Longrightarrow> keep_raw \<or> (\<forall>d \<in> set ds. \<not> d) \<Longrightarrow>
     map (blob_form keep_raw) (zip ms ds) = map (\<lambda>m. Some (in_cdr m)) ms"
  by (induction ms ds rule: list_induct2') (auto simp: blob_form_def)

lemma forms_blobs:
  assumes "holds held val p ms"
  shows "rb_blobs (pl_rows p) = map (blob_form (pl_keep_raw p)) (forms p ms)"
proof (cases "pl_reflection p")
  case None
  with assms have "pl_keep_raw p \<or> (\<forall>d \<in> set (rb_decoded (pl_rows p)). \<not> d)"
    "length (rb_decoded (pl_rows p)) = length ms"
    by (auto simp: holds_def Let_def list_ex_iff)
  then have "map (blob_form (pl_keep_raw p)) (zip ms (rb_decoded (pl_rows p)))
      = map (\<lambda>m. Some (in_cdr m)) ms"
    by (rule raw_blobs [rotated])
  then show ?thesis using assms None
    by (simp add: holds_def forms_def Let_def comp_def blob_form_def)
qed (use assms in \<open>simp add: holds_def forms_def Let_def\<close>)

lemma forms_held:
  assumes "holds held val p ms" "pl_reflection p = Some rf"
  shows "held (rf_decoder rf) (filter_map (struct_form val) (forms p ms))"
    "forms p ms = zip ms (rb_decoded (pl_rows p))" "length (rb_decoded (pl_rows p)) = length ms"
  using assms by (simp_all add: holds_def forms_def Let_def)

text \<open>The struct column of a flush: absent, or with each decoded row's value at its row.\<close>

definition struct_columns ::
  "(list_array \<Rightarrow> 'v option list) \<Rightarrow> (bytes \<Rightarrow> 'v) \<Rightarrow> string \<Rightarrow> (incoming \<times> bool) list
   \<Rightarrow> (string \<times> list_array) list \<Rightarrow> bool" where
  "struct_columns rows val d mds cs \<longleftrightarrow>
     cs = [] \<and> (\<forall>md \<in> set mds. struct_form val md = None)
     \<or> (\<exists>a. cs = [(d, a)] \<and> rows a = map (struct_form val) mds)
         \<and> (\<exists>md \<in> set mds. struct_form val md \<noteq> None)"

lemma struct_column_delivers:
  assumes "lawful env plan held val rows" "length ds = length ms" "length ms < 2 ^ 32"
    and "held (rf_decoder rf) (filter_map (struct_form val) (zip ms ds))"
  obtains stamps cs d where
    "struct_column env rf ds = (Inr (stamps, cs), rf\<lparr>rf_decoder := d\<rparr>)" "held d []"
    "stamps = [] \<or> (\<exists>ns. stamps = [(HEADER_STAMP, ns)] \<and> length ns = length ms)"
    "struct_columns rows val (rf_descriptor rf) (zip ms ds) cs"
proof -
  obtain messages d where fin: "pe_finish env (rf_decoder rf) = (messages, d)" by fastforce
  let ?vs = "filter_map (struct_form val) (zip ms ds)"
  have messages: "rows messages = map Some ?vs" "held d []"
    using assms(1,4) fin unfolding lawful_def finishes_rows_def by (metis fst_conv, metis snd_conv)
  then have len: "list_len messages = length ?vs"
    using assms(1) unfolding lawful_def by (metis length_map)
  show thesis
  proof (cases "?vs = []")
    case True
    then have "struct_column env rf ds = (Inr ([], []), rf\<lparr>rf_decoder := d\<rparr>)"
      using fin len by (simp add: struct_column_def)
    moreover have "struct_columns rows val (rf_descriptor rf) (zip ms ds) []"
      using True by (simp add: struct_columns_def)
    ultimately show thesis using that messages(2) by blast
  next
    case False
    obtain a where a: "scatter env messages ds = Inr a" "rows a = map (struct_form val) (zip ms ds)"
      using scatter_aligns [OF assms(1-3) messages(1)] by blast
    define stamps where "stamps =
      (if list_all id ds
       then (case header_stamps env (rf_plan rf) messages of
               None \<Rightarrow> [] | Some stamps \<Rightarrow> [(HEADER_STAMP, stamps)])
       else [])"
    have "length ns = length ms"
      if "list_all id ds" "header_stamps env (rf_plan rf) messages = Some ns" for ns
    proof -
      have "length ns = list_len messages"
        using that(2) assms(1) by (auto simp: header_stamps_def lawful_def stamps_rows_def
            split: option.splits if_splits)
      also have "\<dots> = length (map (struct_form val) (zip ms ds))"
        using all_forms [OF assms(2) that(1), of val] len by (metis length_map)
      finally show ?thesis using assms(2) by simp
    qed
    then have "stamps = [] \<or> (\<exists>ns. stamps = [(HEADER_STAMP, ns)] \<and> length ns = length ms)"
      by (auto simp: stamps_def split: option.splits)
    moreover have "struct_column env rf ds =
        (Inr (stamps, [(rf_descriptor rf, a)]), rf\<lparr>rf_decoder := d\<rparr>)"
      using fin len False a(1) by (simp add: struct_column_def stamps_def Let_def)
    ultimately show thesis
      using that messages(2) a(2) False by (auto simp: struct_columns_def)
  qed
qed

lemma message_columns_chunk:
  assumes "lawful env plan held val rows" "mds \<noteq> []"
    and "col_raw cols = raw_descriptor" "d \<noteq> raw_descriptor"
    and "cs \<noteq> [] \<Longrightarrow> col_reflected cols = Some d"
    and "stamps = [] \<or> (\<exists>ns. stamps = [(HEADER_STAMP, ns)] \<and> length ns = length mds)"
    and "struct_columns rows val d mds cs"
    and "blobs = (if \<forall>md \<in> set mds. blob_form keep_raw md = None then []
           else [(raw_descriptor, pe_blobs env (map (blob_form keep_raw) mds))])"
    and "col_reflected cols \<noteq> Some raw_descriptor"
    and "t = \<lparr>tb_recv = map (in_recv \<circ> fst) mds, tb_send = map (in_send \<circ> fst) mds,
           tb_sequence = map (in_sequence \<circ> fst) mds\<rparr>"
  obtains c where
    "pe_chunk env entity (timelines (times_columns t @ stamps)) (timelines (blobs @ cs)) = Inr c"
    "ch_entity c = entity" "message_chunk rows val keep_raw cols c mds"
proof -
  let ?bs = "map (blob_form keep_raw) mds"
  let ?ts = "times_columns t @ stamps"
  have ts: "distinct (map fst ?ts)" "\<forall>t \<in> set ?ts. length (snd t) = length mds" "?ts \<noteq> []"
    using assms(6) by (auto simp: times_columns_def timeline_names assms(10))
  have names: "distinct (map fst (blobs @ cs))"
    using assms(4,7,8) by (auto simp: struct_columns_def)
  have blob_len: "list_len (pe_blobs env ?bs) = length mds"
    "\<And>i. i < length mds \<Longrightarrow> blob_at (pe_blobs env ?bs) i = blob_form keep_raw (mds ! i)"
    using assms(1) unfolding lawful_def builds_blobs_def by (auto simp del: map_eq_conv)
  have struct_len: "cs = [] \<or> (\<exists>a. cs = [(d, a)] \<and> list_len a = length mds
      \<and> rows a = map (struct_form val) mds)"
    using assms(1,7) unfolding struct_columns_def lawful_def by (metis length_map)
  have same: "same_rows (length mds) ?ts (blobs @ cs)"
    using ts(2) struct_len blob_len(1) assms(8) by (auto simp: same_rows_def simp del: map_eq_conv)
  have some: "blobs @ cs \<noteq> []"
  proof
    assume "blobs @ cs = []"
    then have "\<forall>md \<in> set mds. blob_form keep_raw md = None" "\<forall>md \<in> set mds. struct_form val md = None"
      using assms(7,8) by (auto simp: struct_columns_def split: if_splits)
    then show False
      using assms(2) form_kept [of keep_raw "hd mds" val] hd_in_set [of mds] by auto
  qed
  obtain c where c: "pe_chunk env entity ?ts (blobs @ cs) = Inr c" "ch_entity c = entity"
    "ch_num_rows c = length mds" "ch_static c = (?ts = [])"
    "\<And>name. times c name = map_of ?ts name" "\<And>comp. column c comp = map_of (blobs @ cs) comp"
    "fst ` set (ch_components c) = fst ` set (blobs @ cs)"
    using assms(1) builds_chunksE [OF _ same some ts(1) names, of "pe_chunk env" entity]
    unfolding lawful_def by blast
  have "blob_row cols c i = blob_form keep_raw (mds ! i)
      \<and> struct_cell rows cols c i = struct_form val (mds ! i)" if "i < length mds" for i
  proof
    show "blob_row cols c i = blob_form keep_raw (mds ! i)"
    proof (cases "\<forall>md \<in> set mds. blob_form keep_raw md = None")
      case True
      then have "map_of (blobs @ cs) raw_descriptor = None"
        using assms(4,7,8) by (auto simp: struct_columns_def)
      moreover have "blob_form keep_raw (mds ! i) = None"
        using True that by simp
      ultimately show ?thesis by (simp add: blob_row_def c(6) assms(3) del: map_of_append)
    next
      case False
      then show ?thesis
        using assms(8) blob_len(2) [OF that] by (simp add: blob_row_def c(6) assms(3))
    qed
    show "struct_cell rows cols c i = struct_form val (mds ! i)"
    proof (cases "cs = []")
      case True
      then have "map_of (blobs @ cs) n = None" if "col_reflected cols = Some n" for n
        using that assms(8,9) by auto
      moreover have "struct_form val (mds ! i) = None"
        using assms(7) True that by (auto simp: struct_columns_def)
      ultimately show ?thesis
        by (cases "col_reflected cols") (simp_all add: struct_cell_def c(6) del: map_of_append)
    next
      case False
      then obtain a where a: "cs = [(d, a)]" "rows a = map (struct_form val) mds"
        using struct_len by auto
      then have "map_of (blobs @ cs) d = Some a" using assms(4,8) by auto
      then show ?thesis using assms(5) a that by (simp add: struct_cell_def c(6))
    qed
  qed
  moreover have "times c RECV_TIMESTAMP = Some (map (in_recv \<circ> fst) mds)"
    "times c SEND_TIMESTAMP = Some (map (in_send \<circ> fst) mds)"
    "times c SEQUENCE_NUMBER = Some (map (in_sequence \<circ> fst) mds)"
    by (simp_all add: c(5) times_columns_def timeline_names assms(10))
  moreover have "(column c (col_raw cols) = None) = (\<forall>md \<in> set mds. blob_form keep_raw md = None)"
    using assms(3,4,8) struct_len by (auto simp: c(6))
  moreover have "(Option.bind (col_reflected cols) (column c) = None) =
      (\<forall>md \<in> set mds. struct_form val md = None)"
  proof (cases "cs = []")
    case True
    then have "Option.bind (col_reflected cols) (column c) = None"
      using assms(8,9) by (cases "col_reflected cols") (auto simp: c(6))
    then show ?thesis using assms(7) True by (simp add: struct_columns_def)
  next
    case False
    then obtain a where "cs = [(d, a)]" "\<not> (\<forall>md \<in> set mds. struct_form val md = None)"
      using assms(7) by (auto simp: struct_columns_def)
    moreover from this have "map_of (blobs @ cs) d = Some a" using assms(4,8) by auto
    ultimately show ?thesis using assms(5) by (simp add: c(6))
  qed
  moreover have "\<forall>a. Option.bind (col_reflected cols) (column c) = Some a \<longrightarrow> length (rows a) = length mds"
  proof (cases "cs = []")
    case True
    then show ?thesis using assms(8,9) by (cases "col_reflected cols") (auto simp: c(6))
  next
    case False
    then obtain a where a: "cs = [(d, a)]" "rows a = map (struct_form val) mds" using struct_len by auto
    then have "map_of (blobs @ cs) d = Some a" using assms(4,8) by auto
    then show ?thesis using assms(5) a by (simp add: c(6))
  qed
  moreover have in_cols: "fst x = col_raw cols \<or> Some (fst x) = col_reflected cols"
    if "x \<in> set (blobs @ cs)" for x
    using that assms(3,5,8) struct_len by (auto split: if_splits)
  then have "\<forall>n. column c n \<noteq> None \<longrightarrow> n = col_raw cols \<or> Some n = col_reflected cols"
    by (metis c(6) map_of_SomeD not_None_eq fst_conv)
  moreover have "holds_messages cols (map fst (ch_components c))"
  proof -
    obtain x where x: "x \<in> set (blobs @ cs)" using some by (metis list.set_intros(1) neq_Nil_conv)
    then have "fst x \<in> set (map fst (ch_components c))" using c(7) by (metis image_eqI set_map)
    then show ?thesis
      unfolding holds_messages_def list_ex_iff using in_cols [OF x] by blast
  qed
  ultimately have "message_chunk rows val keep_raw cols c mds"
    using c(3,4) ts(3) by (simp add: message_chunk_def)
  then show thesis
    using that c(1,2) timelines_distinct [OF ts(1)] timelines_distinct [OF names] by simp
qed

text \<open>Taking the rows out: the chunk, and the pipeline as a flush leaves it.\<close>

definition drained :: "('e, 'd) pipeline \<Rightarrow> ('e, 'd) pipeline \<Rightarrow> bool" where
  "drained p p' \<longleftrightarrow>
     pl_rows p' = no_rows \<and> pl_bytes p' = 0 \<and> pl_entity p' = pl_entity p
     \<and> pl_keep_raw p' = pl_keep_raw p \<and> pl_lenses p' = pl_lenses p \<and> pl_stored p' = pl_stored p
     \<and> map_option rf_descriptor (pl_reflection p') = map_option rf_descriptor (pl_reflection p)"

lemma take_delivers:
  assumes "lawful env plan held val rows" "holds held val p ms" "describes cols p"
    and "ms \<noteq> []" "length ms < 2 ^ 32"
  obtains c p' where "pipeline_take env p = (Inr (Some c), p')" "ch_entity c = pl_entity p"
    "message_chunk rows val (pl_keep_raw p) cols c (forms p ms)"
    "drained p p'" "holds held val p' []"
proof -
  let ?r = "pl_rows p" and ?mds = "forms p ms"
  let ?blobs = "if rb_blob_rows ?r > 0 then [(raw_descriptor, pe_blobs env (rb_blobs ?r))] else []"
  let ?structs = "case pl_reflection p of
      None \<Rightarrow> (Inr ([], []), None)
    | Some rf \<Rightarrow> map_prod id Some (struct_column env rf (rb_decoded ?r))"
  have len: "length (forms p ms) = length ms" "map fst ?mds = ms"
    using forms_fst [OF assms(2)] by auto
  have times: "rb_times ?r = \<lparr>tb_recv = map (in_recv \<circ> fst) ?mds, tb_send = map (in_send \<circ> fst) ?mds,
      tb_sequence = map (in_sequence \<circ> fst) ?mds\<rparr>"
    using assms(2) len(2) by (simp add: holds_def Let_def map_map [symmetric] del: map_map)
  have nonempty: "rows_len ?r \<noteq> 0"
    using assms(4) holds_length [OF assms(2)] by (simp add: pipeline_len_def)
  have count: "rb_blob_rows ?r = 0 \<longleftrightarrow> (\<forall>b \<in> set (rb_blobs ?r). b = None)"
    using assms(2) by (simp add: holds_def Let_def)
  have blobs: "?blobs = (if \<forall>md \<in> set ?mds. blob_form (pl_keep_raw p) md = None then []
      else [(raw_descriptor, pe_blobs env (map (blob_form (pl_keep_raw p)) ?mds))])"
    unfolding forms_blobs [OF assms(2), symmetric]
    using count by (auto simp: forms_blobs [OF assms(2)])
  obtain stamps cs rf' where structs: "?structs = (Inr (stamps, cs), rf')"
    "stamps = [] \<or> (\<exists>ns. stamps = [(HEADER_STAMP, ns)] \<and> length ns = length ?mds)"
    "\<exists>d. d \<noteq> raw_descriptor \<and> (cs \<noteq> [] \<longrightarrow> col_reflected cols = Some d)
       \<and> struct_columns rows val d ?mds cs"
    "map_option rf_descriptor rf' = map_option rf_descriptor (pl_reflection p)"
    "\<And>rf. rf' = Some rf \<Longrightarrow> held (rf_decoder rf) []"
  proof (cases "pl_reflection p")
    case None
    have "struct_columns rows val [] ?mds []"
      using None by (auto simp: struct_columns_def forms_def struct_form_def)
    moreover have "[] \<noteq> raw_descriptor" by (simp add: raw_descriptor_def descriptor_def)
    ultimately show thesis using None that [of "[]" "[]" None] by auto
  next
    case (Some rf)
    note f = forms_held [OF assms(2) Some]
    obtain stamps cs d where s: "struct_column env rf (rb_decoded ?r) = (Inr (stamps, cs), rf\<lparr>rf_decoder := d\<rparr>)"
      "held d []" "stamps = [] \<or> (\<exists>ns. stamps = [(HEADER_STAMP, ns)] \<and> length ns = length ms)"
      "struct_columns rows val (rf_descriptor rf) (zip ms (rb_decoded ?r)) cs"
      using struct_column_delivers [OF assms(1) f(3) assms(5) f(1) [unfolded f(2)]] by blast
    moreover have "rf_descriptor rf \<noteq> raw_descriptor" "col_reflected cols = Some (rf_descriptor rf)"
      using Some assms(3) by (auto simp: describes_def)
    ultimately have "\<exists>d. d \<noteq> raw_descriptor \<and> (cs \<noteq> [] \<longrightarrow> col_reflected cols = Some d)
       \<and> struct_columns rows val d ?mds cs"
      unfolding f(2) by blast
    then show thesis
      using that [of stamps cs "Some (rf\<lparr>rf_decoder := d\<rparr>)"] s(1,2,3) Some len(1) by simp
  qed
  then obtain d where d: "d \<noteq> raw_descriptor" "cs \<noteq> [] \<Longrightarrow> col_reflected cols = Some d"
    "struct_columns rows val d ?mds cs" by blast
  have cols: "col_raw cols = raw_descriptor" "col_reflected cols \<noteq> Some raw_descriptor"
    using assms(3) by (simp_all add: describes_def)
  have "?mds \<noteq> []" using len(1) assms(4) by auto
  from message_columns_chunk [OF assms(1) this cols(1) d(1,2) structs(2) d(3) blobs cols(2) times]
  obtain c where c: "pe_chunk env (pl_entity p) (timelines (times_columns (rb_times ?r) @ stamps))
      (timelines (?blobs @ cs)) = Inr c" "ch_entity c = pl_entity p"
    "message_chunk rows val (pl_keep_raw p) cols c ?mds" by blast
  let ?p = "p\<lparr>pl_rows := no_rows, pl_bytes := 0, pl_reflection := rf'\<rparr>"
  have "pipeline_take env p = (Inr (Some c), ?p)"
    using nonempty structs(1) c(1) by (simp add: pipeline_take_def Let_def)
  moreover have "drained p ?p" using structs(4) by (simp add: drained_def)
  moreover have "holds held val ?p []" using structs(5) by (intro holds_empty) simp_all
  ultimately show thesis using that c(2,3) by blast
qed

end
