(* ===== verification/Sample_Pipeline.thy ===== *)
theory Sample_Pipeline
  imports Flushing
begin

text \<open>
  Concrete libraries for the witnesses about recording: messages of one byte behind the CDR
  encapsulation, decoded to a struct of one \<open>uint8\<close> field. An empty message breaks the
  decoder, any other message of the wrong shape is cancelled.
\<close>

section \<open>Blobs\<close>

definition blob_offsets :: "bytes list \<Rightarrow> nat list" where
  "blob_offsets bss = map (\<lambda>i. length (concat (take i bss))) [0..<Suc (length bss)]"

definition optional_blobs :: "bytes option list \<Rightarrow> list_array" where
  "optional_blobs bs =
     (let bss = map (\<lambda>b. unwrap_or b []) bs; valid = map (\<lambda>b. b \<noteq> None) bs
      in \<lparr>la_valid = valid, la_offsets = [0..<Suc (length bs)],
          la_values = ListA valid (blob_offsets bss) (U8A (concat bss))\<rparr>)"

lemma window_of_concat:
  "i < length bss \<Longrightarrow>
     window_of (length (concat (take i bss))) (length (bss ! i)) (concat bss) = bss ! i"
proof -
  assume "i < length bss"
  then have "concat bss = concat (take i bss) @ bss ! i @ concat (drop (Suc i) bss)"
    by (metis id_take_nth_drop concat_append concat.simps(2))
  then show ?thesis by simp
qed

lemma blob_offsets_nth:
  assumes "i < length bss"
  shows "blob_offsets bss ! i = length (concat (take i bss))"
    "blob_offsets bss ! Suc i = length (concat (take i bss)) + length (bss ! i)"
  using assms by (simp_all add: blob_offsets_def take_Suc_conv_app_nth del: upt_Suc)

lemma take_window_nth: "i < length xs \<Longrightarrow> take 1 (drop i xs) = [xs ! i]"
  by (simp add: take_Suc_conv_app_nth hd_drop_conv_nth flip: Cons_nth_drop_Suc)

lemma optional_blobs_at: "i < length bs \<Longrightarrow> blob_at (optional_blobs bs) i = bs ! i"
proof -
  assume i: "i < length bs"
  let ?bss = "map (\<lambda>b. unwrap_or b []) bs" and ?valid = "map (\<lambda>b. b \<noteq> None) bs"
  have offs: "take 2 (drop i (blob_offsets ?bss))
      = [blob_offsets ?bss ! i, blob_offsets ?bss ! Suc i]"
    using i by (simp add: blob_offsets_def numeral_2_eq_2 del: upt_Suc flip: Cons_nth_drop_Suc)
  have "list_value (optional_blobs bs) i
      = ListA (take 1 (drop i ?valid)) [blob_offsets ?bss ! i, blob_offsets ?bss ! Suc i]
          (U8A (concat ?bss))"
    using i offs by (simp add: list_value_def optional_blobs_def Let_def numeral_2_eq_2 del: upt_Suc)
  also have "take 1 (drop i ?valid) = [bs ! i \<noteq> None]"
    using i take_window_nth [of i ?valid] by simp
  finally have slice: "list_value (optional_blobs bs) i
      = ListA [bs ! i \<noteq> None] [blob_offsets ?bss ! i, blob_offsets ?bss ! Suc i] (U8A (concat ?bss))" .
  have "list_value \<lparr>la_valid = [bs ! i \<noteq> None],
        la_offsets = [blob_offsets ?bss ! i, blob_offsets ?bss ! Suc i], la_values = U8A (concat ?bss)\<rparr> 0
      = U8A (?bss ! i)"
    using i window_of_concat [of i ?bss] blob_offsets_nth [of i ?bss] by (simp add: list_value_def)
  then show "blob_at (optional_blobs bs) i = bs ! i"
    using i slice
    by (cases "bs ! i")
      (simp_all add: blob_at_def list_len_def list_is_null_def optional_blobs_def Let_def)
qed

section \<open>Structs\<close>

definition byte_struct :: "bool list \<Rightarrow> bytes \<Rightarrow> list_array" where
  "byte_struct valid bs =
     \<lparr>la_valid = valid, la_offsets = [0..<Suc (length valid)],
      la_values = StructA (length valid) [(''data'', U8A bs)]\<rparr>"

definition byte_row :: "byte \<Rightarrow> bytes result" where
  "byte_row b = Inr (ENCAPSULATION @ [b])"

fun byte_cells :: "bool list \<Rightarrow> arrow \<Rightarrow> bytes result option list" where
  "byte_cells valid (StructA n [(name, U8A bs)]) =
     (if length bs = length valid
      then map2 (\<lambda>v b. if v then Some (byte_row b) else None) valid bs
      else replicate (length valid) None)"
| "byte_cells valid _ = replicate (length valid) None"

definition byte_rows :: "list_array \<Rightarrow> bytes result option list" where
  "byte_rows a = byte_cells (la_valid a) (la_values a)"

definition row_byte :: "bytes result option \<Rightarrow> byte" where
  "row_byte r = (case r of Some (Inr bs) \<Rightarrow> last bs | _ \<Rightarrow> 0)"

definition take_bytes :: "list_array \<Rightarrow> usize option list \<Rightarrow> list_array option result" where
  "take_bytes dense indices =
     (let cells = map (\<lambda>x. case x of None \<Rightarrow> None | Some j \<Rightarrow> byte_rows dense ! j) indices
      in Inr (Some (byte_struct (map (\<lambda>r. r \<noteq> None) cells) (map row_byte cells))))"

lemma byte_cells_length: "length (byte_cells valid a) = length valid"
  by (induction valid a rule: byte_cells.induct) simp_all

lemma byte_cells_form: "r \<in> set (byte_cells valid a) \<Longrightarrow> r = None \<or> (\<exists>b. r = Some (byte_row b))"
  by (induction valid a rule: byte_cells.induct) (auto split: if_splits)

lemma byte_cells_nth:
  "j < length valid \<Longrightarrow> byte_cells valid a ! j = None \<or> (\<exists>b. byte_cells valid a ! j = Some (byte_row b))"
  using byte_cells_form [of "byte_cells valid a ! j" valid a] by (simp add: byte_cells_length)

lemma byte_rows_struct:
  "length bs = length valid \<Longrightarrow> byte_rows (byte_struct valid bs)
     = map2 (\<lambda>v b. if v then Some (byte_row b) else None) valid bs"
  by (simp add: byte_rows_def byte_struct_def)

lemma byte_cells_back:
  "\<forall>r \<in> set rs. r = None \<or> (\<exists>b. r = Some (byte_row b)) \<Longrightarrow>
     map2 (\<lambda>v b. if v then Some (byte_row b) else None) (map (\<lambda>r. r \<noteq> None) rs) (map row_byte rs) = rs"
  by (induction rs) (auto simp: row_byte_def byte_row_def)

lemma take_bytes_rows:
  assumes "\<forall>j. Some j \<in> set indices \<longrightarrow> j < list_len dense"
  shows "\<exists>a. take_bytes dense indices = Inr (Some a)
    \<and> byte_rows a = map (\<lambda>x. case x of None \<Rightarrow> None | Some j \<Rightarrow> byte_rows dense ! j) indices"
proof -
  let ?cells = "map (\<lambda>x. case x of None \<Rightarrow> None | Some j \<Rightarrow> byte_rows dense ! j) indices"
  have "\<forall>r \<in> set ?cells. r = None \<or> (\<exists>b. r = Some (byte_row b))"
    using assms
    using byte_cells_nth [of _ "la_valid dense" "la_values dense"]
    by (auto simp: byte_rows_def list_len_def split: option.splits)
  from byte_cells_back [OF this] show ?thesis
    by (simp add: take_bytes_def Let_def byte_rows_struct)
qed

section \<open>The libraries\<close>

definition byte_plan :: plan where
  "byte_plan =
     \<lparr>plan_name = ''std_msgs/msg/UInt8'', plan_root = 0,
      plan_message = (\<lambda>_. [(''data'', BuiltIn UInt8T)])\<rparr>"

definition decode_byte :: "bytes \<Rightarrow> bytes \<Rightarrow> decoding \<times> bytes" where
  "decode_byte d cdr =
     (if length cdr = 5 \<and> take 4 cdr = ENCAPSULATION then (Decoded, d @ [cdr ! 4])
      else if cdr = [] then (Unrecoverable, d)
      else (Cancelled, d))"

definition byte_value :: "bytes \<Rightarrow> bytes result" where
  "byte_value cdr = byte_row (cdr ! 4)"

text \<open>The lens library: it forwards what its mode says and derives nothing of its own.\<close>

definition byte_inputs :: "string list" where
  "byte_inputs = [''std_msgs.msg.UInt8:message'']"

definition forward_only :: "output_mode \<Rightarrow> 'e chunk \<Rightarrow> (nat \<times> 'e chunk option + 'e chunk) list" where
  "forward_only mode c =
     (let kept = (case mode of
                    ForwardAll \<Rightarrow> ch_components c
                  | ForwardUnmatched \<Rightarrow> filter (\<lambda>x. fst x \<notin> set byte_inputs) (ch_components c)
                  | DropUnmatched \<Rightarrow> [])
      in if kept = [] then [] else [Inr (c\<lparr>ch_components := kept\<rparr>)])"

definition byte_env :: "(nat, bytes) pipeline_env" where
  "byte_env =
     \<lparr>pe_archetype_ok = (\<lambda>_. True), pe_separator = (\<lambda>_. False),
      pe_plan = (\<lambda>_ _. Some byte_plan), pe_decoder = (\<lambda>_. []), pe_decode = decode_byte,
      pe_finish = (\<lambda>d. (byte_struct (replicate (length d) True) d, [])),
      pe_stamps = (\<lambda>_ _. None), pe_take = take_bytes, pe_blobs = optional_blobs,
      pe_chunk = plain_builder, pe_lenses = forward_only, pe_inputs = Inr byte_inputs\<rparr>"

definition byte_held :: "bytes \<Rightarrow> bytes result list \<Rightarrow> bool" where
  "byte_held d vs \<longleftrightarrow> vs = map byte_row d"

lemma byte_lawful: "lawful byte_env plan byte_held byte_value byte_rows"
proof -
  have "decodes_rows byte_env plan byte_held byte_value"
    by (auto simp: decodes_rows_def byte_env_def decode_byte_def byte_value_def byte_held_def split: if_splits)
  moreover have "finishes_rows byte_env byte_held byte_rows"
    by (simp add: finishes_rows_def byte_env_def byte_rows_struct byte_held_def)
      (simp add: list_eq_iff_nth_eq)
  moreover have "takes_rows byte_env byte_rows"
    using take_bytes_rows by (simp add: takes_rows_def byte_env_def)
  moreover have "builds_blobs byte_env"
    using optional_blobs_at
    by (simp add: builds_blobs_def byte_env_def) (simp add: optional_blobs_def list_len_def Let_def)
  moreover have "length (byte_rows a) = list_len a" for a
    by (simp add: byte_rows_def byte_cells_length list_len_def)
  ultimately show ?thesis
    by (simp add: lawful_def stamps_rows_def byte_env_def plain_builder_builds)
qed

end
