(* ===== verification/Keeping.thy ===== *)
theory Keeping
  imports Sample_Pipeline
begin

text \<open>
  The theorems about one topic's pipeline: what pushing buffers, what a flush delivers,
  what a decoder that breaks costs, and whether the forms a topic announces it stores are
  the forms a flush emits, with and without lenses.
\<close>

section \<open>Buffering\<close>

text \<open>
  C28: the columns of the buffer and the rows inside the decoder stay in step. Pushing a
  message onto a pipeline that holds some messages gives one that holds these and the new
  one, each as one row with its bytes or its struct, or, where the decoder breaks and no
  raw copies are kept, the new one alone; and the row count the flush policy looks at is
  the number of messages held.
\<close>

theorem push_buffers_message:
  assumes "decodes_rows env plan held val" "holds held val p ms"
  shows "holds held val (push_message env m p) (after_push env p ms m)
    \<and> pipeline_len (push_message env m p) = length (after_push env p ms m)"
  using push_holds [OF assms] holds_length by blast

definition byte_message :: "byte \<Rightarrow> int \<Rightarrow> incoming" where
  "byte_message b t =
     \<lparr>in_cdr = ENCAPSULATION @ [b], in_recv = t, in_send = t - 1, in_sequence = t\<rparr>"

definition odd_message :: "bytes \<Rightarrow> int \<Rightarrow> incoming" where
  "odd_message bs t = \<lparr>in_cdr = bs, in_recv = t, in_send = t - 1, in_sequence = t\<rparr>"

definition byte_pipeline :: "representations \<Rightarrow> lens_set option \<Rightarrow> (nat, bytes) pipeline" where
  "byte_pipeline asked =
     new_pipeline byte_env 3 asked ''std_msgs/msg/UInt8'' REFLECTABLE_ENCODING
       (string_bytes ''uint8 data'')"

lemma byte_laws:
  "decodes_rows byte_env plan byte_held byte_value"
  using byte_lawful by (simp add: lawful_def)

lemma byte_pipeline_plan: "follows_plan byte_plan (byte_pipeline asked lenses)"
  by (auto simp: follows_plan_def byte_pipeline_def new_pipeline_def new_reflection_def byte_env_def Let_def
      split: if_splits option.splits sum.splits)

lemma byte_pipeline_holds: "holds byte_held byte_value (byte_pipeline asked lenses) []"
  unfolding byte_pipeline_def
  by (rule new_pipeline_holds [OF byte_laws byte_pipeline_plan [unfolded byte_pipeline_def]])

lemma byte_env_archetype [simp]: "pe_archetype_ok byte_env = (\<lambda>_. True)"
  by (simp add: byte_env_def)

definition byte_columns :: columns where
  "byte_columns = columns_for_type (\<lambda>_. True) ''std_msgs/msg/UInt8''"

lemma byte_pipeline_describes: "describes byte_columns (byte_pipeline asked lenses)"
  using new_pipeline_describes [of byte_env "''std_msgs/msg/UInt8''"]
  by (simp add: byte_columns_def byte_pipeline_def)

theorem push_buffers_message_witness:
  "holds byte_held byte_value (push_message byte_env (byte_message 7 5) (byte_pipeline {Reflected} None))
     (after_push byte_env (byte_pipeline {Reflected} None) [] (byte_message 7 5))
   \<and> pipeline_len (push_message byte_env (byte_message 7 5) (byte_pipeline {Reflected} None)) =
       length (after_push byte_env (byte_pipeline {Reflected} None) [] (byte_message 7 5))"
  by (rule push_buffers_message [OF byte_laws [of byte_plan] byte_pipeline_holds])

section \<open>A run of pushes\<close>

text \<open>The messages a pipeline holds after pushing some more.\<close>

fun buffered ::
  "('e, 'd) pipeline_env \<Rightarrow> ('e, 'd) pipeline \<Rightarrow> incoming list \<Rightarrow> incoming list \<Rightarrow> incoming list" where
  "buffered env p kept [] = kept"
| "buffered env p kept (m # ms) = buffered env (push_message env m p) (after_push env p kept m) ms"

lemma buffered_holds:
  assumes "decodes_rows env plan held val" "holds held val p kept"
  shows "holds held val (fold (push_message env) ms p) (buffered env p kept ms)"
  using assms(2) by (induction ms arbitrary: p kept) (simp_all add: push_holds [OF assms(1)])

lemma fold_describes: "describes cols p \<Longrightarrow> describes cols (fold (push_message env) ms p)"
  by (induction ms arbitrary: p) (simp_all add: push_describes)

lemma push_settings:
  "pl_entity (push_message env m p) = pl_entity p"
  "pl_keep_raw (push_message env m p) = pl_keep_raw p"
  "pl_lenses (push_message env m p) = pl_lenses p" "pl_stored (push_message env m p) = pl_stored p"
  by (auto simp: pipeline_push_def decode_row_def Let_def split: option.splits prod.splits decoding.splits)

lemma fold_settings:
  "pl_entity (fold (push_message env) ms p) = pl_entity p"
  "pl_keep_raw (fold (push_message env) ms p) = pl_keep_raw p"
  "pl_lenses (fold (push_message env) ms p) = pl_lenses p"
  "pl_stored (fold (push_message env) ms p) = pl_stored p"
  by (induction ms arbitrary: p) (simp_all add: push_settings)

lemma after_push_last: "after_push env p kept m \<noteq> []" "length (after_push env p kept m) \<le> Suc (length kept)"
  by (simp_all add: after_push_def)

lemma buffered_bounds:
  "length (buffered env p kept ms) \<le> length kept + length ms"
  "ms \<noteq> [] \<Longrightarrow> buffered env p kept ms \<noteq> []"
proof -
  show "length (buffered env p kept ms) \<le> length kept + length ms"
  proof (induction ms arbitrary: p kept)
    case (Cons m ms)
    show ?case
      using after_push_last(2) [of env p kept m] Cons.IH [of "push_message env m p" "after_push env p kept m"]
      by simp
  qed simp
  have "kept \<noteq> [] \<Longrightarrow> buffered env p kept ms \<noteq> []" for p kept ms
    by (induction ms arbitrary: p kept) (simp_all add: after_push_last(1))
  from this [OF after_push_last(1)] show "ms \<noteq> [] \<Longrightarrow> buffered env p kept ms \<noteq> []"
    by (cases ms) simp_all
qed

lemma buffered_all: "pl_keep_raw p \<Longrightarrow> buffered env p kept ms = kept @ ms"
  by (induction ms arbitrary: p kept) (simp_all add: after_push_def push_settings)

lemma no_reflection_stays: "pl_reflection p = None \<Longrightarrow> pl_reflection (push_message env m p) = None"
  by (simp add: pipeline_push_def decode_row_def Let_def)

lemma no_reflection_fold:
  "pl_reflection p = None \<Longrightarrow> pl_reflection (fold (push_message env) ms p) = None"
  by (induction ms arbitrary: p) (simp_all add: no_reflection_stays)

lemma no_reflection_buffered: "pl_reflection p = None \<Longrightarrow> buffered env p kept ms = kept @ ms"
  by (induction ms arbitrary: p kept) (simp_all add: after_push_def breaks_def no_reflection_stays)

section \<open>Flushing\<close>

lemma drained_flush: "drained p p' \<Longrightarrow> pipeline_flush env p' = (Inr [], p')"
  by (simp add: drained_def pipeline_flush_def pipeline_take_def)

lemma drained_len: "drained p p' \<Longrightarrow> pipeline_len p' = 0"
  by (simp add: drained_def pipeline_len_def)

lemma flush_one_chunk:
  assumes "lawful env plan held val rows" "holds held val p ms" "describes cols p"
    and "ms \<noteq> []" "length ms < 2 ^ 32" "pl_lenses p = None"
  shows "\<exists>c p'. pipeline_flush env p = (Inr [c], p') \<and> ch_entity c = pl_entity p
    \<and> message_chunk rows val (pl_keep_raw p) cols c (forms p ms) \<and> drained p p'
    \<and> holds held val p' []"
proof -
  obtain c p' where "pipeline_take env p = (Inr (Some c), p')" "ch_entity c = pl_entity p"
    "message_chunk rows val (pl_keep_raw p) cols c (forms p ms)" "drained p p'" "holds held val p' []"
    by (rule take_delivers [OF assms(1-5)])
  then show ?thesis
    using assms(6) by (auto simp: pipeline_flush_def apply_lenses_def drained_def)
qed

text \<open>
  C7: without lenses, pushing messages onto a new topic and flushing writes all that is
  held as the rows of one chunk of the topic's entity: row by row the three times and every
  form of the message, with nulls keeping the columns in line, under the columns the reader
  looks for. The flush leaves nothing behind, so a second one writes nothing.
\<close>

theorem flush_delivers_messages:
  assumes "lawful env plan held val rows" "ms \<noteq> []" "length ms < 2 ^ 32"
    and "follows_plan plan (new_pipeline env entity asked type_name enc text None)"
    and "p = fold (push_message env) ms (new_pipeline env entity asked type_name enc text None)"
    and "kept = buffered env (new_pipeline env entity asked type_name enc text None) [] ms"
  shows "\<exists>c p'. pipeline_flush env p = (Inr [c], p') \<and> ch_entity c = entity
    \<and> message_chunk rows val (Raw \<in> asked) (columns_for_type (pe_archetype_ok env) type_name) c
        (forms p kept)
    \<and> map fst (forms p kept) = kept
    \<and> pipeline_len p' = 0 \<and> pl_bytes p' = 0 \<and> pipeline_flush env p' = (Inr [], p')"
proof -
  let ?new = "new_pipeline env entity asked type_name enc text None"
  have laws: "decodes_rows env plan held val" using assms(1) by (simp add: lawful_def)
  have holds: "holds held val p kept"
    unfolding assms(5,6) by (rule buffered_holds [OF laws new_pipeline_holds [OF laws assms(4)]])
  have describes: "describes (columns_for_type (pe_archetype_ok env) type_name) p"
    unfolding assms(5) by (intro fold_describes new_pipeline_describes)
  have settings: "pl_entity p = entity" "pl_keep_raw p = (Raw \<in> asked)" "pl_lenses p = None"
    by (simp_all add: assms(5) fold_settings new_pipeline_def Let_def)
  have bounds: "kept \<noteq> []" "length kept < 2 ^ 32"
    using buffered_bounds(1) [of env ?new "[]" ms] buffered_bounds(2) [of ms env ?new "[]"] assms(2,3)
    by (simp_all add: assms(6))
  obtain c p' where "pipeline_flush env p = (Inr [c], p')" "ch_entity c = pl_entity p"
    "message_chunk rows val (pl_keep_raw p) (columns_for_type (pe_archetype_ok env) type_name) c
       (forms p kept)" "drained p p'"
    using flush_one_chunk [OF assms(1) holds describes bounds settings(3)] by blast
  then show ?thesis
    using settings forms_fst [OF holds] drained_flush [of p p' env] drained_len [of p p']
    by (intro exI [of _ c] exI [of _ p']) (simp add: drained_def)
qed

theorem flush_delivers_messages_witness:
  "let ms = [byte_message 7 5, odd_message [9] 6, byte_message 8 7];
       p = fold (push_message byte_env) ms (byte_pipeline {Reflected} None);
       kept = buffered byte_env (byte_pipeline {Reflected} None) [] ms
   in \<exists>c p'. pipeline_flush byte_env p = (Inr [c], p') \<and> ch_entity c = 3
        \<and> message_chunk byte_rows byte_value (Raw \<in> {Reflected})
            (columns_for_type (pe_archetype_ok byte_env) ''std_msgs/msg/UInt8'') c (forms p kept)
        \<and> map fst (forms p kept) = kept
        \<and> pipeline_len p' = 0 \<and> pl_bytes p' = 0 \<and> pipeline_flush byte_env p' = (Inr [], p')"
  unfolding Let_def byte_pipeline_def
  by (rule flush_delivers_messages
      [OF byte_lawful _ _ byte_pipeline_plan [unfolded byte_pipeline_def] refl refl]) simp_all

text \<open>
  C20: a decoder that breaks costs at most the rows buffered with it, and nothing after it.
  Where raw copies are kept nothing is lost; otherwise the rows held before go and the
  message that broke the decoder is the first one kept. From there on the topic records
  raw: the next flush has the bytes of every message since, at its row.
\<close>

theorem broken_decoder_keeps_recording:
  assumes "lawful env plan held val rows" "holds held val p ms" "describes cols p" "pl_lenses p = None"
    and "breaks env p (in_cdr m)" "length ms + length later + 1 < 2 ^ 32"
    and "q = fold (push_message env) later (push_message env m p)"
    and "kept = (if pl_keep_raw p then ms else []) @ m # later"
  shows "pl_reflection q = None
    \<and> (\<exists>c q'. pipeline_flush env q = (Inr [c], q') \<and> ch_num_rows c = length kept
         \<and> map (blob_row cols c) [0..<length kept] = map (Some \<circ> in_cdr) kept)"
proof -
  let ?p = "push_message env m p"
  have laws: "decodes_rows env plan held val" using assms(1) by (simp add: lawful_def)
  have none: "pl_reflection ?p = None" using push_broken(2) [OF assms(2,5)] .
  then have q: "pl_reflection q = None" by (simp add: assms(7) no_reflection_fold)
  have "holds held val q (buffered env ?p (after_push env p ms m) later)"
    unfolding assms(7) by (rule buffered_holds [OF laws push_broken(1) [OF assms(2,5)]])
  then have holds: "holds held val q kept"
    using no_reflection_buffered [OF none] assms(5)
    by (cases "pl_keep_raw p") (simp_all add: assms(8) after_push_def)
  have cols: "describes cols q" unfolding assms(7) by (intro fold_describes push_describes assms(3))
  have "pl_lenses q = None" "kept \<noteq> []" "length kept < 2 ^ 32"
    using assms(4,6) by (simp_all add: assms(7,8) fold_settings push_settings)
  with flush_one_chunk [OF assms(1) holds cols] obtain c q' where
    c: "pipeline_flush env q = (Inr [c], q')" "message_chunk rows val (pl_keep_raw q) cols c (forms q kept)"
    by blast
  have forms: "forms q kept = map (\<lambda>m. (m, False)) kept" using q by (simp add: forms_def)
  have "blob_row cols c i = Some (in_cdr (kept ! i))" if "i < length kept" for i
    using c(2) that unfolding message_chunk_def forms by (simp add: blob_form_def)
  then have "map (blob_row cols c) [0..<length kept] = map (Some \<circ> in_cdr) kept"
    by (intro nth_equalityI) simp_all
  then show ?thesis using q c unfolding message_chunk_def forms by auto
qed

lemma byte_definition:
  "from_utf8 (string_bytes ''uint8 data'') = Some ''uint8 data''"
  "\<not> blank ''uint8 data''"
  "str_lines ''uint8 data'' = [''uint8 data'']"
  by (rule from_utf8_string, simp)
    (simp_all add: blank_def is_whitespace_def str_lines_def strip_cr_def Let_def)

lemma byte_reflection:
  "Reflected \<in> asked \<or> Lenses \<in> asked \<Longrightarrow> pl_reflection (byte_pipeline asked lenses) =
     Some \<lparr>rf_plan = byte_plan, rf_decoder = [], rf_descriptor = ''std_msgs.msg.UInt8:message''\<rparr>"
  by (simp add: byte_pipeline_def new_pipeline_def new_reflection_def byte_env_def
      reflected_descriptor_def descriptor_def dotted_def Let_def byte_definition)

theorem broken_decoder_keeps_recording_witness:
  "let p = push_message byte_env (byte_message 7 5) (byte_pipeline {Reflected} None);
       q = fold (push_message byte_env) [byte_message 8 7] (push_message byte_env (odd_message [] 6) p);
       kept = (if pl_keep_raw p then [byte_message 7 5] else []) @ odd_message [] 6 # [byte_message 8 7]
   in pl_reflection q = None
      \<and> (\<exists>c q'. pipeline_flush byte_env q = (Inr [c], q') \<and> ch_num_rows c = length kept
           \<and> map (blob_row byte_columns c) [0..<length kept] = map (Some \<circ> in_cdr) kept)"
proof -
  let ?p = "push_message byte_env (byte_message 7 5) (byte_pipeline {Reflected} None)"
  note reflection = byte_reflection [OF disjI1, of "{Reflected}" None]
  then have "\<not> breaks byte_env (byte_pipeline {Reflected} None) (in_cdr (byte_message 7 5))"
    by (simp add: breaks_def byte_env_def decode_byte_def byte_message_def ENCAPSULATION_def)
  then have "holds byte_held byte_value ?p [byte_message 7 5]"
    using push_holds [OF byte_laws [of byte_plan] byte_pipeline_holds, of "byte_message 7 5" "{Reflected}" None]
    by (simp add: after_push_def)
  moreover have "breaks byte_env ?p (in_cdr (odd_message [] 6))"
    using reflection
    by (simp add: breaks_def pipeline_push_def decode_row_def byte_env_def decode_byte_def
        byte_message_def odd_message_def ENCAPSULATION_def Let_def)
  moreover have "pl_lenses ?p = None"
    by (simp add: push_settings) (simp add: byte_pipeline_def new_pipeline_def Let_def)
  ultimately show ?thesis
    unfolding Let_def
    by (intro broken_decoder_keeps_recording [OF byte_lawful [of byte_plan] _ push_describes [OF byte_pipeline_describes]])
      simp_all
qed

end
