(* ===== verification/Stored.thy ===== *)
theory Stored
  imports Keeping
begin

text \<open>
  Whether the forms a topic says it stores are the forms its flushes emit. The lenses are a
  library: \<open>forwards_columns\<close> states what each output mode forwards of the chunk it is
  given, which is all the theorems rely on.
\<close>

section \<open>What the lenses forward\<close>

text \<open>
  \<open>ForwardAll\<close> forwards every column of its input, \<open>ForwardUnmatched\<close> those no lens takes as
  input, \<open>DropUnmatched\<close> none. What is forwarded stays on one chunk; every other column
  emitted is one a lens derived.
\<close>

definition survives :: "output_mode \<Rightarrow> string set \<Rightarrow> string \<Rightarrow> bool" where
  "survives mode inputs n =
     (case mode of
        ForwardAll \<Rightarrow> True
      | ForwardUnmatched \<Rightarrow> n \<notin> inputs
      | DropUnmatched \<Rightarrow> False)"

definition carries :: "'e chunk list \<Rightarrow> string \<Rightarrow> bool" where
  "carries cs n \<longleftrightarrow> list_ex (\<lambda>c. column c n \<noteq> None) cs"

definition forwards_columns ::
  "('e, 'd) pipeline_env \<Rightarrow> (string \<Rightarrow> bool) \<Rightarrow> string set \<Rightarrow> bool" where
  "forwards_columns env derived inputs \<longleftrightarrow>
     (\<forall>mode c out. pe_lenses env mode c = map Inr out \<longrightarrow>
        (\<forall>n. \<not> derived n \<longrightarrow> carries out n = (column c n \<noteq> None \<and> survives mode inputs n)))"

text \<open>No lens fails on any chunk.\<close>

definition lenses_work :: "('e, 'd) pipeline_env \<Rightarrow> bool" where
  "lenses_work env \<longleftrightarrow> (\<forall>mode c. \<exists>out. pe_lenses env mode c = map Inr out)"

lemma filter_map_Inr: "filter_map (\<lambda>r. case r of Inr c \<Rightarrow> Some c | Inl partial \<Rightarrow> snd partial) (map Inr out) = out"
  by (induction out) simp_all

lemma lensed_carries:
  assumes "forwards_columns env derived inputs" "lenses_work env" "\<not> derived n"
    and "pl_lenses p = Some ls"
  shows "carries (apply_lenses env p c) n = (column c n \<noteq> None \<and> survives (ls_mode ls) inputs n)"
proof -
  obtain out where out: "pe_lenses env (ls_mode ls) c = map Inr out"
    using assms(2) by (auto simp: lenses_work_def)
  then have "apply_lenses env p c = out" by (simp add: apply_lenses_def assms(4) filter_map_Inr)
  then show ?thesis using assms(1,3) out unfolding forwards_columns_def by blast
qed

lemma unlensed_carries:
  "pl_lenses p = None \<Longrightarrow> carries (apply_lenses env p c) n = (column c n \<noteq> None)"
  by (simp add: carries_def apply_lenses_def)

text \<open>A flush of a pipeline that holds messages is its message chunk through the lenses.\<close>

lemma flush_lensed:
  assumes "lawful env plan held val rows" "holds held val p ms" "describes cols p" "ms \<noteq> []" "length ms < 2 ^ 32"
  shows "\<exists>c p'. pipeline_flush env p = (Inr (apply_lenses env p c), p')
    \<and> message_chunk rows val (pl_keep_raw p) cols c (forms p ms)"
proof -
  obtain c p' where t: "pipeline_take env p = (Inr (Some c), p')"
    "message_chunk rows val (pl_keep_raw p) cols c (forms p ms)" "drained p p'"
    by (rule take_delivers [OF assms])
  moreover have "apply_lenses env p' c = apply_lenses env p c"
    using t(3) by (simp add: drained_def apply_lenses_def)
  ultimately show ?thesis
    by (intro exI [of _ c] exI [of _ p']) (simp add: pipeline_flush_def)
qed

section \<open>Which columns the message chunk has\<close>

section \<open>Topics whose messages all decode\<close>

fun all_decode :: "('e, 'd) pipeline_env \<Rightarrow> ('e, 'd) pipeline \<Rightarrow> incoming list \<Rightarrow> bool" where
  "all_decode env p [] = True"
| "all_decode env p (m # ms) =
     ((case pl_reflection p of
         None \<Rightarrow> True
       | Some rf \<Rightarrow> fst (pe_decode env (rf_decoder rf) (in_cdr m)) = Decoded)
      \<and> all_decode env (push_message env m p) ms)"

definition fully_decoded :: "('e, 'd) pipeline \<Rightarrow> bool" where
  "fully_decoded p \<longleftrightarrow> pl_reflection p = None \<or> list_all id (rb_decoded (pl_rows p))"

lemma push_decoded:
  assumes "fully_decoded p" "all_decode env p (m # ms)"
  shows "fully_decoded (push_message env m p)"
    "map_option rf_descriptor (pl_reflection (push_message env m p)) =
     map_option rf_descriptor (pl_reflection p)"
proof -
  have "fully_decoded (push_message env m p)
    \<and> map_option rf_descriptor (pl_reflection (push_message env m p)) =
      map_option rf_descriptor (pl_reflection p)"
  proof (cases "pl_reflection p")
    case None
    then show ?thesis by (simp add: fully_decoded_def no_reflection_stays)
  next
    case (Some rf)
    then obtain d where "pe_decode env (rf_decoder rf) (in_cdr m) = (Decoded, d)"
      using assms(2) by (auto simp: prod_eq_iff)
    then show ?thesis
      using Some assms(1)
      by (simp add: fully_decoded_def pipeline_push_def decode_row_def push_row Let_def)
  qed
  then show "fully_decoded (push_message env m p)"
    "map_option rf_descriptor (pl_reflection (push_message env m p)) =
     map_option rf_descriptor (pl_reflection p)" by auto
qed

lemma fold_decoded:
  assumes "fully_decoded p" "all_decode env p ms"
  shows "fully_decoded (fold (push_message env) ms p)
    \<and> map_option rf_descriptor (pl_reflection (fold (push_message env) ms p)) =
      map_option rf_descriptor (pl_reflection p)"
  using assms
proof (induction ms arbitrary: p)
  case (Cons m ms)
  from push_decoded [OF Cons.prems] Cons.IH [of "push_message env m p"] Cons.prems(2)
  show ?case by simp
qed simp

lemma decoded_forms:
  assumes "holds held val p ms" "fully_decoded p" "md \<in> set (forms p ms)"
  shows "snd md = (pl_reflection p \<noteq> None)"
proof (cases "pl_reflection p")
  case (Some rf)
  then have "snd md \<in> set (rb_decoded (pl_rows p))"
    using assms(3) by (cases md) (auto simp: forms_def dest: set_zip_rightD)
  then show ?thesis using assms(2) Some by (auto simp: fully_decoded_def list_all_iff)
qed (use assms(3) in \<open>auto simp: forms_def\<close>)

text \<open>The columns of the message chunk of a topic whose messages all decode.\<close>

lemma decoded_columns:
  assumes "message_chunk rows val (pl_keep_raw p) cols c (forms p ms)" "holds held val p ms"
    and "fully_decoded p" "ms \<noteq> []"
  shows "(column c (col_raw cols) \<noteq> None) = (pl_keep_raw p \<or> pl_reflection p = None)"
    "(Option.bind (col_reflected cols) (column c) \<noteq> None) = (pl_reflection p \<noteq> None)"
proof -
  have all: "\<forall>md \<in> set (forms p ms). snd md = (pl_reflection p \<noteq> None)"
    using decoded_forms [OF assms(2,3)] by blast
  have "forms p ms \<noteq> []" using forms_fst [OF assms(2)] assms(4) by auto
  then obtain md where md: "md \<in> set (forms p ms)" by (meson list.set_sel(1))
  have "(column c (col_raw cols) = None) = (\<forall>md \<in> set (forms p ms). blob_form (pl_keep_raw p) md = None)"
    "(Option.bind (col_reflected cols) (column c) = None) = (\<forall>md \<in> set (forms p ms). struct_form val md = None)"
    using assms(1) by (simp_all add: message_chunk_def)
  with all md show "(column c (col_raw cols) \<noteq> None) = (pl_keep_raw p \<or> pl_reflection p = None)"
    "(Option.bind (col_reflected cols) (column c) \<noteq> None) = (pl_reflection p \<noteq> None)"
    by (auto simp: blob_form_def struct_form_def)
qed

section \<open>What a topic announces\<close>

lemma new_pipeline_fields:
  "pl_keep_raw (new_pipeline env entity asked type_name enc text lenses) = (Raw \<in> asked)"
  "pl_lenses (new_pipeline env entity asked type_name enc text lenses) = lenses"
  "pl_stored (new_pipeline env entity asked type_name enc text lenses) =
     stored asked (pl_reflection (new_pipeline env entity asked type_name enc text lenses)) lenses"
  "pl_reflection (new_pipeline env entity asked type_name enc text lenses) \<noteq> None \<Longrightarrow>
     Reflected \<in> asked \<or> Lenses \<in> asked"
  "fully_decoded (new_pipeline env entity asked type_name enc text lenses)"
  by (auto simp: new_pipeline_def Let_def fully_decoded_def split: if_splits)

lemma lenses_for_cases:
  assumes "lenses_for env asked when_unmatched = Inr lenses" "pe_inputs env = Inr inputs"
  obtains "Lenses \<notin> asked" "lenses = None"
  | ls where "Lenses \<in> asked" "lenses = Some ls" "ls_inputs ls = set inputs"
      "ls_mode ls = (if Reflected \<in> asked then ForwardAll
                     else if when_unmatched = Keep then ForwardUnmatched else DropUnmatched)"
      "ls_keeps_unmatched ls = (ls_mode ls \<noteq> DropUnmatched)"
proof (cases "Lenses \<in> asked")
  case True
  have mode: "(case when_unmatched of Keep \<Rightarrow> ForwardUnmatched | Drop \<Rightarrow> DropUnmatched)
      = (if when_unmatched = Keep then ForwardUnmatched else DropUnmatched)"
    by (cases when_unmatched) simp_all
  define ls where "ls =
    (let mode = (if Reflected \<in> asked then ForwardAll
                 else if when_unmatched = Keep then ForwardUnmatched else DropUnmatched)
     in \<lparr>ls_mode = mode, ls_inputs = set inputs, ls_keeps_unmatched = (mode \<noteq> DropUnmatched)\<rparr>)"
  have "lenses = Some ls"
    using assms True unfolding lenses_for_def mode by (simp add: ls_def Let_def)
  from that(2) [OF True this] show thesis by (simp add: ls_def Let_def)
qed (use assms that(1) in \<open>simp add: lenses_for_def\<close>)

text \<open>
  C10: a topic announces what it keeps. Unless the recording asks for \<open>unmatched: drop\<close>, the
  flush of a topic whose messages decode has the blob column exactly when the topic says it
  stores raw, and the struct column exactly when it says it stores reflected, whatever was
  asked for, whether or not the definition could be reflected, and in every lens mode.
\<close>

theorem stored_is_kept:
  assumes "lawful env plan held val rows" "forwards_columns env derived (set inputs)" "lenses_work env"
    and "pe_inputs env = Inr inputs" "lenses_for env asked when_unmatched = Inr lenses"
    and "Lenses \<notin> asked \<or> Reflected \<in> asked \<or> when_unmatched = Keep"
    and "cols = columns_for_type (pe_archetype_ok env) type_name"
    and "\<And>n. holds_messages cols [n] \<Longrightarrow> \<not> derived n" "raw_descriptor \<notin> set inputs"
    and "new = new_pipeline env entity asked type_name enc text lenses"
    and "ms \<noteq> []" "length ms < 2 ^ 32" "all_decode env new ms" "follows_plan plan new"
  shows "\<exists>out p'. pipeline_flush env (fold (push_message env) ms new) = (Inr out, p')
    \<and> carries out raw_descriptor = (Raw \<in> pl_stored new)
    \<and> (case col_reflected cols of None \<Rightarrow> False | Some d \<Rightarrow> carries out d) = (Reflected \<in> pl_stored new)"
proof -
  let ?p = "fold (push_message env) ms new" and ?kept = "buffered env new [] ms"
  note fields = new_pipeline_fields [of env entity asked type_name enc "text" lenses, folded assms(10)]
  have holds: "holds held val ?p ?kept"
    using buffered_holds [OF _ new_pipeline_holds [of env plan held val]] assms(1,14)
    unfolding assms(10) lawful_def by blast
  have cols: "describes cols ?p"
    unfolding assms(7,10) by (intro fold_describes new_pipeline_describes)
  have decoded: "fully_decoded ?p" "map_option rf_descriptor (pl_reflection ?p) =
      map_option rf_descriptor (pl_reflection new)"
    using fold_decoded [OF fields(5) assms(13)] by auto
  have kept: "?kept \<noteq> []" "length ?kept < 2 ^ 32"
    using buffered_bounds(1) [of env new "[]" ms] buffered_bounds(2) [of ms env new "[]"] assms(11,12)
    by simp_all
  obtain c p' where c: "pipeline_flush env ?p = (Inr (apply_lenses env ?p c), p')"
    "message_chunk rows val (pl_keep_raw ?p) cols c (forms ?p ?kept)"
    using flush_lensed [OF assms(1) holds cols kept] by blast
  have lenses: "pl_lenses ?p = lenses" by (simp add: fold_settings fields(2))
  have same: "(pl_reflection ?p = None) = (pl_reflection new = None)"
    using arg_cong [OF decoded(2), of "\<lambda>d. d = None"] by simp
  have raw: "(column c raw_descriptor \<noteq> None) = (Raw \<in> asked \<or> pl_reflection new = None)"
    and bind: "(Option.bind (col_reflected cols) (column c) \<noteq> None) = (pl_reflection new \<noteq> None)"
    using decoded_columns [OF c(2) holds decoded(1) kept(1)] cols same fields(1)
    by (simp_all add: fold_settings describes_def)
  have not_derived: "\<not> derived raw_descriptor" "\<And>d. col_reflected cols = Some d \<Longrightarrow> \<not> derived d"
    using assms(8) cols by (auto simp: holds_messages_def describes_def)
  have desc: "col_reflected cols = Some (rf_descriptor rf)" if "pl_reflection new = Some rf" for rf
    using that decoded(2) cols by (auto simp: describes_def)
  from assms(5,4) show ?thesis
  proof (cases rule: lenses_for_cases)
    case 1
    note carried = unlensed_carries [OF lenses [unfolded 1(2)], of env c]
    show ?thesis
    proof (cases "pl_reflection new")
      case None
      then have "pl_stored new = {Raw}" by (simp add: fields(3) stored_def)
      then show ?thesis
        using c(1) carried raw bind None
        by (intro exI [of _ "apply_lenses env ?p c"] exI [of _ p']) (cases "col_reflected cols"; simp)
    next
      case (Some rf)
      then have "Reflected \<in> asked" using fields(4) 1(1) by blast
      then have "(Raw \<in> pl_stored new) = (Raw \<in> asked)" "Reflected \<in> pl_stored new"
        using Some 1(2) by (simp_all add: fields(3) stored_def Let_def)
      then show ?thesis
        using c(1) carried raw bind Some desc [OF Some]
        by (intro exI [of _ "apply_lenses env ?p c"] exI [of _ p']) simp
    qed
  next
    case (2 ls)
    note carried = lensed_carries [OF assms(2,3) _ lenses [unfolded 2(2)]]
    have kept_mode: "ls_mode ls \<noteq> DropUnmatched" using 2 assms(6) by auto
    then have "carries (apply_lenses env ?p c) raw_descriptor = (Raw \<in> pl_stored new)"
      using carried [OF not_derived(1)] raw fields(3) 2 assms(9)
      by (cases "ls_mode ls") (auto simp: survives_def stored_def Let_def split: option.splits)
    moreover have "(case col_reflected cols of None \<Rightarrow> False | Some d \<Rightarrow> carries (apply_lenses env ?p c) d)
         = (Reflected \<in> pl_stored new)"
    proof (cases "pl_reflection new")
      case None
      then show ?thesis using carried not_derived(2) bind fields(3)
        by (auto simp: stored_def split: option.splits)
    next
      case (Some rf)
      have "carries (apply_lenses env ?p c) (rf_descriptor rf)
          = survives (ls_mode ls) (set inputs) (rf_descriptor rf)"
        using carried [OF not_derived(2) [OF desc [OF Some]]] bind Some desc [OF Some] by simp
      moreover have "(Reflected \<in> asked) = (ls_mode ls = ForwardAll)"
        using 2(4) by (simp split: if_splits)
      ultimately show ?thesis
        using Some desc [OF Some] fields(3) 2(2,3,5) kept_mode
        by (cases "ls_mode ls") (auto simp: survives_def stored_def matches_def Let_def)
    qed
    ultimately show ?thesis using c(1) by blast
  qed
qed

lemma byte_pipeline_eq:
  "byte_pipeline asked lenses =
     new_pipeline byte_env 3 asked ''std_msgs/msg/UInt8'' REFLECTABLE_ENCODING
       (string_bytes ''uint8 data'') lenses"
  by (simp add: byte_pipeline_def)

lemma carries_no_messages:
  assumes "\<And>n. holds_messages cols [n] \<Longrightarrow> \<not> carries out n"
  shows "list_all (\<lambda>ch. \<not> holds_messages cols (map fst (ch_components ch))) out"
  unfolding list_all_iff
proof (intro ballI notI)
  fix ch assume ch: "ch \<in> set out" "holds_messages cols (map fst (ch_components ch))"
  then obtain n where n: "n \<in> fst ` set (ch_components ch)" "holds_messages cols [n]"
    by (auto simp: holds_messages_def list_ex_iff)
  then have "column ch n \<noteq> None" by (simp add: column_def map_of_eq_None_iff)
  then have "carries out n" using ch(1) by (auto simp: carries_def list_ex_iff)
  with assms [OF n(2)] show False by simp
qed

text \<open>
  The libraries of the witnesses: the lens library of \<open>byte_env\<close> forwards as its mode says.
\<close>

lemma byte_lenses:
  "forwards_columns byte_env (\<lambda>_. False) (set byte_inputs)" "lenses_work byte_env"
  "pe_inputs byte_env = Inr byte_inputs"
proof -
  have kept: "map_of (filter (\<lambda>x. fst x \<notin> A) cs) n = (if n \<in> A then None else map_of cs n)"
    for A n and cs :: "(string \<times> list_array) list"
    by (induction cs) auto
  show "forwards_columns byte_env (\<lambda>_. False) (set byte_inputs)"
    unfolding forwards_columns_def
  proof (intro allI impI)
    fix mode n and c :: "nat chunk" and out
    assume "pe_lenses byte_env mode c = map Inr out"
    then have out: "out = [projr x. x \<leftarrow> forward_only mode c]" by (simp add: byte_env_def comp_def)
    show "carries out n = (column c n \<noteq> None \<and> survives mode (set byte_inputs) n)"
      using kept [of "set byte_inputs" "ch_components c" n]
      by (cases mode)
        (auto simp: out forward_only_def carries_def survives_def column_def Let_def
          dest!: filter_empty_conv [THEN iffD1] map_of_SomeD split: if_splits)
  qed
  have "\<exists>out. forward_only mode c = map Inr out" for mode and c :: "nat chunk"
  proof (cases "forward_only mode c = []")
    case False
    then show ?thesis
      by (auto simp: forward_only_def Let_def split: if_splits intro: exI [of _ "[_]"])
  qed simp
  then show "lenses_work byte_env" by (simp add: lenses_work_def byte_env_def)
qed (simp add: byte_env_def)

theorem stored_is_kept_witness:
  "\<exists>lenses. lenses_for byte_env {Raw, Lenses} Keep = Inr lenses
     \<and> (let new = byte_pipeline {Raw, Lenses} lenses in
        \<exists>out p'. pipeline_flush byte_env (fold (push_message byte_env) [byte_message 7 5, byte_message 8 6] new) = (Inr out, p')
          \<and> carries out raw_descriptor = (Raw \<in> pl_stored new)
          \<and> (case col_reflected byte_columns of None \<Rightarrow> False | Some d \<Rightarrow> carries out d)
              = (Reflected \<in> pl_stored new))"
proof -
  let ?ls = "\<lparr>ls_mode = ForwardUnmatched, ls_inputs = set byte_inputs, ls_keeps_unmatched = True\<rparr>"
  have lenses: "lenses_for byte_env {Raw, Lenses} Keep = Inr (Some ?ls)"
    by (simp add: lenses_for_def byte_lenses(3) Let_def)
  have decode: "all_decode byte_env (byte_pipeline {Raw, Lenses} (Some ?ls)) [byte_message 7 5, byte_message 8 6]"
    using byte_reflection [of "{Raw, Lenses}" "Some ?ls"]
    by (simp add: pipeline_push_def decode_row_def byte_message_def Let_def)
      (simp add: byte_env_def decode_byte_def ENCAPSULATION_def)
  have "\<exists>out p'. pipeline_flush byte_env (fold (push_message byte_env) [byte_message 7 5, byte_message 8 6]
        (byte_pipeline {Raw, Lenses} (Some ?ls))) = (Inr out, p')
      \<and> carries out raw_descriptor = (Raw \<in> pl_stored (byte_pipeline {Raw, Lenses} (Some ?ls)))
      \<and> (case col_reflected byte_columns of None \<Rightarrow> False | Some d \<Rightarrow> carries out d)
         = (Reflected \<in> pl_stored (byte_pipeline {Raw, Lenses} (Some ?ls)))"
    by (rule stored_is_kept [OF byte_lawful byte_lenses lenses _ _ _ _ byte_pipeline_eq _ _ decode byte_pipeline_plan])
      (simp_all add: byte_columns_def byte_inputs_def raw_descriptor_def descriptor_def)
  with lenses show ?thesis by (intro exI [of _ "Some ?ls"]) (simp add: Let_def)
qed

section \<open>Dropping what no lens matched\<close>

text \<open>
  C30: under \<open>unmatched: drop\<close> a topic can announce raw bytes it does not keep. A configuration
  with raw beside the lenses passes the consistency check of the config file, and a topic
  created under it says it is replayable; but the blob column goes through the lenses with
  the rest of the chunk, and no chunk a flush emits holds messages in either form.
\<close>

theorem drop_discards_raw:
  assumes "lawful env plan held val rows" "forwards_columns env derived (set inputs)" "lenses_work env"
    and "pe_inputs env = Inr inputs" "drop_is_consistent c" "unmatched c = Drop" "Raw \<in> representations c"
    and "lenses_for env (representations c) (unmatched c) = Inr lenses"
    and "cols = columns_for_type (pe_archetype_ok env) type_name"
    and "\<And>n. holds_messages cols [n] \<Longrightarrow> \<not> derived n"
    and "new = new_pipeline env entity (representations c) type_name enc text lenses"
    and "ms \<noteq> []" "length ms < 2 ^ 32" "follows_plan plan new"
  shows "is_replayable new
    \<and> (\<exists>out p'. pipeline_flush env (fold (push_message env) ms new) = (Inr out, p')
         \<and> list_all (\<lambda>ch. \<not> holds_messages cols (map fst (ch_components ch))) out)"
proof -
  let ?p = "fold (push_message env) ms new" and ?kept = "buffered env new [] ms"
  note fields = new_pipeline_fields [of env entity "representations c" type_name enc "text" lenses,
      folded assms(11)]
  have asked: "Lenses \<in> representations c" "Reflected \<notin> representations c"
    using assms(5,6) by (auto simp: drop_is_consistent_def)
  then obtain ls where ls: "lenses = Some ls" "ls_mode ls = DropUnmatched"
    using lenses_for_cases [OF assms(8,4)] assms(6) by (auto split: if_splits)
  have holds: "holds held val ?p ?kept"
    using buffered_holds [OF _ new_pipeline_holds [of env plan held val]] assms(1,14)
    unfolding assms(11) lawful_def by blast
  have cols: "describes cols ?p"
    unfolding assms(9,11) by (intro fold_describes new_pipeline_describes)
  have kept: "?kept \<noteq> []" "length ?kept < 2 ^ 32"
    using buffered_bounds(1) [of env new "[]" ms] buffered_bounds(2) [of ms env new "[]"] assms(12,13)
    by simp_all
  obtain ch p' where ch: "pipeline_flush env ?p = (Inr (apply_lenses env ?p ch), p')"
    using flush_lensed [OF assms(1) holds cols kept] by blast
  have "pl_lenses ?p = Some ls" by (simp add: fold_settings fields(2) ls(1))
  from lensed_carries [OF assms(2,3) _ this]
  have "\<not> carries (apply_lenses env ?p ch) n" if "holds_messages cols [n]" for n
    using assms(10) [OF that] by (simp add: survives_def ls(2))
  then have "list_all (\<lambda>ch. \<not> holds_messages cols (map fst (ch_components ch))) (apply_lenses env ?p ch)"
    by (rule carries_no_messages)
  moreover have "is_replayable new"
    using assms(7) by (simp add: is_replayable_def fields(3) stored_def Let_def split: option.split)
  ultimately show ?thesis using ch by blast
qed

theorem drop_discards_raw_witness:
  "\<exists>c lenses. resolve (\<lambda>_. Some sample_file) (\<lambda>_. None :: unit option) ''none'' ''x'' = Inr c
     \<and> lenses_for byte_env (representations c) (unmatched c) = Inr lenses
     \<and> is_replayable (byte_pipeline (representations c) lenses)
     \<and> (\<exists>out p'. pipeline_flush byte_env
            (fold (push_message byte_env) [byte_message 7 5] (byte_pipeline (representations c) lenses)) = (Inr out, p')
          \<and> list_all (\<lambda>ch. \<not> holds_messages byte_columns (map fst (ch_components ch))) out)"
proof -
  let ?c = "projr (resolve (\<lambda>_. Some sample_file) (\<lambda>_. None :: unit option) ''none'' ''x'')"
  let ?ls = "\<lparr>ls_mode = DropUnmatched, ls_inputs = set byte_inputs, ls_keeps_unmatched = False\<rparr>"
  have c: "drop_is_consistent ?c" "unmatched ?c = Drop" "representations ?c = {Lenses, Raw}"
    by (simp_all add: resolve_sample drop_is_consistent_def)
  have lenses: "lenses_for byte_env (representations ?c) (unmatched ?c) = Inr (Some ?ls)"
    by (simp add: c lenses_for_def byte_lenses(3) Let_def)
  have "is_replayable (byte_pipeline (representations ?c) (Some ?ls))
    \<and> (\<exists>out p'. pipeline_flush byte_env (fold (push_message byte_env) [byte_message 7 5]
            (byte_pipeline (representations ?c) (Some ?ls))) = (Inr out, p')
        \<and> list_all (\<lambda>ch. \<not> holds_messages byte_columns (map fst (ch_components ch))) out)"
    by (rule drop_discards_raw [OF byte_lawful byte_lenses c(1,2) _ lenses _ _ byte_pipeline_eq _ _ byte_pipeline_plan])
      (simp_all add: c(3) byte_columns_def)
  with lenses show ?thesis
    by (intro exI [of _ ?c] exI [of _ "Some ?ls"]) (simp add: resolve_sample)
qed

end
