(* ===== verification/Topic.thy ===== *)
theory Topic
  imports Pipeline
begin

text \<open>
  \<open>record.rs\<close> and the \<open>Recording\<close> of \<open>writer.rs\<close>: when the rows of a topic are flushed,
  and the streams they are handed to. The clock and the streams are explicit: \<open>outside\<close> is
  what each stream was sent, what was logged, and the number of times the clock has been
  read, and every operation returns the outside after it. The \<open>n\<close>-th reading of the clock
  (\<open>Instant::now\<close>, in nanoseconds) is \<open>we_clock env n\<close>.
\<close>

section \<open>The streams\<close>

datatype 'e sent = SentChunk "'e chunk" | SentProperty string string

text \<open>The messages logged at \<open>info\<close> and above by \<open>pipeline.rs\<close>, \<open>record.rs\<close> and \<open>writer.rs\<close>.\<close>

datatype 'e diagnostic =
    FromPipeline 'e pipeline_event
  | StoredAs string representations
  | StaticsFailed string
  | RecordsNothing string
  | LensesOnly string
  | LivePropertyFailed string
  | LiveFlushFailed
  | TopicFlushFailed
  | MetadataFailed

record 'e outside =
  os_file :: "'e sent list"
  os_live :: "'e sent list option"
  os_log :: "'e diagnostic list"
  os_reads :: nat

text \<open>
  What the writer uses of the SDK and the clock: the pipeline's libraries, the clock, the
  entity path of a topic name, and the result of opening, connecting, recording a property
  and flushing a stream. Both streams are opened with the tick of the SDK's batcher.
\<close>

type_synonym instant = nat

datatype connection = Connecting | Connected | Disconnected

record ('e, 'd, 'u) writer_env =
  we_pipeline :: "('e, 'd) pipeline_env"
  we_clock :: "nat \<Rightarrow> instant"
  we_entity :: "string \<Rightarrow> 'e"
  we_random_id :: string
  we_save :: "duration \<Rightarrow> string \<Rightarrow> string \<Rightarrow> unit result"
  we_stream_to :: "duration \<Rightarrow> 'u \<Rightarrow> string \<Rightarrow> unit result"
  we_status :: "'u \<Rightarrow> nat \<Rightarrow> connection"
  we_file_property :: "string \<Rightarrow> string \<Rightarrow> unit result"
  we_live_property :: "string \<Rightarrow> string \<Rightarrow> unit result"
  we_file_flush :: "unit result"
  we_live_flush :: "unit result"

definition read_clock :: "('e, 'd, 'u) writer_env \<Rightarrow> 'e outside \<Rightarrow> instant \<times> 'e outside" where
  "read_clock env out = (we_clock env (os_reads out), out\<lparr>os_reads := Suc (os_reads out)\<rparr>)"

definition log_message :: "'e diagnostic \<Rightarrow> 'e outside \<Rightarrow> 'e outside" where
  "log_message d out = out\<lparr>os_log := os_log out @ [d]\<rparr>"

definition log_events :: "'e \<Rightarrow> pipeline_event list \<Rightarrow> 'e outside \<Rightarrow> 'e outside" where
  "log_events entity events out = out\<lparr>os_log := os_log out @ map (FromPipeline entity) events\<rparr>"

lemma log_events_fields [simp]:
  "os_file (log_events entity events out) = os_file out"
  "os_live (log_events entity events out) = os_live out"
  "os_reads (log_events entity events out) = os_reads out"
  by (simp_all add: log_events_def)

text \<open>\<open>Instant::elapsed\<close> saturates at zero, as subtraction on \<open>nat\<close> does.\<close>

definition elapsed :: "('e, 'd, 'u) writer_env \<Rightarrow> instant \<Rightarrow> 'e outside \<Rightarrow> duration \<times> 'e outside" where
  "elapsed env since out = (case read_clock env out of (now, out) \<Rightarrow> (now - since, out))"

definition send_chunk :: "'e chunk \<Rightarrow> 'e outside \<Rightarrow> 'e outside" where
  "send_chunk chunk out =
     (let out = (case os_live out of
                   None \<Rightarrow> out
                 | Some live \<Rightarrow> out\<lparr>os_live := Some (live @ [SentChunk chunk])\<rparr>)
      in out\<lparr>os_file := os_file out @ [SentChunk chunk]\<rparr>)"

definition send_property ::
  "('e, 'd, 'u) writer_env \<Rightarrow> string \<Rightarrow> string \<Rightarrow> 'e outside \<Rightarrow> unit result \<times> 'e outside" where
  "send_property env name text out =
     (let out = (case os_live out of
                   None \<Rightarrow> out
                 | Some live \<Rightarrow>
                     (case we_live_property env name text of
                        Inl _ \<Rightarrow> log_message (LivePropertyFailed name) out
                      | Inr _ \<Rightarrow> out\<lparr>os_live := Some (live @ [SentProperty name text])\<rparr>))
      in (case we_file_property env name text of
            Inl e \<Rightarrow> (Inl e, out)
          | Inr _ \<Rightarrow> (Inr (), out\<lparr>os_file := os_file out @ [SentProperty name text]\<rparr>)))"

section \<open>Topics\<close>

record ('e, 'd) topic =
  tp_entity :: 'e
  tp_pipeline :: "('e, 'd) pipeline"
  tp_policy :: flush_policy
  tp_last_flush :: instant
  tp_retired :: bool

definition new_topic ::
  "('e, 'd, 'u) writer_env \<Rightarrow> 'u recording_config \<Rightarrow> lens_set option \<Rightarrow> topic_record \<Rightarrow> 'e outside
   \<Rightarrow> ('e, 'd) topic \<times> 'e outside" where
  "new_topic env config lenses r out =
     (let entity = we_entity env (rec_topic r);
          pipeline = new_pipeline (we_pipeline env) entity (representations config) (rec_type_name r)
                       (rec_schema_encoding r) (rec_schema_text r) lenses;
          out = log_events entity
                  (new_events (we_pipeline env) (representations config) (rec_type_name r)
                     (rec_schema_encoding r) (rec_schema_text r)) out;
          out = (case topic_statics_chunk (pe_chunk (we_pipeline env)) entity r of
                   Inl _ \<Rightarrow> log_message (StaticsFailed (rec_topic r)) out
                 | Inr chunk \<Rightarrow> send_chunk chunk out);
          out = log_message (StoredAs (rec_topic r) (pl_stored pipeline)) out;
          out = (if records_nothing pipeline then log_message (RecordsNothing (rec_topic r)) out
                 else if \<not> is_replayable pipeline then log_message (LensesOnly (rec_topic r)) out
                 else out)
      in (case read_clock env out of
            (now, out) \<Rightarrow>
              (\<lparr>tp_entity = entity, tp_pipeline = pipeline, tp_policy = flush config,
                tp_last_flush = now, tp_retired = False\<rparr>, out)))"

definition retire :: "('e, 'd) topic \<Rightarrow> ('e, 'd) topic" where
  "retire t = t\<lparr>tp_retired := True\<rparr>"

text \<open>\<open>max_latency.is_some_and(|max| last_flush.elapsed() >= max)\<close> reads the clock only if asked.\<close>

definition overdue :: "('e, 'd, 'u) writer_env \<Rightarrow> ('e, 'd) topic \<Rightarrow> 'e outside \<Rightarrow> bool \<times> 'e outside" where
  "overdue env t out =
     (case max_latency (tp_policy t) of
        None \<Rightarrow> (False, out)
      | Some limit \<Rightarrow>
          (case elapsed env (tp_last_flush t) out of (waited, out) \<Rightarrow> (limit \<le> waited, out)))"

definition should_flush ::
  "('e, 'd, 'u) writer_env \<Rightarrow> ('e, 'd) topic \<Rightarrow> 'e outside \<Rightarrow> bool \<times> 'e outside" where
  "should_flush env t out =
     (let rows = pipeline_len (tp_pipeline t); policy = tp_policy t
      in if rows = 0 then (False, out)
         else if max_rows policy > 0 \<and> rows \<ge> max_rows policy then (True, out)
         else if max_bytes policy > 0 \<and> pl_bytes (tp_pipeline t) \<ge> max_bytes policy then (True, out)
         else overdue env t out)"

definition topic_flush ::
  "('e, 'd, 'u) writer_env \<Rightarrow> ('e, 'd) topic \<Rightarrow> 'e outside
   \<Rightarrow> unit result \<times> ('e, 'd) topic \<times> 'e outside" where
  "topic_flush env t out =
     (case read_clock env out of
        (now, out) \<Rightarrow>
          (let out = log_events (pl_entity (tp_pipeline t))
                       (flush_events (we_pipeline env) (tp_pipeline t)) out
           in case pipeline_flush (we_pipeline env) (tp_pipeline t) of
             (Inl e, p) \<Rightarrow> (Inl e, t\<lparr>tp_last_flush := now, tp_pipeline := p\<rparr>, out)
           | (Inr chunks, p) \<Rightarrow>
               (Inr (), t\<lparr>tp_last_flush := now, tp_pipeline := p\<rparr>, fold send_chunk chunks out)))"

definition topic_write ::
  "('e, 'd, 'u) writer_env \<Rightarrow> bytes \<Rightarrow> i64 \<Rightarrow> i64 \<Rightarrow> i64 \<Rightarrow> ('e, 'd) topic \<Rightarrow> 'e outside
   \<Rightarrow> unit result \<times> ('e, 'd) topic \<times> 'e outside" where
  "topic_write env cdr recv send sequence t out =
     (if tp_retired t then (Inr (), t, out)
      else
        (let out = log_events (pl_entity (tp_pipeline t)) (push_events (we_pipeline env) cdr (tp_pipeline t)) out;
             t = t\<lparr>tp_pipeline := pipeline_push (we_pipeline env) cdr recv send sequence (tp_pipeline t)\<rparr>
         in (case should_flush env t out of
               (True, out) \<Rightarrow> topic_flush env t out
             | (False, out) \<Rightarrow> (Inr (), t, out))))"

definition flush_if_stale ::
  "('e, 'd, 'u) writer_env \<Rightarrow> ('e, 'd) topic \<Rightarrow> 'e outside
   \<Rightarrow> unit result \<times> ('e, 'd) topic \<times> 'e outside" where
  "flush_if_stale env t out =
     (case overdue env t out of
        (stale, out) \<Rightarrow>
          if stale \<and> pipeline_len (tp_pipeline t) \<noteq> 0 then topic_flush env t out
          else (Inr (), t, out))"

end
