(* ===== verification/Writer.thy ===== *)
theory Writer
  imports Topic
begin

text \<open>
  \<open>writer.rs\<close>: one open bag being written. Opening chooses the recording id, opens the file
  and, if the configuration names a server, waits for a connection; the other operations
  are functions from the writer before to the result and the writer after.
\<close>

section \<open>Opening\<close>

definition CONNECT_TIMEOUT :: duration where
  "CONNECT_TIMEOUT = 5 * 1000000000"

text \<open>
  The loop of \<open>connect\<close>, which polls the sink until it is connected, closed, or the time is
  up. It may poll for ever if the clock stands still, so it is a partial function of the
  number of the poll; each turn that goes on reads the clock once.
\<close>

partial_function (option) connect_loop ::
  "('e, 'd, 'u) writer_env \<Rightarrow> 'u \<Rightarrow> instant \<Rightarrow> nat \<Rightarrow> 'e outside \<Rightarrow> (unit result \<times> 'e outside) option"
where
  "connect_loop env uri started poll out =
     (case we_status env uri poll of
        Connected \<Rightarrow> Some (Inr (), out)
      | Disconnected \<Rightarrow> Some (Inl (External ''could not connect to the Rerun server''), out)
      | Connecting \<Rightarrow>
          (case elapsed env started out of
             (waited, out) \<Rightarrow>
               if waited < CONNECT_TIMEOUT then connect_loop env uri started (Suc poll) out
               else Some (Inl (External ''no Rerun server answered''), out)))"

definition connect ::
  "('e, 'd, 'u) writer_env \<Rightarrow> 'u \<Rightarrow> 'e outside \<Rightarrow> (unit result \<times> 'e outside) option" where
  "connect env uri out =
     (case read_clock env out of (started, out) \<Rightarrow> connect_loop env uri started 0 out)"

text \<open>Waiting for a connection sends nothing.\<close>

lemma connect_loop_file:
  assumes "connect_loop env uri started poll out = Some y"
  shows "os_file (snd y) = os_file out"
proof (rule connect_loop.raw_induct [OF _ assms, where P = "\<lambda>env uri started poll out y. os_file (snd y) = os_file out"])
  fix loop env uri started poll y and out :: "'a outside"
  assume rec: "\<And>env uri started poll (out :: 'a outside) y.
      loop env uri started poll out = Some y \<Longrightarrow> os_file (snd y) = os_file out"
    and body: "(case we_status env uri poll of
        Connecting \<Rightarrow>
          (case elapsed env started out of
             (waited, out) \<Rightarrow>
               if waited < CONNECT_TIMEOUT then loop env uri started (Suc poll) out
               else Some (Inl (External ''no Rerun server answered''), out))
      | Connected \<Rightarrow> Some (Inr (), out)
      | Disconnected \<Rightarrow> Some (Inl (External ''could not connect to the Rerun server''), out)) = Some y"
  show "os_file (snd y) = os_file out"
    using body rec [of env uri started "Suc poll" "out\<lparr>os_reads := Suc (os_reads out)\<rparr>" y]
    by (auto simp: elapsed_def read_clock_def split: connection.splits if_splits)
qed

lemma connect_file: "connect env uri out = Some (r, out') \<Longrightarrow> os_file out' = os_file out"
  by (auto simp: connect_def read_clock_def dest: connect_loop_file)

text \<open>The batcher only passes our chunks along, so its tick is the latency the recording asks for.\<close>

definition flush_tick :: "'u recording_config \<Rightarrow> duration" where
  "flush_tick config = unwrap_or (max_latency (flush config)) (from_millis 200)"

definition recording_open ::
  "('e, 'd, 'u) writer_env \<Rightarrow> string \<Rightarrow> 'u recording_config \<Rightarrow> nat
   \<Rightarrow> ('e outside result) option" where
  "recording_open env path config reads =
     (let recording_id = unwrap_or (recording_id config) (we_random_id env)
      in (case we_save env (flush_tick config) path recording_id of
            Inl e \<Rightarrow> Some (Inl e)
          | Inr _ \<Rightarrow>
              (let out = \<lparr>os_file = [], os_live = None, os_log = [], os_reads = reads\<rparr>
               in (case server_uri config of
                     None \<Rightarrow> Some (Inr out)
                   | Some uri \<Rightarrow>
                       (case connect env uri out of
                          None \<Rightarrow> None
                        | Some (Inl e, _) \<Rightarrow> Some (Inl e)
                        | Some (Inr _, out) \<Rightarrow>
                            (case we_stream_to env (flush_tick config) uri recording_id of
                               Inl e \<Rightarrow> Some (Inl e)
                             | Inr _ \<Rightarrow> Some (Inr (out\<lparr>os_live := Some []\<rparr>))))))))"

record ('e, 'd, 'u) writer =
  wr_out :: "'e outside"
  wr_config :: "'u recording_config"
  wr_lenses :: "lens_set option"
  wr_topics :: "('e, 'd) topic list"
  wr_topic_ids :: "string \<Rightarrow> usize option"
  wr_next_sequence :: i64
  wr_last_sweep :: instant
  wr_metadata_yaml :: "string option"

definition writer_open ::
  "('e, 'd, 'u) writer_env \<Rightarrow> string \<Rightarrow> 'u recording_config \<Rightarrow> nat
   \<Rightarrow> (('e, 'd, 'u) writer result) option" where
  "writer_open env path config reads =
     (case lenses_for (we_pipeline env) (representations config) (unmatched config) of
        Inl e \<Rightarrow> Some (Inl e)
      | Inr lenses \<Rightarrow>
          (case recording_open env path config reads of
             None \<Rightarrow> None
           | Some (Inl e) \<Rightarrow> Some (Inl e)
           | Some (Inr out) \<Rightarrow>
               (case read_clock env out of
                  (now, out) \<Rightarrow>
                    Some (Inr \<lparr>wr_out = out, wr_config = config, wr_lenses = lenses,
                               wr_topics = [], wr_topic_ids = (\<lambda>_. None), wr_next_sequence = 0,
                               wr_last_sweep = now, wr_metadata_yaml = None\<rparr>))))"

section \<open>Topics\<close>

definition create_topic ::
  "('e, 'd, 'u) writer_env \<Rightarrow> topic_record \<Rightarrow> ('e, 'd, 'u) writer \<Rightarrow> usize \<times> ('e, 'd, 'u) writer"
where
  "create_topic env r w =
     (case wr_topic_ids w (rec_topic r) of
        Some i \<Rightarrow> (i, w)
      | None \<Rightarrow>
          (let i = length (wr_topics w)
           in (case new_topic env (wr_config w) (wr_lenses w) r (wr_out w) of
                 (t, out) \<Rightarrow>
                   (i, w\<lparr>wr_topic_ids := (wr_topic_ids w)(rec_topic r \<mapsto> i),
                         wr_topics := wr_topics w @ [t], wr_out := out\<rparr>))))"

text \<open>The loop of \<open>sweep_stale_topics\<close>, which stops at the first topic that fails.\<close>

fun sweep_topics ::
  "('e, 'd, 'u) writer_env \<Rightarrow> ('e, 'd) topic list \<Rightarrow> 'e outside
   \<Rightarrow> unit result \<times> ('e, 'd) topic list \<times> 'e outside" where
  "sweep_topics env [] out = (Inr (), [], out)"
| "sweep_topics env (t # ts) out =
     (case flush_if_stale env t out of
        (Inl e, t, out) \<Rightarrow> (Inl e, t # ts, out)
      | (Inr _, t, out) \<Rightarrow>
          (case sweep_topics env ts out of (r, ts, out) \<Rightarrow> (r, t # ts, out)))"

definition sweep_stale_topics ::
  "('e, 'd, 'u) writer_env \<Rightarrow> ('e, 'd, 'u) writer \<Rightarrow> unit result \<times> ('e, 'd, 'u) writer" where
  "sweep_stale_topics env w =
     (case max_latency (flush (wr_config w)) of
        None \<Rightarrow> (Inr (), w)
      | Some limit \<Rightarrow>
          (case elapsed env (wr_last_sweep w) (wr_out w) of
             (waited, out) \<Rightarrow>
               if waited < limit then (Inr (), w\<lparr>wr_out := out\<rparr>)
               else
                 (case read_clock env out of
                    (now, out) \<Rightarrow>
                      (case sweep_topics env (wr_topics w) out of
                         (r, ts, out) \<Rightarrow>
                           (r, w\<lparr>wr_last_sweep := now, wr_topics := ts, wr_out := out\<rparr>)))))"

definition writer_write ::
  "('e, 'd, 'u) writer_env \<Rightarrow> usize \<Rightarrow> bytes \<Rightarrow> i64 \<Rightarrow> i64 \<Rightarrow> ('e, 'd, 'u) writer
   \<Rightarrow> unit result \<times> ('e, 'd, 'u) writer" where
  "writer_write env topic cdr recv send w =
     (let sequence = wr_next_sequence w;
          w = w\<lparr>wr_next_sequence := wrap_i64 (sequence + 1)\<rparr>
      in (case get (wr_topics w) topic of
            None \<Rightarrow> (Inl (NoSuchTopic topic), w)
          | Some t \<Rightarrow>
              (case topic_write env cdr recv send sequence t (wr_out w) of
                 (r, t, out) \<Rightarrow>
                   (let w = w\<lparr>wr_topics := (wr_topics w)[topic := t], wr_out := out\<rparr>
                    in (case r of
                          Inl e \<Rightarrow> (Inl e, w)
                        | Inr _ \<Rightarrow> sweep_stale_topics env w)))))"

definition remove_topic ::
  "('e, 'd, 'u) writer_env \<Rightarrow> string \<Rightarrow> ('e, 'd, 'u) writer \<Rightarrow> unit result \<times> ('e, 'd, 'u) writer"
where
  "remove_topic env name w =
     (case wr_topic_ids w name of
        None \<Rightarrow> (Inr (), w)
      | Some i \<Rightarrow>
          (let w = w\<lparr>wr_topic_ids := (wr_topic_ids w)(name := None)\<rparr>
           in (case get (wr_topics w) i of
                 None \<Rightarrow> (Inr (), w)
               | Some t \<Rightarrow>
                   (case topic_flush env t (wr_out w) of
                      (Inl e, t, out) \<Rightarrow>
                        (Inl e, w\<lparr>wr_topics := (wr_topics w)[i := t], wr_out := out\<rparr>)
                    | (Inr _, t, out) \<Rightarrow>
                        (Inr (), w\<lparr>wr_topics := (wr_topics w)[i := retire t], wr_out := out\<rparr>)))))"

definition set_metadata :: "string \<Rightarrow> ('e, 'd, 'u) writer \<Rightarrow> ('e, 'd, 'u) writer" where
  "set_metadata yaml w = w\<lparr>wr_metadata_yaml := Some yaml\<rparr>"

section \<open>Closing\<close>

text \<open>A topic that fails to flush is logged; the others are flushed all the same.\<close>

fun close_topics ::
  "('e, 'd, 'u) writer_env \<Rightarrow> ('e, 'd) topic list \<Rightarrow> 'e outside \<Rightarrow> 'e outside" where
  "close_topics env [] out = out"
| "close_topics env (t # ts) out =
     (case topic_flush env t out of
        (Inl _, _, out) \<Rightarrow> close_topics env ts (log_message TopicFlushFailed out)
      | (Inr _, _, out) \<Rightarrow> close_topics env ts out)"

text \<open>The live stream's flush is a warning at most, the file's is the result.\<close>

definition recording_close ::
  "('e, 'd, 'u) writer_env \<Rightarrow> 'e outside \<Rightarrow> unit result \<times> 'e outside" where
  "recording_close env out =
     (let out = (if os_live out \<noteq> None \<and> isl (we_live_flush env)
                 then log_message LiveFlushFailed out else out)
      in (we_file_flush env, out))"

definition writer_close ::
  "('e, 'd, 'u) writer_env \<Rightarrow> ('e, 'd, 'u) writer \<Rightarrow> unit result \<times> 'e outside" where
  "writer_close env w =
     (let out = close_topics env (wr_topics w) (wr_out w);
          out = (case wr_metadata_yaml w of
                   None \<Rightarrow> out
                 | Some yaml \<Rightarrow>
                     (case send_property env METADATA_PROPERTY yaml out of
                        (Inl _, out) \<Rightarrow> log_message MetadataFailed out
                      | (Inr _, out) \<Rightarrow> out))
      in recording_close env out)"

end
