(* ===== verification/Policy.thy ===== *)
theory Policy
  imports Writer
begin

text \<open>
  The flush policy: what a topic may still hold after each operation, whatever happens to
  the flush itself. The topic relies on its row buffer through the locale \<open>row_buffer\<close>, and
  the pipeline is interpreted as one.
\<close>

section \<open>The interface of a row buffer\<close>

locale row_buffer =
  fixes push :: "'m \<Rightarrow> 'b \<Rightarrow> 'b"
    and flush_out :: "'b \<Rightarrow> 'r \<times> 'b"
    and rows :: "'b \<Rightarrow> nat"
    and volume :: "'b \<Rightarrow> nat"
  assumes push_fills: "0 < rows (push m b)"
    and push_one: "rows (push m b) \<le> Suc (rows b)"
    and flush_empties: "0 < rows b \<Longrightarrow> rows (snd (flush_out b)) = 0 \<and> volume (snd (flush_out b)) = 0"
    and flush_idle: "rows b = 0 \<Longrightarrow> snd (flush_out b) = b"

definition within_limits :: "flush_policy \<Rightarrow> nat \<Rightarrow> nat \<Rightarrow> bool" where
  "within_limits policy rows volume \<longleftrightarrow>
     (max_rows policy = 0 \<or> rows < max_rows policy)
     \<and> (max_bytes policy = 0 \<or> volume < max_bytes policy)"

context row_buffer
begin

lemma flush_within:
  "within_limits policy (rows b) (volume b) \<Longrightarrow>
     within_limits policy (rows (snd (flush_out b))) (volume (snd (flush_out b)))"
  using flush_empties [of b] flush_idle [of b]
  by (cases "rows b") (auto simp: within_limits_def)

lemma push_flush_within:
  assumes "due \<or> within_limits policy (rows (push m b)) (volume (push m b))"
  shows "within_limits policy
     (rows (if due then snd (flush_out (push m b)) else push m b))
     (volume (if due then snd (flush_out (push m b)) else push m b))"
  using assms flush_empties [OF push_fills, of m b] by (auto simp: within_limits_def)

lemma flush_leaves_none: "rows (snd (flush_out b)) = 0"
  using flush_empties [of b] flush_idle [of b] by (cases "rows b") simp_all

end

section \<open>The pipeline is a row buffer\<close>

type_synonym arrival = "bytes \<times> i64 \<times> i64 \<times> i64"

definition push_arrival ::
  "('e, 'd) pipeline_env \<Rightarrow> arrival \<Rightarrow> ('e, 'd) pipeline \<Rightarrow> ('e, 'd) pipeline" where
  "push_arrival env a = pipeline_push env (fst a) (fst (snd a)) (fst (snd (snd a))) (snd (snd (snd a)))"

lemma push_len:
  "pipeline_len (pipeline_push env cdr recv send sequence p) > 0"
  "pipeline_len (pipeline_push env cdr recv send sequence p) \<le> Suc (pipeline_len p)"
  by (auto simp: pipeline_push_def decode_row_def pipeline_len_def rows_len_def rows_push_def
      times_push_def no_rows_def Let_def split: option.splits prod.splits decoding.splits)

lemma take_leaves:
  assumes "0 < pipeline_len p"
  shows "pipeline_len (snd (pipeline_take env p)) = 0 \<and> pl_bytes (snd (pipeline_take env p)) = 0"
  using assms
  by (auto simp: pipeline_take_def pipeline_len_def rows_len_def no_rows_def Let_def
      split: sum.splits prod.splits option.splits)

lemma take_idle: "pipeline_len p = 0 \<Longrightarrow> pipeline_take env p = (Inr None, p)"
  by (simp add: pipeline_take_def pipeline_len_def)

lemma snd_flush: "snd (pipeline_flush env p) = snd (pipeline_take env p)"
  by (auto simp: pipeline_flush_def split: prod.splits sum.splits option.splits)

interpretation pipeline_buffer:
  row_buffer "push_arrival env" "pipeline_flush env" pipeline_len pl_bytes
  by unfold_locales
    (simp_all add: push_arrival_def push_len snd_flush take_leaves take_idle)

section \<open>What a topic holds\<close>

definition within_policy :: "('e, 'd) topic \<Rightarrow> bool" where
  "within_policy t \<longleftrightarrow>
     within_limits (tp_policy t) (pipeline_len (tp_pipeline t)) (pl_bytes (tp_pipeline t))"

lemma topic_flush_topic:
  "fst (snd (topic_flush env t out)) =
     t\<lparr>tp_last_flush := we_clock env (os_reads out),
       tp_pipeline := snd (pipeline_flush (we_pipeline env) (tp_pipeline t))\<rparr>"
  by (simp add: topic_flush_def Let_def read_clock_def split: prod.splits sum.splits)

lemma should_flush_false:
  "fst (should_flush env t out) = False \<Longrightarrow> 0 < pipeline_len (tp_pipeline t) \<Longrightarrow> within_policy t"
  by (auto simp: should_flush_def within_policy_def within_limits_def Let_def split: if_splits)

lemma should_flush_logged:
  "should_flush env t (log_events entity events out) = map_prod id (log_events entity events) (should_flush env t out)"
  by (simp add: should_flush_def overdue_def elapsed_def read_clock_def log_events_def Let_def split: option.split)

lemma topic_write_topic:
  "fst (snd (topic_write env cdr recv send sequence t out)) =
     (if tp_retired t then t
      else
        (let pushed = t\<lparr>tp_pipeline := pipeline_push (we_pipeline env) cdr recv send sequence (tp_pipeline t)\<rparr>
         in if fst (should_flush env pushed out)
            then fst (snd (topic_flush env pushed (snd (should_flush env pushed out))))
            else pushed))"
  by (cases "should_flush env (t\<lparr>tp_pipeline := pipeline_push (we_pipeline env) cdr recv send sequence (tp_pipeline t)\<rparr>) out")
    (simp add: topic_write_def Let_def should_flush_logged topic_flush_topic split: bool.split)

lemma write_stays_within_policy:
  assumes "within_policy t"
  shows "within_policy (fst (snd (topic_write env cdr recv send sequence t out)))"
proof (cases "tp_retired t")
  case False
  let ?arrival = "(cdr, recv, send, sequence)"
  let ?pushed = "t\<lparr>tp_pipeline := push_arrival (we_pipeline env) ?arrival (tp_pipeline t)\<rparr>"
  let ?due = "fst (should_flush env ?pushed out)"
  have "?due \<or> within_limits (tp_policy t) (pipeline_len (tp_pipeline ?pushed)) (pl_bytes (tp_pipeline ?pushed))"
    using should_flush_false [of env ?pushed out] pipeline_buffer.push_fills [of _ ?arrival "tp_pipeline t"]
    by (auto simp: within_policy_def)
  from pipeline_buffer.push_flush_within [of ?due "tp_policy t" "we_pipeline env" ?arrival "tp_pipeline t"]
    this False
  show ?thesis
    by (auto simp: topic_write_topic topic_flush_topic within_policy_def Let_def push_arrival_def
        split: if_splits)
qed (use assms in \<open>simp add: topic_write_topic\<close>)

lemma flush_stays_within_policy:
  "within_policy t \<Longrightarrow> within_policy (fst (snd (topic_flush env t out)))"
  using pipeline_buffer.flush_within [of "tp_policy t" "tp_pipeline t" "we_pipeline env"]
  by (simp add: topic_flush_topic within_policy_def)

lemma stale_stays_within_policy:
  "within_policy t \<Longrightarrow> within_policy (fst (snd (flush_if_stale env t out)))"
  by (auto simp: flush_if_stale_def flush_stays_within_policy split: prod.split)

lemma retire_within_policy: "within_policy t \<Longrightarrow> within_policy (retire t)"
  by (simp add: retire_def within_policy_def)

lemma new_topic_within_policy: "within_policy (fst (new_topic env config lenses r out))"
  by (auto simp: new_topic_def within_policy_def within_limits_def new_pipeline_def no_rows_def
      pipeline_len_def rows_len_def read_clock_def Let_def)

end
