(* ===== verification/Sample_Writer.thy ===== *)
theory Sample_Writer
  imports Writer Sample_Pipeline
begin

text \<open>
  A concrete writer for the witnesses: the libraries of \<open>Sample_Pipeline\<close>, streams that
  accept everything, and a clock that advances by 60 ms at every reading.
\<close>

definition byte_writer_env :: "(nat, bytes, unit) writer_env" where
  "byte_writer_env =
     \<lparr>we_pipeline = byte_env, we_clock = (\<lambda>n. n * 60000000), we_entity = (\<lambda>name. Suc (length name)),
      we_random_id = ''rec'', we_save = (\<lambda>_ _ _. Inr ()), we_stream_to = (\<lambda>_ _ _. Inr ()),
      we_status = (\<lambda>_ n. if n < 3 then Connecting else Connected),
      we_file_property = (\<lambda>_ _. Inr ()), we_live_property = (\<lambda>_ _. Inl (External ''closed'')),
      we_file_flush = Inr (), we_live_flush = Inl (External ''closed'')\<rparr>"

definition byte_config :: "representations \<Rightarrow> unit option \<Rightarrow> unit recording_config" where
  "byte_config asked server =
     \<lparr>flush = \<lparr>max_rows = 64, max_bytes = 8 * MIB, max_latency = Some (from_millis 200)\<rparr>,
      representations = asked, unmatched = Keep, recording_id = None, server_uri = server\<rparr>"

definition byte_writer :: "representations \<Rightarrow> (nat, bytes, unit) writer" where
  "byte_writer asked =
     \<lparr>wr_out = \<lparr>os_file = [], os_live = None, os_log = [], os_reads = 1\<rparr>,
      wr_config = byte_config asked None, wr_lenses = None, wr_topics = [],
      wr_topic_ids = (\<lambda>_. None), wr_next_sequence = 0, wr_last_sweep = 0, wr_metadata_yaml = None\<rparr>"

lemma byte_writer_env_pipeline [simp]: "we_pipeline byte_writer_env = byte_env"
  by (simp add: byte_writer_env_def)

lemma byte_writer_opens:
  "Lenses \<notin> asked \<Longrightarrow>
     writer_open byte_writer_env ''bag.rrd'' (byte_config asked None) 0 = Some (Inr (byte_writer asked))"
  by (simp add: writer_open_def lenses_for_def byte_config_def recording_open_def byte_writer_def
      byte_writer_env_def read_clock_def Let_def)

definition byte_topic :: "string \<Rightarrow> topic_record" where
  "byte_topic name =
     \<lparr>rec_topic = name, rec_type_name = ''std_msgs/msg/UInt8'', rec_schema_encoding = REFLECTABLE_ENCODING,
      rec_schema_text = string_bytes ''uint8 data'', rec_qos_profiles = [], rec_type_hash = []\<rparr>"

end
