(* ===== verification/Session.thy ===== *)
theory Session
  imports Policy Sample_Writer
begin

text \<open>
  Sessions of a writer: the calls the storage plugin makes on an open bag, one after the
  other, and what every state they reach satisfies.
\<close>

section \<open>Calls\<close>

datatype command =
    CreateTopic topic_record
  | WriteMessage usize bytes i64 i64
  | RemoveTopic string
  | SetMetadata string

datatype reply = TopicId usize | Status "unit result"

definition perform ::
  "('e, 'd, 'u) writer_env \<Rightarrow> command \<Rightarrow> ('e, 'd, 'u) writer \<Rightarrow> reply \<times> ('e, 'd, 'u) writer" where
  "perform env c w =
     (case c of
        CreateTopic r \<Rightarrow> map_prod TopicId id (create_topic env r w)
      | WriteMessage topic cdr recv send \<Rightarrow> map_prod Status id (writer_write env topic cdr recv send w)
      | RemoveTopic name \<Rightarrow> map_prod Status id (remove_topic env name w)
      | SetMetadata yaml \<Rightarrow> (Status (Inr ()), set_metadata yaml w))"

text \<open>A session: the replies of a list of calls and the writer after them.\<close>

fun session ::
  "('e, 'd, 'u) writer_env \<Rightarrow> command list \<Rightarrow> ('e, 'd, 'u) writer \<Rightarrow> reply list \<times> ('e, 'd, 'u) writer"
where
  "session env [] w = ([], w)"
| "session env (c # cs) w =
     (case perform env c w of
        (r, w) \<Rightarrow> (case session env cs w of (rs, w) \<Rightarrow> (r # rs, w)))"

inductive writing ::
  "('e, 'd, 'u) writer_env \<Rightarrow> 'u recording_config \<Rightarrow> ('e, 'd, 'u) writer \<Rightarrow> bool"
  for env config where
  opened: "writer_open env path config reads = Some (Inr w) \<Longrightarrow> writing env config w"
| called: "writing env config w \<Longrightarrow> writing env config (snd (perform env c w))"

inductive_cases writingE: "writing env config w"

lemma session_Cons: "snd (session env (c # cs) w) = snd (session env cs (snd (perform env c w)))"
  by (simp add: split_beta)

lemma writing_session: "writing env config w \<Longrightarrow> writing env config (snd (session env cs w))"
proof (induction cs arbitrary: w)
  case (Cons c cs)
  show ?case unfolding session_Cons by (rule Cons.IH [OF writing.called [OF Cons.prems]])
qed simp

text \<open>What the calls do to the list of topics, one topic at a time.\<close>

lemma sweep_topics_Cons:
  "fst (snd (sweep_topics env (t # ts) out)) =
     fst (snd (flush_if_stale env t out)) #
     (if isl (fst (flush_if_stale env t out)) then ts
      else fst (snd (sweep_topics env ts (snd (snd (flush_if_stale env t out))))))"
  by (simp split: prod.split sum.split)

lemma sweep_topics_all:
  assumes "\<And>t out. P t \<Longrightarrow> P (fst (snd (flush_if_stale env t out)))" "list_all P ts"
  shows "list_all P (fst (snd (sweep_topics env ts out)))"
  using assms(2)
proof (induction ts arbitrary: out)
  case (Cons t ts)
  then show ?case using assms(1) by (simp add: sweep_topics_Cons del: sweep_topics.simps)
qed simp

lemma sweep_length: "length (fst (snd (sweep_topics env ts out))) = length ts"
  by (induction ts arbitrary: out)
    (simp_all add: sweep_topics_Cons del: sweep_topics.simps(2))

lemma sweep_stale_all:
  assumes "\<And>t out. P t \<Longrightarrow> P (fst (snd (flush_if_stale env t out)))" "list_all P (wr_topics w)"
  shows "list_all P (wr_topics (snd (sweep_stale_topics env w)))"
proof -
  have "list_all P (fst (snd (sweep_topics env (wr_topics w) out)))" for out
    by (rule sweep_topics_all [OF assms])
  then show ?thesis
    using assms(2)
    by (auto simp: sweep_stale_topics_def elapsed_def read_clock_def split: option.split prod.split)
      (metis fst_conv snd_conv)
qed

lemma list_all_update: "list_all P xs \<Longrightarrow> P x \<Longrightarrow> list_all P (xs[i := x])"
  by (auto simp: list_all_iff dest: set_update_subset_insert [THEN subsetD])

lemma list_all_get: "list_all P xs \<Longrightarrow> get xs i = Some x \<Longrightarrow> P x"
  by (auto simp: get_def list_all_length split: if_splits)

text \<open>
  The configuration never changes. A property of topics that new topics have and every topic operation keeps holds of all
  topics throughout a session.
\<close>

lemma sweep_stale_frame:
  "wr_config (snd (sweep_stale_topics env w)) = wr_config w"
  "wr_topic_ids (snd (sweep_stale_topics env w)) = wr_topic_ids w"
  "wr_lenses (snd (sweep_stale_topics env w)) = wr_lenses w"
  "wr_next_sequence (snd (sweep_stale_topics env w)) = wr_next_sequence w"
  "wr_metadata_yaml (snd (sweep_stale_topics env w)) = wr_metadata_yaml w"
  "length (wr_topics (snd (sweep_stale_topics env w))) = length (wr_topics w)"
  using sweep_length [of env "wr_topics w"]
  by (auto simp: sweep_stale_topics_def split: option.split prod.split) (metis fst_conv snd_conv)

lemma perform_config: "wr_config (snd (perform env c w)) = wr_config w"
  by (auto simp: perform_def create_topic_def writer_write_def remove_topic_def set_metadata_def
      sweep_stale_frame Let_def split: command.split option.split prod.split sum.split)

lemma writing_config: "writing env config w \<Longrightarrow> wr_config w = config"
  by (induction rule: writing.induct)
    (auto simp: perform_config writer_open_def split: sum.splits option.splits prod.splits)

lemma writing_all:
  assumes "writing env config w"
    and new_ok: "\<And>lenses r out. P (fst (new_topic env config lenses r out))"
    and write_ok: "\<And>cdr recv send sequence t out. P t \<Longrightarrow> P (fst (snd (topic_write env cdr recv send sequence t out)))"
    and flush_ok: "\<And>t out. P t \<Longrightarrow> P (fst (snd (topic_flush env t out)))"
    and retire_ok: "\<And>t. P t \<Longrightarrow> P (retire t)"
  shows "list_all P (wr_topics w)"
  using assms(1)
proof induction
  case (opened path reads w)
  then show ?case by (auto simp: writer_open_def split: sum.splits option.splits prod.splits)
next
  case (called w c)
  have stale: "P t \<Longrightarrow> P (fst (snd (flush_if_stale env t out)))" for t out
    using flush_ok by (auto simp: flush_if_stale_def split: prod.split)
  show ?case
  proof (cases c)
    case (CreateTopic r)
    then show ?thesis
      using called.IH new_ok [of "wr_lenses w" r "wr_out w"] writing_config [OF called.hyps]
      by (auto simp: perform_def create_topic_def Let_def split: option.splits prod.splits)
  next
    case (WriteMessage topic cdr recv send)
    show ?thesis
    proof (cases "get (wr_topics w) topic")
      case None
      then show ?thesis using called.IH by (simp add: WriteMessage perform_def writer_write_def Let_def)
    next
      case (Some t)
      let ?s = "wr_next_sequence w"
      obtain r t' out where t': "topic_write env cdr recv send ?s t (wr_out w) = (r, t', out)"
        using prod_cases3 by blast
      have "P t'" using write_ok [OF list_all_get [OF called.IH Some], of cdr recv send ?s "wr_out w"] t' by simp
      then have "list_all P ((wr_topics w)[topic := t'])" using called.IH by (simp add: list_all_update)
      with sweep_stale_all [of P env, OF stale] show ?thesis
        using Some t'
        by (cases r) (simp_all add: WriteMessage perform_def writer_write_def Let_def)
    qed
  next
    case (RemoveTopic name)
    have "P (fst (snd (topic_flush env t (wr_out w))))" if "get (wr_topics w) i = Some t" for i t
      using flush_ok list_all_get [OF called.IH that] by blast
    then show ?thesis
      using called.IH retire_ok
      by (fastforce simp: RemoveTopic perform_def remove_topic_def Let_def intro: list_all_update
          split: option.splits prod.splits sum.splits)
  next
    case (SetMetadata yaml)
    then show ?thesis using called.IH by (simp add: perform_def set_metadata_def)
  qed
qed

section \<open>The flush policy over a session\<close>

lemma topic_policy:
  "tp_policy (fst (snd (topic_flush env t out))) = tp_policy t"
  "tp_policy (fst (snd (topic_write env cdr recv send sequence t out))) = tp_policy t"
  "tp_policy (retire t) = tp_policy t"
  "tp_policy (fst (new_topic env config lenses r out)) = flush config"
  by (auto simp: topic_flush_topic topic_write_topic retire_def new_topic_def read_clock_def Let_def)

lemma session_within:
  assumes "writing env config w"
  shows "list_all (\<lambda>t. within_policy t \<and> tp_policy t = flush config) (wr_topics w)"
  by (rule writing_all [OF assms])
    (simp_all add: topic_policy new_topic_within_policy write_stays_within_policy
      flush_stays_within_policy retire_within_policy)

text \<open>
  C11: the flush policy bounds what a crash can lose. In every state a session reaches, every
  topic holds fewer rows than \<open>max_rows\<close> and fewer payload bytes than \<open>max_bytes\<close>, where the
  recording sets those, whatever errors the calls reported on the way.
\<close>

theorem session_stays_within_policy:
  assumes "writing env config w"
  shows "list_all (\<lambda>t. within_limits (flush config) (pipeline_len (tp_pipeline t)) (pl_bytes (tp_pipeline t)))
    (wr_topics w)"
  using session_within [OF assms] by (auto simp: list_all_iff within_policy_def)

lemma byte_writing: "Lenses \<notin> asked \<Longrightarrow> writing byte_writer_env (byte_config asked None) (byte_writer asked)"
  by (rule writing.opened [OF byte_writer_opens])

theorem session_stays_within_policy_witness:
  "list_all (\<lambda>t. within_limits (flush (byte_config {Raw} None)) (pipeline_len (tp_pipeline t)) (pl_bytes (tp_pipeline t)))
    (wr_topics (snd (perform byte_writer_env (CreateTopic (byte_topic ''/a'')) (byte_writer {Raw}))))"
  by (rule session_stays_within_policy [OF writing.called [OF byte_writing]]) simp

section \<open>Topic indices\<close>

definition ids_ok :: "('e, 'd, 'u) writer_env \<Rightarrow> ('e, 'd, 'u) writer \<Rightarrow> bool" where
  "ids_ok env w \<longleftrightarrow>
     (\<forall>name i. wr_topic_ids w name = Some i \<longrightarrow>
        i < length (wr_topics w) \<and> tp_entity (wr_topics w ! i) = we_entity env name
        \<and> \<not> tp_retired (wr_topics w ! i))
     \<and> (\<forall>name name' i. wr_topic_ids w name = Some i \<longrightarrow> wr_topic_ids w name' = Some i \<longrightarrow> name = name')"

text \<open>What a call leaves of the topics that were there: their slots and what they record.\<close>

definition same_slot :: "('e, 'd) topic \<Rightarrow> ('e, 'd) topic \<Rightarrow> bool" where
  "same_slot t t' \<longleftrightarrow> tp_entity t' = tp_entity t \<and> tp_policy t' = tp_policy t \<and> tp_retired t' = tp_retired t"

lemma same_slot_refl [simp]: "same_slot t t"
  by (simp add: same_slot_def)

lemma topic_flush_slot: "same_slot t (fst (snd (topic_flush env t out)))"
  by (simp add: same_slot_def topic_flush_topic)

lemma topic_write_slot: "same_slot t (fst (snd (topic_write env cdr recv send sequence t out)))"
  by (simp add: same_slot_def topic_write_topic topic_flush_topic Let_def)

lemma stale_slot: "same_slot t (fst (snd (flush_if_stale env t out)))"
  by (auto simp: flush_if_stale_def topic_flush_slot split: prod.split)

lemma sweep_slots: "list_all2 same_slot ts (fst (snd (sweep_topics env ts out)))"
  by (induction ts arbitrary: out)
    (simp_all add: sweep_topics_Cons stale_slot list_all2_refl del: sweep_topics.simps(2))

lemma sweep_stale_slots: "list_all2 same_slot (wr_topics w) (wr_topics (snd (sweep_stale_topics env w)))"
  using sweep_slots [of "wr_topics w" env]
  by (auto simp: sweep_stale_topics_def list_all2_refl split: option.split prod.split)
    (metis fst_conv snd_conv)

lemma ids_ok_slots:
  assumes "ids_ok env w" "wr_topic_ids w' = wr_topic_ids w" "list_all2 same_slot (wr_topics w) (wr_topics w')"
  shows "ids_ok env w'"
  using assms by (auto simp: ids_ok_def list_all2_conv_all_nth same_slot_def)

lemma write_slots: "list_all2 same_slot (wr_topics w) (wr_topics (snd (writer_write env topic cdr recv send w)))"
proof (cases "get (wr_topics w) topic")
  case (Some t)
  let ?s = "wr_next_sequence w"
  obtain r t' out where t': "topic_write env cdr recv send ?s t (wr_out w) = (r, t', out)"
    using prod_cases3 by blast
  then have "same_slot t t'" using topic_write_slot [of t env cdr recv send ?s "wr_out w"] by simp
  then have slots: "list_all2 same_slot (wr_topics w) ((wr_topics w)[topic := t'])"
    using Some by (auto simp: list_all2_conv_all_nth nth_list_update)
  let ?w = "w\<lparr>wr_next_sequence := wrap_i64 (?s + 1), wr_topics := (wr_topics w)[topic := t'], wr_out := out\<rparr>"
  have "list_all2 same_slot (wr_topics ?w) (wr_topics (snd (sweep_stale_topics env ?w)))"
    by (rule sweep_stale_slots)
  then have "list_all2 same_slot (wr_topics w) (wr_topics (snd (sweep_stale_topics env ?w)))"
    using slots by (auto simp: list_all2_conv_all_nth same_slot_def)
  then show ?thesis
    using slots Some t' by (cases r) (simp_all add: writer_write_def Let_def)
qed (simp add: writer_write_def Let_def list_all2_refl)

lemma write_ids: "wr_topic_ids (snd (writer_write env topic cdr recv send w)) = wr_topic_ids w"
  by (simp add: writer_write_def Let_def sweep_stale_frame split: option.split prod.split sum.split)

lemma ids_ok_create:
  assumes "ids_ok env w" "create_topic env r w = (i, w')"
  shows "ids_ok env w' \<and> wr_topic_ids w' (rec_topic r) = Some i
    \<and> (\<exists>ts. wr_topics w' = wr_topics w @ ts)"
proof (cases "wr_topic_ids w (rec_topic r)")
  case None
  obtain t out where t: "new_topic env (wr_config w) (wr_lenses w) r (wr_out w) = (t, out)" by fastforce
  then have "tp_entity t = we_entity env (rec_topic r)" "\<not> tp_retired t"
    by (auto simp: new_topic_def read_clock_def Let_def)
  moreover have "wr_topic_ids w n \<noteq> Some (length (wr_topics w))" for n
    using assms(1) by (auto simp: ids_ok_def)
  ultimately show ?thesis
    using assms None t
    by (auto simp: create_topic_def Let_def ids_ok_def nth_append less_Suc_eq split: if_splits)
qed (use assms in \<open>simp add: create_topic_def\<close>)

lemma ids_ok_remove:
  assumes "ids_ok env w"
  shows "ids_ok env (snd (remove_topic env name w))"
proof (cases "wr_topic_ids w name")
  case (Some i)
  then have i: "i < length (wr_topics w)" using assms by (simp add: ids_ok_def)
  obtain r t out where t: "topic_flush env (wr_topics w ! i) (wr_out w) = (r, t, out)"
    using prod_cases3 by blast
  then have "same_slot (wr_topics w ! i) t"
    using topic_flush_slot [of "wr_topics w ! i" env "wr_out w"] by simp
  then show ?thesis
    using assms Some i t
    by (cases r) (auto simp: remove_topic_def ids_ok_def Let_def get_def same_slot_def retire_def nth_list_update)
qed (use assms in \<open>simp add: remove_topic_def\<close>)

lemma ids_ok_perform: "ids_ok env w \<Longrightarrow> ids_ok env (snd (perform env c w))"
proof (cases c)
  case (CreateTopic r)
  assume "ids_ok env w"
  then show ?thesis
    using ids_ok_create [of env w r "fst (create_topic env r w)" "snd (create_topic env r w)"]
    by (simp add: CreateTopic perform_def)
next
  case (WriteMessage topic cdr recv send)
  assume "ids_ok env w"
  then show ?thesis
    by (simp add: WriteMessage perform_def ids_ok_slots [OF _ write_ids write_slots])
next
  case (RemoveTopic name)
  assume "ids_ok env w"
  then show ?thesis by (simp add: RemoveTopic perform_def ids_ok_remove)
next
  case (SetMetadata yaml)
  assume "ids_ok env w"
  then show ?thesis by (simp add: SetMetadata perform_def set_metadata_def ids_ok_def)
qed

lemma writing_ids: "writing env config w \<Longrightarrow> ids_ok env w"
proof (induction rule: writing.induct)
  case (opened path reads w)
  then show ?case
    by (auto simp: writer_open_def ids_ok_def split: sum.splits option.splits prod.splits)
qed (rule ids_ok_perform)

lemma perform_slots:
  assumes "i < length (wr_topics w)"
  shows "i < length (wr_topics (snd (perform env c w)))
    \<and> tp_entity (wr_topics (snd (perform env c w)) ! i) = tp_entity (wr_topics w ! i)"
proof (cases c)
  case (CreateTopic r)
  then show ?thesis
    using assms
    by (auto simp: perform_def create_topic_def Let_def nth_append split: option.split prod.split)
next
  case (WriteMessage topic cdr recv send)
  then show ?thesis
    using assms write_slots [of w env topic cdr recv send]
    by (auto simp: perform_def list_all2_conv_all_nth same_slot_def)
next
  case (RemoveTopic name)
  have "tp_entity (fst (snd (topic_flush env t out))) = tp_entity t" for t out
    using topic_flush_slot [of t env out] by (simp add: same_slot_def)
  then show ?thesis
    using assms
    by (auto simp: RemoveTopic perform_def remove_topic_def Let_def retire_def nth_list_update get_def
        split: option.split prod.split sum.split) (metis fst_conv snd_conv)+
next
  case (SetMetadata yaml)
  then show ?thesis using assms by (simp add: perform_def set_metadata_def)
qed

lemma session_slots:
  assumes "i < length (wr_topics w)"
  shows "i < length (wr_topics (snd (session env cs w)))
    \<and> tp_entity (wr_topics (snd (session env cs w)) ! i) = tp_entity (wr_topics w ! i)"
  using assms
proof (induction cs arbitrary: w)
  case (Cons c cs)
  note step = perform_slots [OF Cons.prems, of env c]
  from Cons.IH [OF conjunct1 [OF step]] step show ?case by (simp add: split_beta)
qed simp

text \<open>
  C18: the index \<open>create_topic\<close> hands out is a live slot that records the topic of that name;
  declaring the topic again gives the same index and changes nothing; topics already there
  keep their slots; and no later calls, however many and removing the topic included, move the
  slot or give it to another entity.
\<close>

theorem topic_indices_stay_valid:
  assumes "writing env config w" "create_topic env r w = (i, w')"
  shows "i < length (wr_topics w')
    \<and> tp_entity (wr_topics w' ! i) = we_entity env (rec_topic r) \<and> \<not> tp_retired (wr_topics w' ! i)
    \<and> create_topic env r w' = (i, w')
    \<and> take (length (wr_topics w)) (wr_topics w') = wr_topics w
    \<and> i < length (wr_topics (snd (session env cs w')))
    \<and> tp_entity (wr_topics (snd (session env cs w')) ! i) = we_entity env (rec_topic r)"
proof -
  note made = ids_ok_create [OF writing_ids [OF assms(1)] assms(2)]
  then have slot: "i < length (wr_topics w')" "tp_entity (wr_topics w' ! i) = we_entity env (rec_topic r)"
    "\<not> tp_retired (wr_topics w' ! i)"
    by (auto simp: ids_ok_def)
  then show ?thesis
    using made session_slots [OF slot(1), of env cs] by (auto simp: create_topic_def)
qed

theorem topic_indices_stay_valid_witness:
  "\<exists>i w'. create_topic byte_writer_env (byte_topic ''/a'') (byte_writer {Raw}) = (i, w')
    \<and> i < length (wr_topics w') \<and> create_topic byte_writer_env (byte_topic ''/a'') w' = (i, w')
    \<and> tp_entity (wr_topics (snd (session byte_writer_env
          [CreateTopic (byte_topic ''/b''), RemoveTopic ''/a'', CreateTopic (byte_topic ''/a'')] w')) ! i)
        = we_entity byte_writer_env ''/a''"
proof -
  obtain i w' where "create_topic byte_writer_env (byte_topic ''/a'') (byte_writer {Raw}) = (i, w')"
    by fastforce
  with topic_indices_stay_valid [OF byte_writing this,
      of "[CreateTopic (byte_topic ''/b''), RemoveTopic ''/a'', CreateTopic (byte_topic ''/a'')]"]
  show ?thesis by (auto simp: byte_topic_def)
qed

end
