(* ===== verification/Connecting.thy ===== *)
theory Connecting
  imports Sample_Writer
begin

text \<open>
  Opening a recording that streams to a server: the loop that waits for the connection ends,
  within the number of polls the timeout allows, and a writer is only handed out when the
  server has answered.
\<close>

text \<open>The documented behaviour of \<open>thread::sleep\<close>: from the second reading on, the clock is
  at least 50 ms on at each turn of the loop.\<close>

definition sleeps :: "('e, 'd, 'u) writer_env \<Rightarrow> nat \<Rightarrow> bool" where
  "sleeps env reads \<longleftrightarrow>
     we_clock env reads \<le> we_clock env (Suc reads)
     \<and> (\<forall>n. reads < n \<longrightarrow> we_clock env n + 50000000 \<le> we_clock env (Suc n))"

lemma sleeps_clock:
  assumes "sleeps env reads"
  shows "we_clock env reads + n * 50000000 \<le> we_clock env (reads + Suc n)"
proof (induction n)
  case (Suc n)
  have "we_clock env (reads + Suc n) + 50000000 \<le> we_clock env (reads + Suc (Suc n))"
    using assms by (simp add: sleeps_def)
  with Suc show ?case by simp
qed (use assms in \<open>simp add: sleeps_def\<close>)

text \<open>What the poll that ends the loop answers.\<close>

fun connection_answer :: "connection \<Rightarrow> unit result" where
  "connection_answer Connected = Inr ()"
| "connection_answer Disconnected = Inl (External ''could not connect to the Rerun server'')"
| "connection_answer Connecting = Inl (External ''no Rerun server answered'')"

lemma connect_loop_steps:
  assumes "sleeps env reads" "poll \<le> 100" "os_reads out = reads + Suc poll"
    and "started = we_clock env reads"
  shows "\<exists>k r. poll \<le> k \<and> k \<le> 100 \<and> (\<forall>i. poll \<le> i \<longrightarrow> i < k \<longrightarrow> we_status env uri i = Connecting)
    \<and> connect_loop env uri started poll out = Some (r, out\<lparr>os_reads := reads + Suc k
         + (if we_status env uri k = Connecting then 1 else 0)\<rparr>)
    \<and> r = connection_answer (we_status env uri k)
    \<and> (we_status env uri k = Connecting \<longrightarrow> CONNECT_TIMEOUT \<le> we_clock env (reads + Suc k) - started)"
  using assms(2,3)
proof (induction "100 - poll" arbitrary: poll out)
  case 0
  then have poll: "poll = 100" by simp
  have late: "CONNECT_TIMEOUT \<le> we_clock env (reads + Suc poll) - started"
    using sleeps_clock [OF assms(1), of 100] poll assms(4) by (simp add: CONNECT_TIMEOUT_def)
  show ?case
    by (rule exI [of _ poll])
      (use poll late 0 in \<open>cases "we_status env uri poll"; cases out;
        simp add: connect_loop.simps [of env uri started 100] elapsed_def read_clock_def\<close>)
next
  case (Suc n)
  show ?case
  proof (cases "we_status env uri poll = Connecting
      \<and> we_clock env (os_reads out) - started < CONNECT_TIMEOUT")
    case True
    let ?out = "out\<lparr>os_reads := Suc (os_reads out)\<rparr>"
    have next_poll: "connect_loop env uri started poll out = connect_loop env uri started (Suc poll) ?out"
      using True by (simp add: connect_loop.simps [of env uri started poll] elapsed_def read_clock_def)
    have pre: "n = 100 - Suc poll" "Suc poll \<le> 100" "os_reads ?out = reads + Suc (Suc poll)"
      using Suc.hyps(2) Suc.prems by simp_all
    obtain k r where k: "Suc poll \<le> k" "k \<le> 100"
      "\<forall>i. Suc poll \<le> i \<longrightarrow> i < k \<longrightarrow> we_status env uri i = Connecting"
      "connect_loop env uri started (Suc poll) ?out = Some (r, ?out\<lparr>os_reads := reads + Suc k
         + (if we_status env uri k = Connecting then 1 else 0)\<rparr>)"
      "r = connection_answer (we_status env uri k)"
      "we_status env uri k = Connecting \<longrightarrow> CONNECT_TIMEOUT \<le> we_clock env (reads + Suc k) - started"
      using Suc.hyps(1) [OF pre] by blast
    then have "\<forall>i. poll \<le> i \<longrightarrow> i < k \<longrightarrow> we_status env uri i = Connecting"
      using True by (metis Suc_leI le_neq_implies_less)
    with k next_poll show ?thesis
      by (intro exI [of _ k] exI [of _ r]) (simp add: Suc_diff_le)
  next
    case False
    then show ?thesis
      by (intro exI [of _ poll])
        (use Suc.prems in \<open>cases "we_status env uri poll"; cases out;
          simp add: connect_loop.simps [of env uri started poll] elapsed_def read_clock_def\<close>)
  qed
qed

text \<open>
  The polling of a server: every poll before poll \<open>k\<close> finds the sink still connecting, poll \<open>k\<close>
  decides, and if it gives up then because the time is up. The clock was read once at the
  start, once by each poll that went on, and once by the poll that gave up: there was no
  other poll.
\<close>

definition fresh_streams :: "nat \<Rightarrow> 'e outside" where
  "fresh_streams reads = \<lparr>os_file = [], os_live = None, os_log = [], os_reads = reads\<rparr>"

definition polled :: "('e, 'd, 'u) writer_env \<Rightarrow> nat \<Rightarrow> 'u \<Rightarrow> nat \<Rightarrow> bool" where
  "polled env reads uri k \<longleftrightarrow>
     (\<forall>i < k. we_status env uri i = Connecting)
     \<and> (we_status env uri k = Connecting \<longrightarrow>
          CONNECT_TIMEOUT \<le> we_clock env (reads + Suc k) - we_clock env reads)
     \<and> connect env uri (fresh_streams reads) =
          Some (connection_answer (we_status env uri k),
            fresh_streams (reads + Suc k + (if we_status env uri k = Connecting then 1 else 0)))"

lemma connect_polls:
  assumes "sleeps env reads"
  shows "\<exists>k \<le> 100. polled env reads uri k"
proof -
  let ?out = "(fresh_streams reads)\<lparr>os_reads := reads + Suc 0\<rparr>"
  have "os_reads ?out = reads + Suc 0" by simp
  from connect_loop_steps [OF assms _ this refl, of uri] show ?thesis
    by (auto simp: polled_def connect_def read_clock_def fresh_streams_def)
qed

text \<open>
  C23: opening always returns. The loop that polls the server makes at most 101 polls
  before it has a connection, a refusal or a timeout, whichever of them it is; a refusal
  and a timeout fail the opening, and it fails for no other reason than these, a
  lens set or a file that cannot be opened, or a stream that cannot be set up. A writer that
  streams to a server comes only from a server that answered and starts with nothing on
  either stream, and an opening without a server never waits at all.
\<close>

theorem open_returns:
  assumes "sleeps env reads"
  shows "\<exists>r. \<exists>k \<le> 100. writer_open env path config reads = Some r
    \<and> (\<forall>uri. server_uri config = Some uri \<longrightarrow> polled env reads uri k)
    \<and> (case r of
         Inl e \<Rightarrow> lenses_for (we_pipeline env) (representations config) (unmatched config) = Inl e
           \<or> we_save env (flush_tick config) path (unwrap_or (recording_id config) (we_random_id env)) = Inl e
           \<or> (\<exists>uri. server_uri config = Some uri
               \<and> (connection_answer (we_status env uri k) = Inl e
                  \<or> we_status env uri k = Connected
                    \<and> we_stream_to env (flush_tick config) uri (unwrap_or (recording_id config) (we_random_id env)) = Inl e))
       | Inr w \<Rightarrow> os_file (wr_out w) = []
           \<and> (case server_uri config of
                None \<Rightarrow> os_live (wr_out w) = None \<and> os_reads (wr_out w) = Suc reads
              | Some uri \<Rightarrow> os_live (wr_out w) = Some [] \<and> we_status env uri k = Connected
                  \<and> os_reads (wr_out w) = reads + k + 2))"
proof (cases "server_uri config")
  case None
  then show ?thesis
    by (auto simp: writer_open_def recording_open_def read_clock_def Let_def split: sum.split)
next
  case (Some uri)
  obtain k where k: "k \<le> 100" "polled env reads uri k" using connect_polls [OF assms] by blast
  have connect: "connect env uri \<lparr>os_file = [], os_live = None, os_log = [], os_reads = reads\<rparr> =
      Some (connection_answer (we_status env uri k),
        \<lparr>os_file = [], os_live = None, os_log = [],
         os_reads = reads + Suc k + (if we_status env uri k = Connecting then 1 else 0)\<rparr>)"
    using k(2) by (simp add: polled_def fresh_streams_def)
  have "\<exists>r. writer_open env path config reads = Some r
    \<and> (case r of
         Inl e \<Rightarrow> lenses_for (we_pipeline env) (representations config) (unmatched config) = Inl e
           \<or> we_save env (flush_tick config) path (unwrap_or (recording_id config) (we_random_id env)) = Inl e
           \<or> connection_answer (we_status env uri k) = Inl e
           \<or> we_status env uri k = Connected
             \<and> we_stream_to env (flush_tick config) uri (unwrap_or (recording_id config) (we_random_id env)) = Inl e
       | Inr w \<Rightarrow> os_file (wr_out w) = [] \<and> os_live (wr_out w) = Some []
           \<and> we_status env uri k = Connected \<and> os_reads (wr_out w) = reads + k + 2)"
    using connect Some
    by (cases "we_status env uri k")
      (auto simp: writer_open_def recording_open_def read_clock_def Let_def split: sum.split)
  then obtain r where "writer_open env path config reads = Some r"
    "case r of
         Inl e \<Rightarrow> lenses_for (we_pipeline env) (representations config) (unmatched config) = Inl e
           \<or> we_save env (flush_tick config) path (unwrap_or (recording_id config) (we_random_id env)) = Inl e
           \<or> connection_answer (we_status env uri k) = Inl e
           \<or> we_status env uri k = Connected
             \<and> we_stream_to env (flush_tick config) uri (unwrap_or (recording_id config) (we_random_id env)) = Inl e
       | Inr w \<Rightarrow> os_file (wr_out w) = [] \<and> os_live (wr_out w) = Some []
           \<and> we_status env uri k = Connected \<and> os_reads (wr_out w) = reads + k + 2"
    by blast
  with k Some show ?thesis by (intro exI [of _ r] exI [of _ k]) (simp split: sum.splits)
qed

theorem open_returns_witness:
  "\<exists>r. \<exists>k \<le> 100. writer_open byte_writer_env ''bag.rrd'' (byte_config {Raw} (Some ())) 0 = Some r
    \<and> polled byte_writer_env 0 () k"
  using open_returns [of byte_writer_env 0 "''bag.rrd''" "byte_config {Raw} (Some ())"]
  by (auto simp: sleeps_def byte_writer_env_def byte_config_def)

text \<open>A server that never answers: the opening gives up with the poll at which the time is up.\<close>

definition silent_env :: "(nat, bytes, unit) writer_env" where
  "silent_env = byte_writer_env\<lparr>we_status := (\<lambda>_ _. Connecting)\<rparr>"

lemma silent_server:
  "\<exists>e. writer_open silent_env ''bag.rrd'' (byte_config {Raw} (Some ())) 0 = Some (Inl e)
    \<and> e = External ''no Rerun server answered''"
proof -
  have sleeps: "sleeps silent_env 0" by (simp add: sleeps_def silent_env_def byte_writer_env_def)
  obtain k where "polled silent_env 0 () k" using connect_polls [OF sleeps] by blast
  then show ?thesis
    by (simp add: polled_def silent_env_def fresh_streams_def writer_open_def recording_open_def
        byte_config_def lenses_for_def byte_writer_env_def Let_def)
qed

end
