(* ===== verification/Live.thy ===== *)
theory Live
  imports Session
begin

text \<open>
  The two streams of a recording: what happens on the live stream never shows in the file or
  in a result, and what was watched live is what is on disk. The topic operations share this
  contract as the locale \<open>topic_operation\<close>, which the writer's loops rest on.
\<close>

section \<open>A recording without its live stream\<close>

fun live_trouble :: "'e diagnostic \<Rightarrow> bool" where
  "live_trouble (LivePropertyFailed name) = True"
| "live_trouble LiveFlushFailed = True"
| "live_trouble _ = False"

definition offline :: "'e outside \<Rightarrow> 'e outside" where
  "offline out = out\<lparr>os_live := None, os_log := filter (\<lambda>d. \<not> live_trouble d) (os_log out)\<rparr>"

definition sent_chunks :: "'e sent list \<Rightarrow> 'e chunk list" where
  "sent_chunks log = filter_map (\<lambda>s. case s of SentChunk c \<Rightarrow> Some c | SentProperty _ _ \<Rightarrow> None) log"

definition in_step :: "'e outside \<Rightarrow> bool" where
  "in_step out \<longleftrightarrow>
     (case os_live out of None \<Rightarrow> True | Some live \<Rightarrow> sent_chunks live = sent_chunks (os_file out))"

lemma in_step_updates [simp]:
  "in_step (out\<lparr>os_log := l\<rparr>) = in_step out" "in_step (out\<lparr>os_reads := n\<rparr>) = in_step out"
  "in_step (out\<lparr>os_log := l, os_reads := n\<rparr>) = in_step out"
  unfolding in_step_def by (simp_all cong: option.case_cong)

named_theorems stream_simps

lemma offline_primitives [stream_simps]:
  "read_clock env (offline out) = map_prod id offline (read_clock env out)"
  "elapsed env since (offline out) = map_prod id offline (elapsed env since out)"
  "send_chunk c (offline out) = offline (send_chunk c out)"
  "\<not> live_trouble d \<Longrightarrow> log_message d (offline out) = offline (log_message d out)"
  "os_reads (offline out) = os_reads out" "os_file (offline out) = os_file out"
  by (auto simp: offline_def read_clock_def elapsed_def send_chunk_def log_message_def Let_def
      split: option.split)

lemma offline_property:
  "send_property env name text (offline out) = map_prod id offline (send_property env name text out)"
  by (auto simp: offline_def send_property_def log_message_def Let_def split: option.split sum.split)

lemma offline_events [stream_simps]:
  "log_events entity events (offline out) = offline (log_events entity events out)"
  by (simp add: offline_def log_events_def filter_map comp_def)

lemma in_step_events [simp, stream_simps]: "in_step (log_events entity events out) = in_step out"
  by (simp add: log_events_def)

lemma offline_fold [stream_simps]: "fold send_chunk cs (offline out) = offline (fold send_chunk cs out)"
  by (induction cs arbitrary: out) (simp_all add: stream_simps)

lemma in_step_primitives [stream_simps]:
  "in_step (snd (read_clock env out)) = in_step out"
  "in_step (snd (elapsed env since out)) = in_step out"
  "in_step (log_message d out) = in_step out"
  "in_step out \<Longrightarrow> in_step (send_chunk c out)"
  "in_step out \<Longrightarrow> in_step (snd (send_property env name text out))"
  by (auto simp: in_step_def read_clock_def elapsed_def log_message_def send_chunk_def
      send_property_def sent_chunks_def Let_def split: option.splits sum.splits)

lemma in_step_fold [stream_simps]: "in_step out \<Longrightarrow> in_step (fold send_chunk cs out)"
  by (induction cs arbitrary: out) (simp_all add: stream_simps)

section \<open>The contract of a topic operation\<close>

locale topic_operation =
  fixes run :: "('e, 'd) topic \<Rightarrow> 'e outside \<Rightarrow> unit result \<times> ('e, 'd) topic \<times> 'e outside"
  assumes alone: "run t (offline out) = map_prod id (map_prod id offline) (run t out)"
    and stays_in_step: "in_step out \<Longrightarrow> in_step (snd (snd (run t out)))"
    and keeps_slot: "same_slot t (fst (snd (run t out)))"
begin

lemma run_alone:
  assumes "run t out = (r, t', out')"
  shows "run t (offline out) = (r, t', offline out')"
  using alone [of t out] assms by simp

lemma run_in_step: "run t out = (r, t', out') \<Longrightarrow> in_step out \<Longrightarrow> in_step out'"
  using stays_in_step [of out t] by simp

end

lemma overdue_offline [stream_simps]:
  "overdue env t (offline out) = map_prod id offline (overdue env t out)"
  by (auto simp: overdue_def stream_simps split: option.split prod.split)

lemma overdue_in_step: "in_step (snd (overdue env t out)) = in_step out"
  using in_step_primitives(2) [of env "tp_last_flush t" out]
  by (auto simp: overdue_def split: option.splits prod.splits)

lemma should_flush_offline [stream_simps]:
  "should_flush env t (offline out) = map_prod id offline (should_flush env t out)"
  by (simp add: should_flush_def stream_simps Let_def)

lemma should_flush_in_step: "in_step (snd (should_flush env t out)) = in_step out"
  by (simp add: should_flush_def Let_def overdue_in_step)

interpretation flushing: topic_operation "topic_flush env"
proof
  fix t and out :: "'a outside"
  show "topic_flush env t (offline out) = map_prod id (map_prod id offline) (topic_flush env t out)"
    by (simp add: topic_flush_def Let_def stream_simps split: prod.split sum.split)
  show "in_step (snd (snd (topic_flush env t out)))" if "in_step out"
    using that in_step_primitives(1) [of env out]
    by (auto simp: topic_flush_def Let_def intro: in_step_fold split: prod.split sum.split)
qed (rule topic_flush_slot)

interpretation flushing_stale: topic_operation "flush_if_stale env"
proof
  fix t and out :: "'a outside"
  show "flush_if_stale env t (offline out) = map_prod id (map_prod id offline) (flush_if_stale env t out)"
    by (simp add: flush_if_stale_def stream_simps flushing.alone split: prod.split)
  show "in_step (snd (snd (flush_if_stale env t out)))" if "in_step out"
    using that flushing.stays_in_step overdue_in_step [of env t out]
    by (auto simp: flush_if_stale_def split: prod.split)
qed (rule stale_slot)

interpretation writing_message: topic_operation "topic_write env cdr recv send sequence"
proof
  fix t and out :: "'a outside"
  show "topic_write env cdr recv send sequence t (offline out)
      = map_prod id (map_prod id offline) (topic_write env cdr recv send sequence t out)"
    by (simp add: topic_write_def stream_simps flushing.alone Let_def split: prod.split bool.split)
  show "in_step (snd (snd (topic_write env cdr recv send sequence t out)))" if "in_step out"
    using that flushing.stays_in_step
      should_flush_in_step [of env "t\<lparr>tp_pipeline := pipeline_push (we_pipeline env) cdr recv send sequence (tp_pipeline t)\<rparr>"
        "log_events (pl_entity (tp_pipeline t)) (push_events (we_pipeline env) cdr (tp_pipeline t)) out"]
    by (auto simp: topic_write_def stream_simps Let_def split: prod.split bool.split)
qed (rule topic_write_slot)

section \<open>The writer\<close>

definition offline_writer :: "('e, 'd, 'u) writer \<Rightarrow> ('e, 'd, 'u) writer" where
  "offline_writer w = w\<lparr>wr_out := offline (wr_out w)\<rparr>"

lemma offline_writer_fields [simp]:
  "wr_topics (offline_writer w) = wr_topics w" "wr_topic_ids (offline_writer w) = wr_topic_ids w"
  "wr_config (offline_writer w) = wr_config w" "wr_lenses (offline_writer w) = wr_lenses w"
  "wr_out (offline_writer w) = offline (wr_out w)"
  "wr_next_sequence (offline_writer w) = wr_next_sequence w"
  "wr_last_sweep (offline_writer w) = wr_last_sweep w"
  "wr_metadata_yaml (offline_writer w) = wr_metadata_yaml w"
  by (simp_all add: offline_writer_def)

lemma offline_writer_updates:
  "(offline_writer w)\<lparr>wr_topic_ids := f\<rparr> = offline_writer (w\<lparr>wr_topic_ids := f\<rparr>)"
  "(offline_writer w)\<lparr>wr_next_sequence := n\<rparr> = offline_writer (w\<lparr>wr_next_sequence := n\<rparr>)"
  "(offline_writer w)\<lparr>wr_metadata_yaml := m\<rparr> = offline_writer (w\<lparr>wr_metadata_yaml := m\<rparr>)"
  "(offline_writer w)\<lparr>wr_out := offline out\<rparr> = offline_writer (w\<lparr>wr_out := out\<rparr>)"
  "(offline_writer w)\<lparr>wr_topics := ts, wr_out := offline out\<rparr> = offline_writer (w\<lparr>wr_topics := ts, wr_out := out\<rparr>)"
  "(offline_writer w)\<lparr>wr_last_sweep := at, wr_topics := ts, wr_out := offline out\<rparr> =
     offline_writer (w\<lparr>wr_last_sweep := at, wr_topics := ts, wr_out := out\<rparr>)"
  "(offline_writer w)\<lparr>wr_topic_ids := f, wr_topics := ts, wr_out := offline out\<rparr> =
     offline_writer (w\<lparr>wr_topic_ids := f, wr_topics := ts, wr_out := out\<rparr>)"
  by (simp_all add: offline_writer_def)

lemma new_topic_offline:
  "new_topic env config lenses r (offline out) = map_prod id offline (new_topic env config lenses r out)"
  by (simp add: new_topic_def stream_simps Let_def split: sum.split prod.split)

lemma sweep_topics_offline:
  "sweep_topics env ts (offline out) = map_prod id (map_prod id offline) (sweep_topics env ts out)"
proof (induction ts arbitrary: out)
  case (Cons t ts)
  then show ?case by (simp add: flushing_stale.alone split: prod.split sum.split)
qed simp

lemma sweep_stale_offline:
  "sweep_stale_topics env (offline_writer w) = map_prod id offline_writer (sweep_stale_topics env w)"
  by (auto simp: sweep_stale_topics_def stream_simps sweep_topics_offline offline_writer_updates
      split: option.split prod.split)

lemma create_topic_offline:
  "create_topic env r (offline_writer w) = map_prod id offline_writer (create_topic env r w)"
  by (auto simp: create_topic_def new_topic_offline offline_writer_updates Let_def
      split: option.split prod.split)

lemma writer_write_offline:
  "writer_write env topic cdr recv send (offline_writer w)
     = map_prod id offline_writer (writer_write env topic cdr recv send w)"
proof (cases "topic < length (wr_topics w)")
  case True
  obtain r t out where t: "topic_write env cdr recv send (wr_next_sequence w) (wr_topics w ! topic) (wr_out w)
      = (r, t, out)" using prod_cases3 by blast
  show ?thesis
    using True t writing_message.run_alone [OF t]
    by (cases r) (simp_all add: writer_write_def offline_writer_updates sweep_stale_offline [symmetric] Let_def)
qed (simp add: writer_write_def offline_writer_updates Let_def)

lemma remove_topic_offline:
  "remove_topic env name (offline_writer w) = map_prod id offline_writer (remove_topic env name w)"
  by (auto simp: remove_topic_def flushing.alone offline_writer_updates Let_def
      split: option.split prod.split sum.split)

lemma perform_offline:
  "perform env c (offline_writer w) = map_prod id offline_writer (perform env c w)"
  by (cases c)
    (auto simp: perform_def create_topic_offline writer_write_offline remove_topic_offline
      set_metadata_def offline_writer_updates prod.map_comp comp_def)

lemma session_offline:
  "session env cs (offline_writer w) = map_prod id offline_writer (session env cs w)"
  by (induction cs arbitrary: w) (simp_all add: perform_offline split: prod.split)

lemma close_topics_offline: "close_topics env ts (offline out) = offline (close_topics env ts out)"
  by (induction ts arbitrary: out) (simp_all add: flushing.alone stream_simps split: prod.split sum.split)

lemma offline_live: "os_live (offline out) = None" "offline (log_message LiveFlushFailed out) = offline out"
  by (simp_all add: offline_def log_message_def)

lemma close_offline:
  "map_prod id offline (writer_close env (offline_writer w)) = map_prod id offline (writer_close env w)"
proof -
  have idem: "offline (offline out) = offline out" for out :: "'a outside"
    by (simp add: offline_def)
  have close: "map_prod id offline (recording_close env (offline out)) = map_prod id offline (recording_close env out)"
    for out by (simp add: recording_close_def offline_live idem Let_def)
  show ?thesis
    by (simp add: writer_close_def close_topics_offline offline_property close Let_def
        stream_simps split: option.split prod.split sum.split)
qed

text \<open>
  C14: the live stream never interferes. Any session of calls gives the same replies and
  puts the same into the file, whether or not a server is watching and whatever goes wrong
  with it; and closing gives the same result and the same file. The writer without its live
  stream is the same writer in everything else.
\<close>

theorem live_never_interferes:
  "fst (session env cs (offline_writer w)) = fst (session env cs w)
   \<and> snd (session env cs (offline_writer w)) = offline_writer (snd (session env cs w))
   \<and> fst (writer_close env (snd (session env cs (offline_writer w)))) = fst (writer_close env (snd (session env cs w)))
   \<and> os_file (snd (writer_close env (snd (session env cs (offline_writer w)))))
      = os_file (snd (writer_close env (snd (session env cs w))))"
proof -
  let ?w = "snd (session env cs w)"
  have session: "fst (session env cs (offline_writer w)) = fst (session env cs w)"
    "snd (session env cs (offline_writer w)) = offline_writer ?w"
    by (simp_all add: session_offline)
  have "fst (writer_close env (offline_writer ?w)) = fst (writer_close env ?w)"
    "offline (snd (writer_close env (offline_writer ?w))) = offline (snd (writer_close env ?w))"
    using close_offline [of env ?w] by (metis fst_map_prod id_apply, metis snd_map_prod)
  then have "os_file (snd (writer_close env (offline_writer ?w))) = os_file (snd (writer_close env ?w))"
    using stream_simps(6) by metis
  then show ?thesis using session \<open>fst (writer_close env (offline_writer ?w)) = fst (writer_close env ?w)\<close> by simp
qed

section \<open>What was watched live is on disk\<close>

lemma new_topic_in_step:
  assumes "in_step out"
  shows "in_step (snd (new_topic env config lenses r out))"
proof -
  let ?logged = "log_events (we_entity env (rec_topic r))
    (new_events (we_pipeline env) (representations config) (rec_type_name r) (rec_schema_encoding r)
       (rec_schema_text r)) out"
  define sent where "sent =
    (case topic_statics_chunk (pe_chunk (we_pipeline env)) (we_entity env (rec_topic r)) r of
       Inl _ \<Rightarrow> log_message (StaticsFailed (rec_topic r)) ?logged
     | Inr chunk \<Rightarrow> send_chunk chunk ?logged)"
  have "in_step sent" using assms by (simp add: sent_def stream_simps split: sum.split)
  then show ?thesis
    by (simp add: new_topic_def Let_def sent_def [symmetric] read_clock_def log_message_def)
qed

lemma sweep_topics_in_step: "in_step out \<Longrightarrow> in_step (snd (snd (sweep_topics env ts out)))"
proof (induction ts arbitrary: out)
  case (Cons t ts)
  obtain r t' out' where t': "flush_if_stale env t out = (r, t', out')" using prod_cases3 by blast
  then have "in_step out'" by (rule flushing_stale.run_in_step [OF _ Cons.prems])
  with t' Cons.IH [OF this] show ?case by (cases r) (auto split: prod.split)
qed simp

lemma sweep_stale_in_step:
  assumes "in_step (wr_out w)"
  shows "in_step (wr_out (snd (sweep_stale_topics env w)))"
proof -
  have "in_step (snd (snd (sweep_topics env ts ((wr_out w)\<lparr>os_reads := n\<rparr>))))" for ts n
    by (rule sweep_topics_in_step) (simp add: assms)
  then show ?thesis
    using assms
    by (auto simp: sweep_stale_topics_def elapsed_def read_clock_def split: option.split prod.split)
      (metis snd_conv)
qed

lemma perform_in_step:
  assumes "in_step (wr_out w)"
  shows "in_step (wr_out (snd (perform env c w)))"
proof (cases c)
  case (CreateTopic r)
  then show ?thesis
    using assms new_topic_in_step [OF assms, of env "wr_config w" "wr_lenses w" r]
    by (auto simp: perform_def create_topic_def Let_def split: option.split prod.split)
next
  case (WriteMessage topic cdr recv send)
  show ?thesis
  proof (cases "topic < length (wr_topics w)")
    case True
    obtain r t out where t: "topic_write env cdr recv send (wr_next_sequence w) (wr_topics w ! topic) (wr_out w)
        = (r, t, out)" using prod_cases3 by blast
    with writing_message.run_in_step [OF t assms] True show ?thesis
      by (cases r) (simp_all add: WriteMessage perform_def writer_write_def sweep_stale_in_step Let_def)
  qed (use assms in \<open>simp add: WriteMessage perform_def writer_write_def Let_def\<close>)
next
  case (RemoveTopic name)
  have "in_step (snd (snd (topic_flush env t (wr_out w))))" for t
    by (rule flushing.stays_in_step [OF assms])
  then show ?thesis
    using assms
    by (auto simp: RemoveTopic perform_def remove_topic_def Let_def split: option.split prod.split sum.split)
      (metis snd_conv)+
next
  case (SetMetadata yaml)
  then show ?thesis using assms by (simp add: perform_def set_metadata_def)
qed

lemma writing_in_step:
  assumes "writing env config w"
  shows "in_step (wr_out w)"
  using assms
proof induction
  case (opened path reads w)
  then have "os_file (wr_out w) = [] \<and> (os_live (wr_out w) = None \<or> os_live (wr_out w) = Some [])"
    by (auto simp: writer_open_def recording_open_def read_clock_def Let_def dest!: connect_file
        split: sum.splits option.splits prod.splits)
  then show ?case by (auto simp: in_step_def)
qed (rule perform_in_step)

lemma close_topics_in_step: "in_step out \<Longrightarrow> in_step (close_topics env ts out)"
proof (induction ts arbitrary: out)
  case (Cons t ts)
  obtain r t' out' where t': "topic_flush env t out = (r, t', out')" using prod_cases3 by blast
  with Cons flushing.run_in_step [OF t' Cons.prems] show ?case
    by (cases r) (simp_all add: stream_simps)
qed simp

lemma close_in_step:
  assumes "in_step (wr_out w)"
  shows "in_step (snd (writer_close env w))"
proof -
  have "in_step (snd (send_property env name yaml (close_topics env ts (wr_out w))))" for name yaml ts
    by (intro in_step_primitives close_topics_in_step assms)
  then show ?thesis
    using close_topics_in_step [OF assms, of env "wr_topics w"]
    by (auto simp: writer_close_def recording_close_def log_message_def Let_def
        split: option.split prod.split sum.split) (metis snd_conv)+
qed

text \<open>
  C29: what was watched live is what is on disk. In every state a session reaches, and after
  closing, the live stream of a recording that has one was sent exactly the chunks the file
  was sent, in the same order.
\<close>

theorem live_shows_the_file:
  assumes "writing env config w"
  shows "in_step (wr_out w) \<and> in_step (snd (writer_close env w))"
  using writing_in_step [OF assms] close_in_step by blast

text \<open>
  A writer with a server: three polls find it connecting, the fourth connected. Two calls later
  its live stream holds the record of the topic and the message, and so does the file.
\<close>

definition watched_writer :: "(nat, bytes, unit) writer" where
  "watched_writer =
     (byte_writer {Raw})\<lparr>wr_out := \<lparr>os_file = [], os_live = Some [], os_log = [], os_reads = 5\<rparr>,
        wr_config := (byte_config {Raw} (Some ()))\<lparr>flush := \<lparr>max_rows = 1, max_bytes = 8 * MIB, max_latency = None\<rparr>\<rparr>,
        wr_last_sweep := 240000000\<rparr>"

lemma watched_writing: "writing byte_writer_env (wr_config watched_writer) watched_writer"
proof (rule writing.opened)
  show "writer_open byte_writer_env ''bag.rrd'' (wr_config watched_writer) 0 = Some (Inr watched_writer)"
    by (simp add: watched_writer_def writer_open_def lenses_for_def byte_config_def recording_open_def
        byte_writer_def byte_writer_env_def read_clock_def connect_def connect_loop.simps elapsed_def
        CONNECT_TIMEOUT_def Let_def)
qed

abbreviation watched_calls :: "command list" where
  "watched_calls \<equiv> [CreateTopic (byte_topic ''/a''), WriteMessage 0 [7] 5 4]"

lemma watched_streams:
  "map_option (length \<circ> sent_chunks) (os_live (wr_out (snd (session byte_writer_env watched_calls watched_writer)))) = Some 2"
  by (simp add: watched_writer_def perform_def create_topic_def new_topic_def topic_statics_chunk_def utf8_row_def
      one_row_unit byte_writer_def byte_config_def byte_topic_def new_pipeline_def new_events_def log_events_def
      byte_writer_env_def byte_env_def plain_builder_def send_chunk_def log_message_def read_clock_def
      records_nothing_def is_replayable_def stored_def writer_write_def get_def topic_write_def push_events_def
      pipeline_push_def decode_row_def should_flush_def pipeline_len_def rows_len_def rows_push_def no_rows_def
      times_push_def topic_flush_def flush_events_def lens_events_def pipeline_flush_def pipeline_take_def
      apply_lenses_def sent_chunks_def sweep_stale_topics_def elapsed_def Let_def)

theorem live_shows_the_file_witness:
  "let w = snd (session byte_writer_env watched_calls watched_writer)
   in (\<exists>live. os_live (wr_out w) = Some live \<and> length (sent_chunks live) = 2
         \<and> sent_chunks live = sent_chunks (os_file (wr_out w)))
      \<and> in_step (snd (writer_close byte_writer_env w))"
  using live_shows_the_file [OF writing_session [OF watched_writing, of watched_calls]] watched_streams
  by (simp add: Let_def in_step_def del: session.simps split: option.splits)

end
