(* ===== verification/Latency.thy ===== *)
theory Latency
  imports Session
begin

text \<open>
  The latency limit: while messages keep arriving on any topic, no topic holds rows for
  longer than twice the limit, however quiet it has gone itself.
\<close>

definition flushes_work :: "('e, 'd, 'u) writer_env \<Rightarrow> bool" where
  "flushes_work env \<longleftrightarrow> (\<forall>p. \<not> isl (fst (pipeline_flush (we_pipeline env) p)))"

text \<open>What an operation on a topic leaves: no rows, or rows younger than the limit.\<close>

definition recent :: "duration \<Rightarrow> instant \<Rightarrow> ('e, 'd) topic \<Rightarrow> bool" where
  "recent limit at t \<longleftrightarrow> pipeline_len (tp_pipeline t) = 0 \<or> at < tp_last_flush t + limit"

lemma recent_earlier: "recent limit at t \<Longrightarrow> before \<le> at \<Longrightarrow> recent limit before t"
  by (auto simp: recent_def)

lemma fold_send_reads: "os_reads (fold send_chunk cs out) = os_reads out"
  by (induction cs arbitrary: out) (simp_all add: send_chunk_def Let_def split: option.split)

lemma topic_flush_works:
  assumes "flushes_work env" "topic_flush env t out = (r, t', out')"
  shows "r = Inr () \<and> recent limit at t' \<and> os_reads out' = Suc (os_reads out)"
proof -
  obtain chunks p where "pipeline_flush (we_pipeline env) (tp_pipeline t) = (Inr chunks, p)"
    using assms(1) by (metis flushes_work_def isl_def fst_conv old.sum.exhaust prod.exhaust)
  moreover from this have "pipeline_len p = 0"
    using pipeline_buffer.flush_leaves_none [of "we_pipeline env" "tp_pipeline t"] by simp
  ultimately show ?thesis
    using assms(2) by (auto simp: topic_flush_def Let_def read_clock_def fold_send_reads recent_def)
qed

lemma overdue_reads:
  assumes "overdue env t out = (b, out')" "max_latency (tp_policy t) = Some limit"
  shows "os_reads out' = Suc (os_reads out)"
    "b = (limit \<le> we_clock env (os_reads out) - tp_last_flush t)"
  using assms by (auto simp: overdue_def elapsed_def read_clock_def)

lemma not_overdue:
  assumes "overdue env t out = (False, out')" "max_latency (tp_policy t) = Some limit"
  shows "recent limit (we_clock env (os_reads out)) t"
proof -
  have "we_clock env (os_reads out) - tp_last_flush t < limit"
    using overdue_reads(2) [OF assms] by simp
  then have "we_clock env (os_reads out) < tp_last_flush t + limit" by arith
  then show ?thesis by (simp add: recent_def)
qed

lemma stale_works:
  assumes "flushes_work env" "flush_if_stale env t out = (r, t', out')"
    and "max_latency (tp_policy t) = Some limit"
  shows "r = Inr () \<and> recent limit (we_clock env (os_reads out)) t' \<and> os_reads out \<le> os_reads out'"
proof -
  obtain stale out1 where stale: "overdue env t out = (stale, out1)" by fastforce
  note reads = overdue_reads [OF stale assms(3)]
  show ?thesis
  proof (cases "stale \<and> pipeline_len (tp_pipeline t) \<noteq> 0")
    case True
    then have "topic_flush env t out1 = (r, t', out')" using assms(2) stale by (simp add: flush_if_stale_def)
    from topic_flush_works [OF assms(1) this] reads(1) show ?thesis by simp
  next
    case False
    then have "t' = t" "r = Inr ()" "out' = out1" using assms(2) stale by (auto simp: flush_if_stale_def)
    moreover have "recent limit (we_clock env (os_reads out)) t"
      using False not_overdue [of env t out out1] stale assms(3) by (cases stale) (simp_all add: recent_def)
    ultimately show ?thesis using reads(1) by simp
  qed
qed

lemma write_works:
  assumes "flushes_work env" "topic_write env cdr recv send sequence t out = (r, t', out')"
    and "max_latency (tp_policy t) = Some limit"
  shows "r = Inr () \<and> (t' = t \<or> recent limit (we_clock env (os_reads out)) t') \<and> os_reads out \<le> os_reads out'"
proof (cases "tp_retired t")
  case False
  let ?t = "t\<lparr>tp_pipeline := pipeline_push (we_pipeline env) cdr recv send sequence (tp_pipeline t)\<rparr>"
  let ?out = "log_events (pl_entity (tp_pipeline t)) (push_events (we_pipeline env) cdr (tp_pipeline t)) out"
  obtain due out1 where due: "should_flush env ?t ?out = (due, out1)" by fastforce
  have filled: "0 < pipeline_len (tp_pipeline ?t)" using push_len(1) by simp
  have reads: "os_reads out \<le> os_reads out1"
    using due overdue_reads(1) [of env ?t ?out] assms(3) by (auto simp: should_flush_def Let_def split: if_splits)
  show ?thesis
  proof (cases due)
    case True
    then have "topic_flush env ?t out1 = (r, t', out')" using assms(2) due False by (simp add: topic_write_def Let_def)
    from topic_flush_works [OF assms(1) this] reads show ?thesis by simp
  next
    case idle: False
    then have "overdue env ?t ?out = (False, out1)"
      using due filled by (auto simp: should_flush_def Let_def split: if_splits)
    from not_overdue [OF this] assms(3) have "recent limit (we_clock env (os_reads out)) ?t"
      by (simp only: log_events_fields) simp
    then show ?thesis using assms(2) due False idle reads by (auto simp: topic_write_def Let_def)
  qed
qed (use assms in \<open>auto simp: topic_write_def Let_def\<close>)

lemma sweep_works:
  assumes "flushes_work env" "mono (we_clock env)" "sweep_topics env ts out = (r, ts', out')"
    and "list_all (\<lambda>t. max_latency (tp_policy t) = Some limit) ts"
  shows "r = Inr () \<and> list_all (recent limit (we_clock env (os_reads out))) ts'
    \<and> os_reads out \<le> os_reads out'"
  using assms(3,4)
proof (induction ts arbitrary: out r ts' out')
  case (Cons t ts)
  obtain r1 t1 out1 where t1: "flush_if_stale env t out = (r1, t1, out1)" using prod_cases3 by blast
  obtain r2 ts2 out2 where ts2: "sweep_topics env ts out1 = (r2, ts2, out2)" using prod_cases3 by blast
  have one: "r1 = Inr ()" "recent limit (we_clock env (os_reads out)) t1" "os_reads out \<le> os_reads out1"
    using stale_works [OF assms(1) t1] Cons.prems(2) by auto
  have rest: "r2 = Inr ()" "list_all (recent limit (we_clock env (os_reads out1))) ts2" "os_reads out1 \<le> os_reads out2"
    using Cons.IH [OF ts2] Cons.prems(2) by auto
  have "we_clock env (os_reads out) \<le> we_clock env (os_reads out1)"
    using assms(2) one(3) by (rule monoD)
  then have "list_all (recent limit (we_clock env (os_reads out))) ts2"
    using rest(2) by (auto simp: list_all_iff intro: recent_earlier)
  then show ?case using Cons.prems(1) t1 ts2 one rest by auto
qed simp

section \<open>The invariant of the sweep\<close>

definition swept :: "('e, 'd, 'u) writer_env \<Rightarrow> duration \<Rightarrow> ('e, 'd, 'u) writer \<Rightarrow> bool" where
  "swept env limit w \<longleftrightarrow>
     wr_last_sweep w \<le> we_clock env (os_reads (wr_out w))
     \<and> list_all (recent limit (wr_last_sweep w)) (wr_topics w)
     \<and> list_all (\<lambda>t. max_latency (tp_policy t) = Some limit) (wr_topics w)"

lemma latencies:
  "writing env config w \<Longrightarrow> max_latency (flush config) = Some limit \<Longrightarrow>
     list_all (\<lambda>t. max_latency (tp_policy t) = Some limit) (wr_topics w)"
  by (erule writing_all) (simp_all add: topic_policy)

lemma sweep_stale_works:
  assumes "flushes_work env" "mono (we_clock env)" "sweep_stale_topics env w = (r, w')"
    and "swept env limit w" "max_latency (flush (wr_config w)) = Some limit"
  shows "r = Inr () \<and> swept env limit w'
    \<and> list_all (\<lambda>t. pipeline_len (tp_pipeline t) = 0
         \<or> we_clock env (os_reads (wr_out w)) < tp_last_flush t + 2 * limit) (wr_topics w')"
proof -
  let ?n = "os_reads (wr_out w)"
  have mono: "we_clock env ?n \<le> we_clock env m" if "?n \<le> m" for m
    using assms(2) that by (rule monoD)
  have policy: "list_all (\<lambda>t. max_latency (tp_policy t) = Some limit) (wr_topics w)"
    using assms(4) by (simp add: swept_def)
  show ?thesis
  proof (cases "we_clock env ?n - wr_last_sweep w < limit")
    case True
    then have "w' = w\<lparr>wr_out := (wr_out w)\<lparr>os_reads := Suc ?n\<rparr>\<rparr>" "r = Inr ()"
      using assms(3,5) by (auto simp: sweep_stale_topics_def elapsed_def read_clock_def)
    moreover have "we_clock env ?n < tp_last_flush t + 2 * limit \<or> pipeline_len (tp_pipeline t) = 0"
      if "t \<in> set (wr_topics w)" for t
      using that True assms(4) by (auto simp: swept_def list_all_iff recent_def)
    ultimately show ?thesis
      using assms(4) mono [of "Suc ?n"] by (auto simp: swept_def list_all_iff)
  next
    case False
    let ?out = "(wr_out w)\<lparr>os_reads := Suc (Suc ?n)\<rparr>"
    obtain r1 ts out where ts: "sweep_topics env (wr_topics w) ?out = (r1, ts, out)"
      using prod_cases3 by blast
    have w': "r = r1" "w' = w\<lparr>wr_last_sweep := we_clock env (Suc ?n), wr_topics := ts, wr_out := out\<rparr>"
      using False assms(3,5) ts by (auto simp: sweep_stale_topics_def elapsed_def read_clock_def)
    have fin: "r1 = Inr ()" "list_all (recent limit (we_clock env (Suc (Suc ?n)))) ts"
      "Suc (Suc ?n) \<le> os_reads out"
      using sweep_works [OF assms(1,2) ts policy] by auto
    have le: "we_clock env (Suc ?n) \<le> we_clock env (Suc (Suc ?n))"
      "we_clock env (Suc ?n) \<le> we_clock env (os_reads out)"
      "we_clock env ?n \<le> we_clock env (Suc (Suc ?n))"
      using assms(2) fin(3) by (auto intro: monoD)
    have "list_all2 same_slot (wr_topics w) ts"
      using sweep_slots [of "wr_topics w" env ?out] ts by simp
    then have "list_all (\<lambda>t. max_latency (tp_policy t) = Some limit) ts"
      using policy by (auto simp: list_all2_conv_all_nth list_all_length same_slot_def)
    moreover have "list_all (recent limit (we_clock env (Suc ?n))) ts"
      using fin(2) le(1) by (auto simp: list_all_iff intro: recent_earlier)
    moreover have "pipeline_len (tp_pipeline t) = 0 \<or> we_clock env ?n < tp_last_flush t + 2 * limit"
      if "t \<in> set ts" for t
      using fin(2) that le(3) by (auto simp: list_all_iff recent_def)
    ultimately show ?thesis using w' fin(1) le by (auto simp: swept_def list_all_iff)
  qed
qed

text \<open>A write pushes, flushes if it must, and hands over to the sweep.\<close>

lemma write_before_sweep:
  assumes "writing env config w" "swept env limit w" "flushes_work env" "mono (we_clock env)"
    and "max_latency (flush config) = Some limit" "topic < length (wr_topics w)"
  shows "\<exists>w1. writer_write env topic cdr recv send w = sweep_stale_topics env w1
    \<and> swept env limit w1 \<and> wr_config w1 = config \<and> os_reads (wr_out w) \<le> os_reads (wr_out w1)"
proof -
  obtain r t out where t: "topic_write env cdr recv send (wr_next_sequence w) (wr_topics w ! topic) (wr_out w)
      = (r, t, out)" using prod_cases3 by blast
  let ?w = "w\<lparr>wr_next_sequence := wrap_i64 (wr_next_sequence w + 1), wr_topics := (wr_topics w)[topic := t],
      wr_out := out\<rparr>"
  have old: "recent limit (wr_last_sweep w) (wr_topics w ! topic)"
    "max_latency (tp_policy (wr_topics w ! topic)) = Some limit"
    using assms(2,6) by (auto simp: swept_def list_all_length)
  have written: "r = Inr ()" "t = wr_topics w ! topic \<or> recent limit (we_clock env (os_reads (wr_out w))) t"
    "os_reads (wr_out w) \<le> os_reads out"
    using write_works [OF assms(3) t old(2)] by auto
  have le: "wr_last_sweep w \<le> we_clock env (os_reads (wr_out w))" using assms(2) by (simp add: swept_def)
  then have recent: "recent limit (wr_last_sweep w) t"
    using written(2) old(1) by (auto intro: recent_earlier)
  have "same_slot (wr_topics w ! topic) t"
    using topic_write_slot [of "wr_topics w ! topic" env cdr recv send "wr_next_sequence w" "wr_out w"] t by simp
  then have "max_latency (tp_policy t) = Some limit" using old(2) by (simp add: same_slot_def)
  moreover have "we_clock env (os_reads (wr_out w)) \<le> we_clock env (os_reads out)"
    using assms(4) written(3) by (rule monoD)
  ultimately have "swept env limit ?w"
    using assms(2) recent le by (simp add: swept_def list_all_update)
  moreover have "writer_write env topic cdr recv send w = sweep_stale_topics env ?w"
    using assms(6) t written(1) by (simp add: writer_write_def Let_def)
  ultimately show ?thesis
    using writing_config [OF assms(1)] written(3) by (intro exI [of _ ?w]) simp
qed

lemma writing_swept:
  assumes "writing env config w" "flushes_work env" "mono (we_clock env)"
    and "max_latency (flush config) = Some limit"
  shows "swept env limit w"
  using assms(1)
proof induction
  case (opened path reads w)
  then show ?case
    using monoD [OF assms(3) le_SucI [OF le_refl]]
    by (auto simp: writer_open_def read_clock_def swept_def
        split: sum.splits option.splits prod.splits)
next
  case (called w c)
  have policies: "list_all (\<lambda>t. max_latency (tp_policy t) = Some limit) (wr_topics (snd (perform env c w)))"
    by (rule latencies [OF writing.called [OF called.hyps] assms(4)])
  have sweep: "wr_last_sweep w \<le> we_clock env (os_reads (wr_out w))"
    "list_all (recent limit (wr_last_sweep w)) (wr_topics w)"
    using called.IH by (auto simp: swept_def)
  then have later: "wr_last_sweep w \<le> we_clock env m" if "os_reads (wr_out w) \<le> m" for m
    using assms(3) that monoD order_trans by metis
  show ?case
  proof (cases c)
    case (CreateTopic r)
    obtain t out where t: "new_topic env (wr_config w) (wr_lenses w) r (wr_out w) = (t, out)" by fastforce
    have "recent limit at t" "os_reads (wr_out w) \<le> os_reads out" for at
      using t by (auto simp: new_topic_def read_clock_def recent_def new_pipeline_def pipeline_len_def
          rows_len_def no_rows_def send_chunk_def log_message_def Let_def split: sum.splits option.splits if_splits)
    then show ?thesis
      using policies sweep later t
      by (auto simp: CreateTopic perform_def create_topic_def swept_def Let_def split: option.splits)
  next
    case (RemoveTopic name)
    show ?thesis
    proof (cases "\<exists>i. wr_topic_ids w name = Some i \<and> i < length (wr_topics w)")
      case True
      then obtain i where i: "wr_topic_ids w name = Some i" "i < length (wr_topics w)" by blast
      obtain r t out where t: "topic_flush env (wr_topics w ! i) (wr_out w) = (r, t, out)"
        using prod_cases3 by blast
      have flushed: "recent limit at (retire t) \<and> r = Inr () \<and> os_reads (wr_out w) \<le> os_reads out" for at
        using topic_flush_works [OF assms(2) t, of limit at] by (simp add: recent_def retire_def)
      have "list_all (recent limit (wr_last_sweep w)) ((wr_topics w)[i := retire t])"
        using flushed sweep(2) by (simp add: list_all_update)
      then show ?thesis
        using policies flushed later i t by (auto simp: RemoveTopic perform_def remove_topic_def swept_def Let_def)
    next
      case False
      then show ?thesis
        using policies sweep
        by (auto simp: RemoveTopic perform_def remove_topic_def swept_def Let_def split: option.splits)
    qed
  next
    case (WriteMessage topic cdr recv send)
    show ?thesis
    proof (cases "topic < length (wr_topics w)")
      case True
      obtain w1 r w' where w1: "writer_write env topic cdr recv send w = sweep_stale_topics env w1"
        "swept env limit w1" "wr_config w1 = config" "sweep_stale_topics env w1 = (r, w')"
        using write_before_sweep [OF called.hyps called.IH assms(2-4) True] by (metis surj_pair)
      from sweep_stale_works [OF assms(2,3) w1(4,2)] w1(1,3,4) assms(4) show ?thesis
        by (simp add: WriteMessage perform_def)
    next
      case False
      then show ?thesis
        using policies sweep by (auto simp: WriteMessage perform_def writer_write_def swept_def Let_def)
    qed
  next
    case (SetMetadata yaml)
    then show ?thesis using called.IH by (simp add: perform_def set_metadata_def swept_def)
  qed
qed

text \<open>
  C16: no topic holds rows for longer than twice the latency limit while messages arrive. A
  write to any topic, at the time \<open>at\<close> it first reads the clock, leaves every topic either
  without rows or flushed less than twice the limit before; the topic that has gone quiet
  is flushed by the traffic of the others. The clock does not run backwards and no flush fails.
\<close>

theorem quiet_topics_are_flushed:
  assumes "writing env config w" "max_latency (flush config) = Some limit"
    and "mono (we_clock env)" "flushes_work env" "topic < length (wr_topics w)"
    and "writer_write env topic cdr recv send w = (r, w')" "at = we_clock env (os_reads (wr_out w))"
  shows "r = Inr () \<and> list_all (\<lambda>t. pipeline_len (tp_pipeline t) = 0
    \<or> at < tp_last_flush t + 2 * limit) (wr_topics w')"
proof -
  obtain w1 where w1: "sweep_stale_topics env w1 = (r, w')" "swept env limit w1" "wr_config w1 = config"
    "os_reads (wr_out w) \<le> os_reads (wr_out w1)"
    using write_before_sweep [OF assms(1) writing_swept [OF assms(1,4,3,2)] assms(4,3,2,5)] assms(6) by metis
  have "at \<le> we_clock env (os_reads (wr_out w1))"
    unfolding assms(7) using assms(3) w1(4) by (rule monoD)
  then show ?thesis
    using sweep_stale_works [OF assms(4,3) w1(1,2)] w1(3) assms(2) by (auto simp: list_all_iff)
qed

lemma byte_flushes_work: "flushes_work byte_writer_env"
proof -
  have "\<not> isl (fst (pipeline_take byte_env p))" for p
    by (auto simp: pipeline_take_def struct_column_def scatter_def byte_env_def take_bytes_def
        plain_builder_def Let_def split: option.splits prod.splits sum.splits)
  then show ?thesis
    by (auto simp: flushes_work_def pipeline_flush_def byte_writer_env_def split: prod.splits sum.splits option.splits)
      (metis fst_conv isl_def)
qed

theorem quiet_topics_are_flushed_witness:
  "let w = snd (perform byte_writer_env (CreateTopic (byte_topic ''/a'')) (byte_writer {Raw}));
       w' = snd (writer_write byte_writer_env 0 [7] 5 4 w)
   in list_all (\<lambda>t. pipeline_len (tp_pipeline t) = 0
        \<or> we_clock byte_writer_env (os_reads (wr_out w)) < tp_last_flush t + 2 * 200000000) (wr_topics w')"
proof -
  let ?w = "snd (perform byte_writer_env (CreateTopic (byte_topic ''/a'')) (byte_writer {Raw}))"
  have w: "writing byte_writer_env (byte_config {Raw} None) ?w"
    by (rule writing.called [OF byte_writing]) simp
  have limit: "max_latency (flush (byte_config {Raw} None)) = Some 200000000"
    by (simp add: byte_config_def from_millis_def)
  have mono: "mono (we_clock byte_writer_env)" by (simp add: byte_writer_env_def mono_def)
  have topic: "0 < length (wr_topics ?w)"
    by (simp add: perform_def create_topic_def byte_writer_def Let_def split: prod.split)
  obtain r w' where w': "writer_write byte_writer_env 0 [7] 5 4 ?w = (r, w')" by fastforce
  from quiet_topics_are_flushed [OF w limit mono byte_flushes_work topic w' refl] w' show ?thesis
    by (simp add: Let_def)
qed

end
