(* ===== verification/Ffi.thy ===== *)
theory Ffi
  imports Writer Playback
begin

text \<open>
  \<open>error.rs\<close> and \<open>lib.rs\<close>: the entry points the C++ side calls. The state of the library
  is the reason slot of the calling thread and the two heaps of handles; handle 0 is the
  null pointer. A \<open>(pointer, length)\<close> pair is the memory readable from the pointer, \<open>None\<close>
  for a null one, with a length; an out-pointer is whether it is null, and what is written
  through it is returned. Using a handle after it was closed is the caller's fault in the
  source and unspecified here (\<open>the\<close>).
\<close>

section \<open>State\<close>

type_synonym handle = nat
type_synonym i32 = int
type_synonym memory = "bytes option \<times> usize"

record ('e, 'd, 'u) ffi_env =
  fe_writer :: "('e, 'd, 'u) writer_env"
  fe_reader :: "string \<Rightarrow> 'e reader_env"
  fe_yaml :: "string \<Rightarrow> config_file option"
  fe_uri :: "string \<Rightarrow> 'u option"
  fe_describe :: "error \<Rightarrow> string"

record ('e, 'd, 'u) ffi_state =
  fs_last_error :: string
  fs_writers :: "handle \<Rightarrow> ('e, 'd, 'u) writer option"
  fs_readers :: "handle \<Rightarrow> ('e reader_env \<times> 'e reader) option"
  fs_next :: handle

section \<open>Errors\<close>

definition set_last_error :: "string \<Rightarrow> ('e, 'd, 'u) ffi_state \<Rightarrow> ('e, 'd, 'u) ffi_state" where
  "set_last_error message st = st\<lparr>fs_last_error := message\<rparr>"

text \<open>\<open>guard\<close>: an error and a caught panic are both \<open>-1\<close> plus a recorded reason.\<close>

definition failure :: "('e, 'd, 'u) ffi_env \<Rightarrow> string \<Rightarrow> error \<Rightarrow> string" where
  "failure env what e =
     (case e of
        Panicked reason \<Rightarrow> what @ '' panicked: '' @ reason
      | _ \<Rightarrow> what @ '' failed: '' @ fe_describe env e)"

definition guard ::
  "('e, 'd, 'u) ffi_env \<Rightarrow> string \<Rightarrow> 'o result \<times> ('e, 'd, 'u) ffi_state
   \<Rightarrow> (i32 \<times> 'o option) \<times> ('e, 'd, 'u) ffi_state" where
  "guard env what outcome =
     (case outcome of
        (Inr out, st) \<Rightarrow> ((0, Some out), st)
      | (Inl e, st) \<Rightarrow> ((-1, None), set_last_error (failure env what e) st))"

text \<open>
  \<open>rrd_last_error\<close> copies the message, NUL-terminated, into a buffer of at least \<open>buf_len\<close>
  bytes, and takes it out of the slot.
\<close>

definition rrd_last_error ::
  "bytes option \<Rightarrow> usize \<Rightarrow> ('e, 'd, 'u) ffi_state \<Rightarrow> (usize \<times> bytes option) \<times> ('e, 'd, 'u) ffi_state"
where
  "rrd_last_error buf buf_len st =
     (case buf of
        None \<Rightarrow> ((0, None), st)
      | Some mem \<Rightarrow>
          if buf_len = 0 then ((0, buf), st)
          else
            (let message = string_bytes (fs_last_error st);
                 len = min (length message) (buf_len - 1)
             in ((len, Some (take len message @ [0] @ drop (len + 1) mem)), st\<lparr>fs_last_error := []\<rparr>)))"

section \<open>Borrowing\<close>

definition raw_bytes :: "memory \<Rightarrow> bytes" where
  "raw_bytes m = (case fst m of None \<Rightarrow> [] | Some mem \<Rightarrow> take (snd m) mem)"

definition text_of :: "memory \<Rightarrow> string result" where
  "text_of m = (case from_utf8 (raw_bytes m) of None \<Rightarrow> Inl NotUtf8 | Some s \<Rightarrow> Inr s)"

definition writer_at :: "handle \<Rightarrow> ('e, 'd, 'u) ffi_state \<Rightarrow> ('e, 'd, 'u) writer result" where
  "writer_at h st =
     (if h = 0 then Inl (NullPointer ''writer handle'') else Inr (the (fs_writers st h)))"

definition reader_at :: "handle \<Rightarrow> ('e, 'd, 'u) ffi_state \<Rightarrow> ('e reader_env \<times> 'e reader) result" where
  "reader_at h st =
     (if h = 0 then Inl (NullPointer ''reader handle'') else Inr (the (fs_readers st h)))"

definition put_writer ::
  "handle \<Rightarrow> ('e, 'd, 'u) writer \<Rightarrow> ('e, 'd, 'u) ffi_state \<Rightarrow> ('e, 'd, 'u) ffi_state" where
  "put_writer h w st = st\<lparr>fs_writers := (fs_writers st)(h \<mapsto> w)\<rparr>"

definition put_reader ::
  "handle \<Rightarrow> 'e reader_env \<times> 'e reader \<Rightarrow> ('e, 'd, 'u) ffi_state \<Rightarrow> ('e, 'd, 'u) ffi_state" where
  "put_reader h r st = st\<lparr>fs_readers := (fs_readers st)(h \<mapsto> r)\<rparr>"

text \<open>The \<open>?\<close> operator on results.\<close>

definition and_then :: "'a result \<Rightarrow> ('a \<Rightarrow> 'b result \<times> 's) \<Rightarrow> 's \<Rightarrow> 'b result \<times> 's" where
  "and_then r k st = (case r of Inl e \<Rightarrow> (Inl e, st) | Inr x \<Rightarrow> k x)"

section \<open>Writing\<close>

text \<open>Opening waits for the server, so it may not return: \<open>None\<close>.\<close>

definition open_writer ::
  "('e, 'd, 'u) ffi_env \<Rightarrow> memory \<Rightarrow> memory \<Rightarrow> memory \<Rightarrow> nat \<Rightarrow> ('e, 'd, 'u) writer result option" where
  "open_writer env path profile config_yaml reads =
     (case text_of path of
        Inl e \<Rightarrow> Some (Inl e)
      | Inr path \<Rightarrow>
          (case text_of profile of
             Inl e \<Rightarrow> Some (Inl e)
           | Inr profile \<Rightarrow>
               (case text_of config_yaml of
                  Inl e \<Rightarrow> Some (Inl e)
                | Inr config_yaml \<Rightarrow>
                    (case resolve (fe_yaml env) (fe_uri env) profile config_yaml of
                       Inl e \<Rightarrow> Some (Inl e)
                     | Inr config \<Rightarrow> writer_open (fe_writer env) path config reads))))"

definition rrd_writer_open ::
  "('e, 'd, 'u) ffi_env \<Rightarrow> memory \<Rightarrow> memory \<Rightarrow> memory \<Rightarrow> bool \<Rightarrow> nat \<Rightarrow> ('e, 'd, 'u) ffi_state
   \<Rightarrow> ((i32 \<times> handle option) \<times> ('e, 'd, 'u) ffi_state) option" where
  "rrd_writer_open env path profile config_yaml out_null reads st =
     (if out_null then Some (guard env ''rrd_writer_open'' (Inl (NullPointer ''out_writer''), st))
      else (case open_writer env path profile config_yaml reads of
              None \<Rightarrow> None
            | Some opened \<Rightarrow>
                Some (guard env ''rrd_writer_open''
                  (and_then opened (\<lambda>w.
                     (Inr (fs_next st),
                      (put_writer (fs_next st) w st)\<lparr>fs_next := Suc (fs_next st)\<rparr>)) st))))"

definition rrd_writer_create_topic ::
  "('e, 'd, 'u) ffi_env \<Rightarrow> handle \<Rightarrow> memory \<Rightarrow> memory \<Rightarrow> memory \<Rightarrow> memory \<Rightarrow> memory \<Rightarrow> memory \<Rightarrow> bool
   \<Rightarrow> ('e, 'd, 'u) ffi_state \<Rightarrow> (i32 \<times> usize option) \<times> ('e, 'd, 'u) ffi_state" where
  "rrd_writer_create_topic env h topic type_name schema_encoding schema_text qos_profiles type_hash
     out_null st =
     guard env ''rrd_writer_create_topic''
       (if out_null then (Inl (NullPointer ''out_topic''), st)
        else and_then (writer_at h st) (\<lambda>w.
             and_then (text_of topic) (\<lambda>topic.
             and_then (text_of type_name) (\<lambda>type_name.
             and_then (text_of schema_encoding) (\<lambda>schema_encoding.
             and_then (text_of qos_profiles) (\<lambda>qos_profiles.
             and_then (text_of type_hash) (\<lambda>type_hash.
               (case create_topic (fe_writer env)
                       \<lparr>rec_topic = topic, rec_type_name = type_name,
                        rec_schema_encoding = schema_encoding, rec_schema_text = raw_bytes schema_text,
                        rec_qos_profiles = qos_profiles, rec_type_hash = type_hash\<rparr> w of
                  (i, w) \<Rightarrow> (Inr i, put_writer h w st))) st) st) st) st) st) st)"

definition rrd_writer_write ::
  "('e, 'd, 'u) ffi_env \<Rightarrow> handle \<Rightarrow> usize \<Rightarrow> memory \<Rightarrow> i64 \<Rightarrow> i64 \<Rightarrow> ('e, 'd, 'u) ffi_state
   \<Rightarrow> (i32 \<times> unit option) \<times> ('e, 'd, 'u) ffi_state" where
  "rrd_writer_write env h topic cdr recv_timestamp send_timestamp st =
     guard env ''rrd_writer_write''
       (and_then (writer_at h st) (\<lambda>w.
          (case writer_write (fe_writer env) topic (raw_bytes cdr) recv_timestamp send_timestamp w of
             (r, w) \<Rightarrow> (r, put_writer h w st))) st)"

definition rrd_writer_remove_topic ::
  "('e, 'd, 'u) ffi_env \<Rightarrow> handle \<Rightarrow> memory \<Rightarrow> ('e, 'd, 'u) ffi_state
   \<Rightarrow> (i32 \<times> unit option) \<times> ('e, 'd, 'u) ffi_state" where
  "rrd_writer_remove_topic env h topic st =
     guard env ''rrd_writer_remove_topic''
       (and_then (writer_at h st) (\<lambda>w.
        and_then (text_of topic) (\<lambda>topic.
          (case remove_topic (fe_writer env) topic w of (r, w) \<Rightarrow> (r, put_writer h w st))) st) st)"

definition rrd_writer_set_metadata ::
  "('e, 'd, 'u) ffi_env \<Rightarrow> handle \<Rightarrow> memory \<Rightarrow> ('e, 'd, 'u) ffi_state
   \<Rightarrow> (i32 \<times> unit option) \<times> ('e, 'd, 'u) ffi_state" where
  "rrd_writer_set_metadata env h yaml st =
     guard env ''rrd_writer_set_metadata''
       (and_then (writer_at h st) (\<lambda>w.
        and_then (text_of yaml) (\<lambda>yaml.
          (Inr (), put_writer h (set_metadata yaml w) st)) st) st)"

text \<open>Closing consumes the handle; what it wrote last is returned with the status.\<close>

definition rrd_writer_close ::
  "('e, 'd, 'u) ffi_env \<Rightarrow> handle \<Rightarrow> ('e, 'd, 'u) ffi_state
   \<Rightarrow> (i32 \<times> 'e outside option) \<times> ('e, 'd, 'u) ffi_state" where
  "rrd_writer_close env h st =
     (if h = 0
      then ((-1, None), set_last_error ''rrd_writer_close called with a null writer handle'' st)
      else
        (case writer_close (fe_writer env) (the (fs_writers st h)) of
           (r, out) \<Rightarrow>
             (case guard env ''rrd_writer_close'' (r, st\<lparr>fs_writers := (fs_writers st)(h := None)\<rparr>) of
                ((status, _), st) \<Rightarrow> ((status, Some out), st))))"

section \<open>Reading\<close>

text \<open>The structs handed to C++, with each borrowed string as the bytes it points to.\<close>

record rrd_topic =
  rt_name :: string
  rt_type_name :: string
  rt_schema_encoding :: string
  rt_schema_text :: bytes
  rt_qos_profiles :: string
  rt_type_hash :: string
  rt_message_count :: usize

record rrd_message =
  rm_topic :: string
  rm_data :: bytes
  rm_recv_timestamp_ns :: i64
  rm_send_timestamp_ns :: i64

definition rrd_reader_open ::
  "('e::linorder, 'd, 'u) ffi_env \<Rightarrow> memory \<Rightarrow> bool \<Rightarrow> ('e, 'd, 'u) ffi_state
   \<Rightarrow> (i32 \<times> handle option) \<times> ('e, 'd, 'u) ffi_state" where
  "rrd_reader_open env path out_null st =
     guard env ''rrd_reader_open''
       (if out_null then (Inl (NullPointer ''out_reader''), st)
        else and_then (text_of path) (\<lambda>path.
             and_then (reader_open (fe_reader env path)) (\<lambda>rd.
               (Inr (fs_next st),
                (put_reader (fs_next st) (fe_reader env path, rd) st)\<lparr>fs_next := Suc (fs_next st)\<rparr>)) st) st)"

definition rrd_reader_topic_count :: "handle \<Rightarrow> ('e, 'd, 'u) ffi_state \<Rightarrow> usize" where
  "rrd_reader_topic_count h st =
     (case reader_at h st of Inl _ \<Rightarrow> 0 | Inr (_, rd) \<Rightarrow> length (rd_topics rd))"

definition rrd_reader_topic ::
  "('e, 'd, 'u) ffi_env \<Rightarrow> handle \<Rightarrow> usize \<Rightarrow> bool \<Rightarrow> ('e, 'd, 'u) ffi_state
   \<Rightarrow> (i32 \<times> rrd_topic option) \<times> ('e, 'd, 'u) ffi_state" where
  "rrd_reader_topic env h index out_null st =
     guard env ''rrd_reader_topic''
       (if out_null then (Inl (NullPointer ''out_topic''), st)
        else and_then (reader_at h st) (\<lambda>(_, rd).
          (case get (rd_topics rd) index of
             None \<Rightarrow> (Inl (NoSuchTopic index), st)
           | Some topic \<Rightarrow>
               (Inr \<lparr>rt_name = ti_name topic, rt_type_name = ti_type_name topic,
                     rt_schema_encoding = ti_schema_encoding topic,
                     rt_schema_text = ti_schema_text topic, rt_qos_profiles = ti_qos_profiles topic,
                     rt_type_hash = ti_type_hash topic, rt_message_count = ti_message_count topic\<rparr>,
                st))) st)"

definition rrd_reader_metadata ::
  "('e, 'd, 'u) ffi_env \<Rightarrow> handle \<Rightarrow> bool \<Rightarrow> ('e, 'd, 'u) ffi_state
   \<Rightarrow> (i32 \<times> string option) \<times> ('e, 'd, 'u) ffi_state" where
  "rrd_reader_metadata env h out_null st =
     guard env ''rrd_reader_metadata''
       (if out_null then (Inl (NullPointer ''out_yaml''), st)
        else and_then (reader_at h st) (\<lambda>(_, rd). (Inr (unwrap_or (rd_metadata_yaml rd) []), st)) st)"

definition rrd_reader_recording_id ::
  "('e, 'd, 'u) ffi_env \<Rightarrow> handle \<Rightarrow> bool \<Rightarrow> ('e, 'd, 'u) ffi_state
   \<Rightarrow> (i32 \<times> string option) \<times> ('e, 'd, 'u) ffi_state" where
  "rrd_reader_recording_id env h out_null st =
     guard env ''rrd_reader_recording_id''
       (if out_null then (Inl (NullPointer ''out_id''), st)
        else and_then (reader_at h st) (\<lambda>(_, rd). (Inr (rd_recording_id rd), st)) st)"

definition rrd_reader_time_range ::
  "('e, 'd, 'u) ffi_env \<Rightarrow> handle \<Rightarrow> bool \<Rightarrow> ('e, 'd, 'u) ffi_state
   \<Rightarrow> (i32 \<times> (i64 \<times> i64 \<times> usize) option) \<times> ('e, 'd, 'u) ffi_state" where
  "rrd_reader_time_range env h out_null st =
     guard env ''rrd_reader_time_range''
       (if out_null then (Inl (NullPointer ''out pointer''), st)
        else and_then (reader_at h st) (\<lambda>(_, rd).
          (case unwrap_or (rd_time_range rd) (0, 0) of
             (start, finish) \<Rightarrow> (Inr (start, finish, rd_message_count rd), st))) st)"

definition filter_names :: "string \<Rightarrow> string list" where
  "filter_names names = filter (\<lambda>name. name \<noteq> []) (split_on (CHR 0x0A) names)"

text \<open>The methods of a reader that return nothing but a status.\<close>

definition on_reader ::
  "handle \<Rightarrow> ('e reader_env \<Rightarrow> 'e reader \<Rightarrow> 'o result \<times> 'e reader) \<Rightarrow> ('e, 'd, 'u) ffi_state
   \<Rightarrow> 'o result \<times> ('e, 'd, 'u) ffi_state" where
  "on_reader h method st =
     and_then (reader_at h st) (\<lambda>(renv, rd).
       (case method renv rd of (r, rd) \<Rightarrow> (r, put_reader h (renv, rd) st))) st"

definition rrd_reader_set_filter ::
  "('e, 'd, 'u) ffi_env \<Rightarrow> handle \<Rightarrow> memory \<Rightarrow> ('e, 'd, 'u) ffi_state
   \<Rightarrow> (i32 \<times> unit option) \<times> ('e, 'd, 'u) ffi_state" where
  "rrd_reader_set_filter env h topics st =
     guard env ''rrd_reader_set_filter''
       (and_then (text_of topics) (\<lambda>names.
          on_reader h (\<lambda>renv. set_filter renv (filter_names names)) st) st)"

definition rrd_reader_set_reverse ::
  "('e, 'd, 'u) ffi_env \<Rightarrow> handle \<Rightarrow> i32 \<Rightarrow> ('e, 'd, 'u) ffi_state
   \<Rightarrow> (i32 \<times> unit option) \<times> ('e, 'd, 'u) ffi_state" where
  "rrd_reader_set_reverse env h reverse st =
     guard env ''rrd_reader_set_reverse'' (on_reader h (\<lambda>renv. set_reverse renv (reverse \<noteq> 0)) st)"

definition rrd_reader_seek ::
  "('e, 'd, 'u) ffi_env \<Rightarrow> handle \<Rightarrow> i64 \<Rightarrow> ('e, 'd, 'u) ffi_state
   \<Rightarrow> (i32 \<times> unit option) \<times> ('e, 'd, 'u) ffi_state" where
  "rrd_reader_seek env h timestamp st =
     guard env ''rrd_reader_seek'' (on_reader h (\<lambda>renv. seek renv timestamp) st)"

definition rrd_reader_next ::
  "('e, 'd, 'u) ffi_env \<Rightarrow> handle \<Rightarrow> bool \<Rightarrow> ('e, 'd, 'u) ffi_state
   \<Rightarrow> (i32 \<times> rrd_message option) \<times> ('e, 'd, 'u) ffi_state" where
  "rrd_reader_next env h out_null st =
     (case guard env ''rrd_reader_next''
             (if out_null then (Inl (NullPointer ''out_message''), st)
              else on_reader h read_next_borrowed st) of
        ((status, found), st) \<Rightarrow>
          if status \<noteq> 0 then ((status, None), st)
          else (case found of
                  Some (Some m) \<Rightarrow>
                    ((1, Some \<lparr>rm_topic = msg_topic_name m, rm_data = msg_data m,
                               rm_recv_timestamp_ns = msg_recv_timestamp m,
                               rm_send_timestamp_ns = msg_send_timestamp m\<rparr>), st)
                | _ \<Rightarrow> ((0, None), st)))"

definition rrd_reader_close :: "handle \<Rightarrow> ('e, 'd, 'u) ffi_state \<Rightarrow> ('e, 'd, 'u) ffi_state" where
  "rrd_reader_close h st =
     (if h \<noteq> 0 then st\<lparr>fs_readers := (fs_readers st)(h := None)\<rparr> else st)"

end
