(* ===== verification/Logging.thy ===== *)
theory Logging
  imports Ffi
begin

text \<open>
  \<open>logging.rs\<close>: the callback that receives the diagnostics, and the line an event becomes.
  The \<open>tracing\<close> libraries are data: an event is its level, its target and its fields in the
  order they are recorded, each a string or a value already formatted with \<open>{:?}\<close>; whether
  the filter lets an event through is the parameter \<open>enabled\<close>.
\<close>

section \<open>Levels and lines\<close>

datatype level = Trace | Debug | Info | Warn | Error

fun level_number :: "level \<Rightarrow> i32" where
  "level_number Trace = 0"
| "level_number Debug = 1"
| "level_number Info = 2"
| "level_number Warn = 3"
| "level_number Error = 4"

text \<open>\<open>{:?}\<close> of a \<open>str\<close>: quoted, with quotes, backslashes and control characters escaped.\<close>

definition hex_digit :: "nat \<Rightarrow> char" where
  "hex_digit n = ''0123456789abcdef'' ! n"

definition escape_char :: "char \<Rightarrow> string" where
  "escape_char c =
     (let n = (of_char c :: nat) in
      if n = 34 then [CHR 0x5C, CHR 0x22]
      else if n = 92 then [CHR 0x5C, CHR 0x5C]
      else if n = 9 then [CHR 0x5C, CHR ''t'']
      else if n = 10 then [CHR 0x5C, CHR ''n'']
      else if n = 13 then [CHR 0x5C, CHR ''r'']
      else if n = 0 then [CHR 0x5C, CHR ''0'']
      else if n < 16 then [CHR 0x5C] @ ''u{'' @ [hex_digit n] @ ''}''
      else if n < 32 \<or> n = 127 then [CHR 0x5C] @ ''u{'' @ [hex_digit (n div 16), hex_digit (n mod 16)] @ ''}''
      else [c])"

definition debug_str :: "string \<Rightarrow> string" where
  "debug_str s = [CHR 0x22] @ concat (map escape_char s) @ [CHR 0x22]"

datatype field_value = Str string | Formatted string

record event =
  ev_level :: level
  ev_target :: string
  ev_log_target :: "(level \<times> string) option"
  ev_fields :: "(string \<times> field_value) list"

definition record_debug :: "string \<Rightarrow> string \<Rightarrow> string \<Rightarrow> string" where
  "record_debug name shown line =
     (if take 4 name = ''log.'' then line
      else if name = ''message'' then line @ shown
      else line @ '' '' @ name @ ''='' @ shown)"

fun record_field :: "string \<times> field_value \<Rightarrow> string \<Rightarrow> string" where
  "record_field (name, Str s) line =
     (if name = ''message'' then line @ s else record_debug name (debug_str s) line)"
| "record_field (name, Formatted shown) line = record_debug name shown line"

text \<open>\<open>on_event\<close>: an event that came in through \<open>log\<close> carries its real origin.\<close>

definition on_event :: "event \<Rightarrow> i32 \<times> string \<times> string" where
  "on_event ev =
     (let metadata = unwrap_or (ev_log_target ev) (ev_level ev, ev_target ev)
      in (level_number (fst metadata), snd metadata, fold record_field (ev_fields ev) []))"

section \<open>Installing the callback\<close>

text \<open>
  \<open>Once\<close>, the logger that \<open>log\<close> sends its records to and the global subscriber of
  \<open>tracing\<close>. Another component may have installed its own first, either or both of them;
  then ours is not used there, which is not an error. \<open>lg_bridged\<close>: the installed logger
  hands its records on to \<open>tracing\<close>, as \<open>LogTracer\<close> does.
\<close>

record 'c logging =
  lg_installed :: bool
  lg_logger_taken :: bool
  lg_bridged :: bool
  lg_subscriber_taken :: bool
  lg_callback :: "'c option"

definition log_tracer_init :: "'c logging \<Rightarrow> 'c logging" where
  "log_tracer_init lg =
     (if lg_logger_taken lg then lg else lg\<lparr>lg_logger_taken := True, lg_bridged := True\<rparr>)"

definition set_global_default :: "'c \<Rightarrow> 'c logging \<Rightarrow> 'c logging" where
  "set_global_default c lg =
     (if lg_subscriber_taken lg then lg else lg\<lparr>lg_subscriber_taken := True, lg_callback := Some c\<rparr>)"

definition rrd_set_log_callback ::
  "('e, 'd, 'u) ffi_env \<Rightarrow> 'c option \<Rightarrow> 'c logging \<times> ('e, 'd, 'u) ffi_state
   \<Rightarrow> i32 \<times> 'c logging \<times> ('e, 'd, 'u) ffi_state" where
  "rrd_set_log_callback env callback s =
     (case s of
        (lg, st) \<Rightarrow>
          (case callback of
             None \<Rightarrow>
               (case guard env ''rrd_set_log_callback'' (Inl (NullPointer ''log callback'') :: unit result, st) of
                  ((status, _), st) \<Rightarrow> (status, lg, st))
           | Some c \<Rightarrow>
               (0, (if lg_installed lg then lg
                    else set_global_default c (log_tracer_init (lg\<lparr>lg_installed := True\<rparr>))), st)))"

text \<open>
  What the host is called with for an event. One that came from \<open>log\<close> only gets here over
  the bridge.
\<close>

definition deliver :: "(event \<Rightarrow> bool) \<Rightarrow> 'c logging \<Rightarrow> event \<Rightarrow> ('c \<times> i32 \<times> string \<times> string) option" where
  "deliver enabled lg ev =
     (if enabled ev \<and> (ev_log_target ev = None \<or> lg_bridged lg)
      then map_option (\<lambda>c. (c, on_event ev)) (lg_callback lg) else None)"

text \<open>A process in which nothing has set up logging yet.\<close>

definition no_logging :: "'c logging" where
  "no_logging =
     \<lparr>lg_installed = False, lg_logger_taken = False, lg_bridged = False, lg_subscriber_taken = False,
      lg_callback = None\<rparr>"


section \<open>The first callback wins\<close>

fun set_callbacks ::
  "('e, 'd, 'u) ffi_env \<Rightarrow> 'c option list \<Rightarrow> 'c logging \<times> ('e, 'd, 'u) ffi_state
   \<Rightarrow> i32 list \<times> 'c logging \<times> ('e, 'd, 'u) ffi_state" where
  "set_callbacks env [] s = ([], s)"
| "set_callbacks env (c # cs) s =
     (case rrd_set_log_callback env c s of
        (status, s) \<Rightarrow> (case set_callbacks env cs s of (rest, s) \<Rightarrow> (status # rest, s)))"

lemma set_callbacks_installed:
  "lg_installed lg \<Longrightarrow>
     fst (set_callbacks env cs (lg, st)) = map (\<lambda>c. if c = None then -1 else 0) cs
     \<and> fst (snd (set_callbacks env cs (lg, st))) = lg"
proof (induction cs arbitrary: st)
  case (Cons c cs)
  obtain st' where "rrd_set_log_callback env c (lg, st) = (if c = None then -1 else 0, lg, st')"
    using Cons.prems by (cases c) (auto simp: rrd_set_log_callback_def guard_def)
  moreover obtain x lg' st'' where "set_callbacks env cs (lg, st') = (x, lg', st'')"
    by (cases "set_callbacks env cs (lg, st')") auto
  ultimately show ?case using Cons.IH [OF Cons.prems, of st'] by simp
qed simp

text \<open>
  C40: the first callback stays. However often the host registers one, in a process in which
  no other component has set up logging, the events go to the first callback that was not null, every call with
  a callback succeeds, every call without one fails, and nothing is delivered before there
  is a callback.
\<close>

theorem first_callback_stays:
  "let r = set_callbacks env cs (no_logging, st)
   in fst r = map (\<lambda>c. if c = None then -1 else 0) cs
      \<and> deliver enabled (fst (snd r)) ev =
          (if enabled ev
           then map_option (\<lambda>c. (c, on_event ev)) (Option.bind (List.find (\<lambda>c. c \<noteq> None) cs) id)
           else None)"
proof (induction cs arbitrary: st)
  case (Cons c cs)
  let ?lg = "no_logging :: 'a logging"
  show ?case
  proof (cases c)
    case None
    obtain st' where "rrd_set_log_callback env c (?lg, st) = (-1, ?lg, st')"
      using None by (simp add: rrd_set_log_callback_def guard_def)
    moreover obtain x lg' st'' where "set_callbacks env cs (?lg, st') = (x, lg', st'')"
      by (cases "set_callbacks env cs (?lg, st')") auto
    ultimately show ?thesis using Cons.IH [of st'] None by (simp add: Let_def)
  next
    case (Some f)
    let ?lg' = "\<lparr>lg_installed = True, lg_logger_taken = True, lg_bridged = True,
      lg_subscriber_taken = True, lg_callback = Some f\<rparr>"
    have "rrd_set_log_callback env c (?lg, st) = (0, ?lg', st)"
      using Some
      by (simp add: rrd_set_log_callback_def no_logging_def log_tracer_init_def set_global_default_def)
    moreover obtain x lg' st'' where "set_callbacks env cs (?lg', st) = (x, lg', st'')"
      by (cases "set_callbacks env cs (?lg', st)") auto
    ultimately show ?thesis
      using set_callbacks_installed [of ?lg' env cs st] Some by (simp add: Let_def deliver_def)
  qed
qed (simp add: deliver_def no_logging_def)

section \<open>Lines\<close>

definition shown_pair :: "string \<times> field_value \<Rightarrow> string" where
  "shown_pair f =
     (if take 4 (fst f) = ''log.'' then []
      else '' '' @ fst f @ ''='' @ (case snd f of Str s \<Rightarrow> debug_str s | Formatted shown \<Rightarrow> shown))"

lemma record_field_pair: "fst f \<noteq> ''message'' \<Longrightarrow> record_field f line = line @ shown_pair f"
  by (cases "(f, line)" rule: record_field.cases) (auto simp: record_debug_def shown_pair_def)

lemma record_fields:
  "list_all (\<lambda>f. fst f \<noteq> ''message'') fs \<Longrightarrow> fold record_field fs line = line @ concat (map shown_pair fs)"
  by (induction fs arbitrary: line) (simp_all add: record_field_pair)

text \<open>The text of a message: a string as it is, formatted arguments as they are formatted.\<close>

definition message_text :: "field_value \<Rightarrow> string" where
  "message_text v = (case v of Str s \<Rightarrow> s | Formatted s \<Rightarrow> s)"

lemma record_message: "record_field (''message'', v) line = line @ message_text v"
  by (cases v) (simp_all add: message_text_def record_debug_def)

text \<open>
  C39: an event becomes one line, its message verbatim, then \<open>name=value\<close> for every other
  field in order, strings quoted; the \<open>log.*\<close> fields of the bridge leave no trace in the line
  but give the event its real level and origin. The message is verbatim in both ways it can
  arrive: as a string (\<open>record_str\<close>), and as the formatted arguments of a logging macro
  (\<open>record_debug\<close>), which is how the macros of \<open>log\<close> and \<open>tracing\<close> pass it.
\<close>

theorem event_line:
  assumes "ev_fields ev = (''message'', v) # fs" "list_all (\<lambda>f. fst f \<noteq> ''message'') fs"
  shows "on_event ev =
    (case ev_log_target ev of
       None \<Rightarrow> (level_number (ev_level ev), ev_target ev, message_text v @ concat (map shown_pair fs))
     | Some origin \<Rightarrow> (level_number (fst origin), snd origin, message_text v @ concat (map shown_pair fs)))"
  using assms record_fields [OF assms(2), of "message_text v"] record_message [of v "[]"]
  by (simp add: on_event_def Let_def del: record_field.simps split: option.split)

theorem event_line_witness:
  "on_event \<lparr>ev_level = Trace, ev_target = ''log'', ev_log_target = Some (Warn, ''rrd::record''),
      ev_fields = [(''message'', Formatted ''from log 1''), (''log.target'', Str ''x''), (''n'', Formatted ''3'')]\<rparr>
    = (3, ''rrd::record'', ''from log 1 n=3'')
   \<and> on_event \<lparr>ev_level = Error, ev_target = ''rrd'', ev_log_target = None,
      ev_fields = [(''message'', Str ''lost''), (''topic'', Str ''/x'')]\<rparr>
    = (4, ''rrd'', ''lost topic='' @ debug_str ''/x'')"
  using event_line [of "\<lparr>ev_level = Trace, ev_target = ''log'', ev_log_target = Some (Warn, ''rrd::record''),
      ev_fields = [(''message'', Formatted ''from log 1''), (''log.target'', Str ''x''), (''n'', Formatted ''3'')]\<rparr>"]
    event_line [of "\<lparr>ev_level = Error, ev_target = ''rrd'', ev_log_target = None,
      ev_fields = [(''message'', Str ''lost''), (''topic'', Str ''/x'')]\<rparr>"]
  by (simp add: shown_pair_def message_text_def)

end
