(* ===== verification/Boundary.thy ===== *)
theory Boundary
  imports Logging Replaying Sample_Writer
begin

text \<open>
  The theorems about the boundary to C++: what every entry point does with errors and null
  arguments, that a call stays on its own handle, how a reason is handed out, and that the
  loop the plugin reads with replays the recording.
\<close>

section \<open>Calls\<close>

datatype 'c ffi_call =
    SetLogCallback "'c option"
  | LastError "bytes option" usize
  | WriterOpen memory memory memory bool nat
  | WriterCreateTopic handle memory memory memory memory memory memory bool
  | WriterWrite handle usize memory i64 i64
  | WriterRemoveTopic handle memory
  | WriterSetMetadata handle memory
  | WriterClose handle
  | ReaderOpen memory bool
  | ReaderTopicCount handle
  | ReaderTopic handle usize bool
  | ReaderMetadata handle bool
  | ReaderRecordingId handle bool
  | ReaderTimeRange handle bool
  | ReaderSetFilter handle memory
  | ReaderSetReverse handle i32
  | ReaderSeek handle i64
  | ReaderNext handle bool
  | ReaderClose handle

text \<open>
  What a call returns: most a status, \<open>rrd_last_error\<close> and \<open>rrd_reader_topic_count\<close> a number
  that is no status, \<open>rrd_reader_close\<close> nothing.
\<close>

datatype answer = Code i32 | Count usize | Void

abbreviation status_only :: "(i32 \<times> 'o) \<times> 's \<Rightarrow> i32 \<times> 's" where
  "status_only r \<equiv> (fst (fst r), snd r)"

text \<open>The calls on a handle, on the state of the boundary alone.\<close>

fun invoke_handle ::
  "('e::linorder, 'd, 'u) ffi_env \<Rightarrow> 'c ffi_call \<Rightarrow> ('e, 'd, 'u) ffi_state
   \<Rightarrow> (i32 \<times> ('e, 'd, 'u) ffi_state) option" where
  "invoke_handle env (WriterOpen path profile yaml null reads) st =
     map_option status_only (rrd_writer_open env path profile yaml null reads st)"
| "invoke_handle env (WriterCreateTopic h t n e s q x null) st =
     Some (status_only (rrd_writer_create_topic env h t n e s q x null st))"
| "invoke_handle env (WriterWrite h t cdr recv send) st =
     Some (status_only (rrd_writer_write env h t cdr recv send st))"
| "invoke_handle env (WriterRemoveTopic h t) st =
     Some (status_only (rrd_writer_remove_topic env h t st))"
| "invoke_handle env (WriterSetMetadata h yaml) st =
     Some (status_only (rrd_writer_set_metadata env h yaml st))"
| "invoke_handle env (WriterClose h) st = Some (status_only (rrd_writer_close env h st))"
| "invoke_handle env (ReaderOpen path null) st = Some (status_only (rrd_reader_open env path null st))"
| "invoke_handle env (ReaderTopic h i null) st =
     Some (status_only (rrd_reader_topic env h i null st))"
| "invoke_handle env (ReaderMetadata h null) st =
     Some (status_only (rrd_reader_metadata env h null st))"
| "invoke_handle env (ReaderRecordingId h null) st =
     Some (status_only (rrd_reader_recording_id env h null st))"
| "invoke_handle env (ReaderTimeRange h null) st =
     Some (status_only (rrd_reader_time_range env h null st))"
| "invoke_handle env (ReaderSetFilter h names) st =
     Some (status_only (rrd_reader_set_filter env h names st))"
| "invoke_handle env (ReaderSetReverse h r) st =
     Some (status_only (rrd_reader_set_reverse env h r st))"
| "invoke_handle env (ReaderSeek h t) st = Some (status_only (rrd_reader_seek env h t st))"
| "invoke_handle env (ReaderNext h null) st = Some (status_only (rrd_reader_next env h null st))"
| "invoke_handle env _ st = None"

text \<open>Every entry point, on the state of the logging and of the boundary.\<close>

fun invoke ::
  "('e::linorder, 'd, 'u) ffi_env \<Rightarrow> 'c ffi_call \<Rightarrow> 'c logging \<times> ('e, 'd, 'u) ffi_state
   \<Rightarrow> (answer \<times> 'c logging \<times> ('e, 'd, 'u) ffi_state) option" where
  "invoke env (SetLogCallback c) s =
     (case rrd_set_log_callback env c s of (status, s) \<Rightarrow> Some (Code status, s))"
| "invoke env (LastError buf buf_len) (lg, st) =
     (case rrd_last_error buf buf_len st of ((n, _), st) \<Rightarrow> Some (Count n, lg, st))"
| "invoke env (ReaderTopicCount h) (lg, st) = Some (Count (rrd_reader_topic_count h st), lg, st)"
| "invoke env (ReaderClose h) (lg, st) = Some (Void, lg, rrd_reader_close h st)"
| "invoke env call (lg, st) =
     map_option (\<lambda>(status, st). (Code status, lg, st)) (invoke_handle env call st)"

fun call_name :: "'c ffi_call \<Rightarrow> string" where
  "call_name (SetLogCallback _) = ''rrd_set_log_callback''"
| "call_name (LastError _ _) = ''rrd_last_error''"
| "call_name (WriterOpen _ _ _ _ _) = ''rrd_writer_open''"
| "call_name (WriterCreateTopic _ _ _ _ _ _ _ _) = ''rrd_writer_create_topic''"
| "call_name (WriterWrite _ _ _ _ _) = ''rrd_writer_write''"
| "call_name (WriterRemoveTopic _ _) = ''rrd_writer_remove_topic''"
| "call_name (WriterSetMetadata _ _) = ''rrd_writer_set_metadata''"
| "call_name (WriterClose _) = ''rrd_writer_close''"
| "call_name (ReaderOpen _ _) = ''rrd_reader_open''"
| "call_name (ReaderTopicCount _) = ''rrd_reader_topic_count''"
| "call_name (ReaderTopic _ _ _) = ''rrd_reader_topic''"
| "call_name (ReaderMetadata _ _) = ''rrd_reader_metadata''"
| "call_name (ReaderRecordingId _ _) = ''rrd_reader_recording_id''"
| "call_name (ReaderTimeRange _ _) = ''rrd_reader_time_range''"
| "call_name (ReaderSetFilter _ _) = ''rrd_reader_set_filter''"
| "call_name (ReaderSetReverse _ _) = ''rrd_reader_set_reverse''"
| "call_name (ReaderSeek _ _) = ''rrd_reader_seek''"
| "call_name (ReaderNext _ _) = ''rrd_reader_next''"
| "call_name (ReaderClose _) = ''rrd_reader_close''"

text \<open>The handle a call works on, and whether it is given a null where it needs an argument.\<close>

fun call_handle :: "'c ffi_call \<Rightarrow> handle option" where
  "call_handle (SetLogCallback _) = None"
| "call_handle (LastError _ _) = None"
| "call_handle (WriterOpen _ _ _ _ _) = None"
| "call_handle (ReaderOpen _ _) = None"
| "call_handle (WriterCreateTopic h _ _ _ _ _ _ _) = Some h"
| "call_handle (WriterWrite h _ _ _ _) = Some h"
| "call_handle (WriterRemoveTopic h _) = Some h"
| "call_handle (WriterSetMetadata h _) = Some h"
| "call_handle (WriterClose h) = Some h"
| "call_handle (ReaderTopicCount h) = Some h"
| "call_handle (ReaderTopic h _ _) = Some h"
| "call_handle (ReaderMetadata h _) = Some h"
| "call_handle (ReaderRecordingId h _) = Some h"
| "call_handle (ReaderTimeRange h _) = Some h"
| "call_handle (ReaderSetFilter h _) = Some h"
| "call_handle (ReaderSetReverse h _) = Some h"
| "call_handle (ReaderSeek h _) = Some h"
| "call_handle (ReaderNext h _) = Some h"
| "call_handle (ReaderClose h) = Some h"

fun null_out :: "'c ffi_call \<Rightarrow> bool" where
  "null_out (SetLogCallback c) \<longleftrightarrow> c = None"
| "null_out (LastError buf _) \<longleftrightarrow> buf = None"
| "null_out (WriterOpen _ _ _ null _) = null"
| "null_out (WriterCreateTopic _ _ _ _ _ _ _ null) = null"
| "null_out (ReaderOpen _ null) = null"
| "null_out (ReaderTopic _ _ null) = null"
| "null_out (ReaderMetadata _ null) = null"
| "null_out (ReaderRecordingId _ null) = null"
| "null_out (ReaderTimeRange _ null) = null"
| "null_out (ReaderNext _ null) = null"
| "null_out _ = False"

section \<open>Null arguments\<close>

text \<open>
  The argument a refused call names: its out-pointer is checked before its handle. A filter
  is decoded before the handle is looked at.
\<close>

fun null_argument :: "'c ffi_call \<Rightarrow> string" where
  "null_argument (SetLogCallback _) = ''log callback''"
| "null_argument (WriterOpen _ _ _ _ _) = ''out_writer''"
| "null_argument (WriterCreateTopic _ _ _ _ _ _ _ null) = (if null then ''out_topic'' else ''writer handle'')"
| "null_argument (WriterWrite _ _ _ _ _) = ''writer handle''"
| "null_argument (WriterRemoveTopic _ _) = ''writer handle''"
| "null_argument (WriterSetMetadata _ _) = ''writer handle''"
| "null_argument (ReaderOpen _ _) = ''out_reader''"
| "null_argument (ReaderTopic _ _ null) = (if null then ''out_topic'' else ''reader handle'')"
| "null_argument (ReaderMetadata _ null) = (if null then ''out_yaml'' else ''reader handle'')"
| "null_argument (ReaderRecordingId _ null) = (if null then ''out_id'' else ''reader handle'')"
| "null_argument (ReaderTimeRange _ null) = (if null then ''out pointer'' else ''reader handle'')"
| "null_argument (ReaderNext _ null) = (if null then ''out_message'' else ''reader handle'')"
| "null_argument _ = ''reader handle''"

fun refusal_error :: "'c ffi_call \<Rightarrow> error" where
  "refusal_error (ReaderSetFilter h names) =
     (case text_of names of Inl e \<Rightarrow> e | Inr _ \<Rightarrow> NullPointer ''reader handle'')"
| "refusal_error call = NullPointer (null_argument call)"

fun refusal_reason :: "('e, 'd, 'u) ffi_env \<Rightarrow> 'c ffi_call \<Rightarrow> string" where
  "refusal_reason env (WriterClose _) = ''rrd_writer_close called with a null writer handle''"
| "refusal_reason env call = call_name call @ '' failed: '' @ fe_describe env (refusal_error call)"

text \<open>
  A call with a status is refused with \<open>-1\<close> and its reason; the three without one do nothing
  and say nothing.
\<close>

fun refused ::
  "('e, 'd, 'u) ffi_env \<Rightarrow> 'c ffi_call \<Rightarrow> 'c logging \<times> ('e, 'd, 'u) ffi_state
   \<Rightarrow> answer \<times> 'c logging \<times> ('e, 'd, 'u) ffi_state" where
  "refused env (LastError _ _) s = (Count 0, s)"
| "refused env (ReaderTopicCount _) s = (Count 0, s)"
| "refused env (ReaderClose _) s = (Void, s)"
| "refused env call (lg, st) = (Code (-1), lg, st\<lparr>fs_last_error := refusal_reason env call\<rparr>)"

lemma guard_refuses [simp]: "guard env what (Inl e, st) = ((-1, None), set_last_error (failure env what e) st)"
  by (simp add: guard_def)

lemma null_handles [simp]:
  "writer_at 0 st = Inl (NullPointer ''writer handle'')" "reader_at 0 st = Inl (NullPointer ''reader handle'')"
  by (simp_all add: writer_at_def reader_at_def)

lemma and_then_simps [simp]:
  "and_then (Inl e) k st = (Inl e, st)" "and_then (Inr x) k st = k x"
  by (simp_all add: and_then_def)

text \<open>The only error of decoding a filter is not a panic.\<close>

lemma text_of_error: "text_of m = Inl e \<Longrightarrow> e = NotUtf8"
  by (simp add: text_of_def split: option.splits)

text \<open>
  C36: no entry point is hurt by a null argument. A call with a null handle, a null
  out-pointer or a null callback that returns a status returns \<open>-1\<close> and records exactly the
  reason that names the call and the null argument (for a filter that is not UTF-8, that
  error: it is decoded before the handle is looked at). The three calls without a status,
  \<open>rrd_last_error\<close> with a null buffer, \<open>rrd_reader_topic_count\<close> and \<open>rrd_reader_close\<close> with a
  null handle, return 0 or nothing and record no reason. Nothing else is touched: no handle,
  no topic, no read position.
\<close>

theorem null_arguments_are_refused:
  assumes "null_out call \<or> call_handle call = Some 0"
  shows "invoke env call s = Some (refused env call s)"
  using assms
  by (cases "(env, call, s)" rule: invoke.cases)
    (auto simp: failure_def set_last_error_def rrd_set_log_callback_def rrd_last_error_def
      rrd_writer_open_def rrd_writer_create_topic_def rrd_writer_write_def
      rrd_writer_remove_topic_def rrd_writer_set_metadata_def rrd_writer_close_def
      rrd_reader_open_def rrd_reader_topic_count_def rrd_reader_topic_def rrd_reader_metadata_def
      rrd_reader_recording_id_def rrd_reader_time_range_def rrd_reader_set_filter_def
      rrd_reader_set_reverse_def rrd_reader_seek_def rrd_reader_next_def rrd_reader_close_def
      on_reader_def and_then_def dest: text_of_error split: sum.splits prod.split)

definition empty_state :: "(nat, bytes, unit) ffi_state" where
  "empty_state =
     \<lparr>fs_last_error = ''stale'', fs_writers = (\<lambda>_. None), fs_readers = (\<lambda>_. None), fs_next = 1\<rparr>"

definition bag_ffi :: "(nat, bytes, unit) ffi_env" where
  "bag_ffi =
     \<lparr>fe_writer = byte_writer_env, fe_reader = (\<lambda>_. bag_env True), fe_yaml = (\<lambda>_. None),
      fe_uri = (\<lambda>_. None), fe_describe = (\<lambda>_. ''reason'')\<rparr>"

theorem null_arguments_are_refused_witness:
  "invoke bag_ffi (ReaderNext 1 True) (no_logging, empty_state)
     = Some (Code (-1), no_logging, empty_state\<lparr>fs_last_error := ''rrd_reader_next failed: reason''\<rparr>)
   \<and> invoke bag_ffi (WriterClose 0) (no_logging, empty_state)
     = Some (Code (-1), no_logging,
         empty_state\<lparr>fs_last_error := ''rrd_writer_close called with a null writer handle''\<rparr>)
   \<and> invoke bag_ffi (ReaderTopicCount 0) (no_logging, empty_state) = Some (Count 0, no_logging, empty_state)"
  using null_arguments_are_refused [of "ReaderNext 1 True" bag_ffi "(no_logging, empty_state)"]
    null_arguments_are_refused [of "WriterClose 0" bag_ffi "(no_logging, empty_state)"]
    null_arguments_are_refused [of "ReaderTopicCount 0" bag_ffi "(no_logging, empty_state)"]
  by (simp add: bag_ffi_def)

section \<open>Statuses and reasons\<close>

text \<open>
  What a guarded call leaves: the state its body left, with a reason that starts with the
  call's name if it failed. \<open>kept\<close> is what every body keeps: the reason slot, and every
  handle but its own and the next free one.
\<close>

definition kept :: "handle option \<Rightarrow> ('e, 'd, 'u) ffi_state \<Rightarrow> ('e, 'd, 'u) ffi_state \<Rightarrow> bool" where
  "kept own st st' \<longleftrightarrow>
     fs_last_error st' = fs_last_error st
     \<and> (\<forall>h. own \<noteq> Some h \<longrightarrow> h \<noteq> fs_next st \<longrightarrow>
          fs_writers st' h = fs_writers st h \<and> fs_readers st' h = fs_readers st h)"

definition reported ::
  "string \<Rightarrow> handle option \<Rightarrow> ('e, 'd, 'u) ffi_state \<Rightarrow> i32 \<times> ('e, 'd, 'u) ffi_state \<Rightarrow> bool" where
  "reported name own st r \<longleftrightarrow>
     (\<exists>st1. kept own st st1
        \<and> (r = (0, st1) \<or> r = (1, st1) \<and> name = ''rrd_reader_next''
           \<or> (\<exists>reason. r = (-1, set_last_error (name @ '' '' @ reason) st1))))"

lemma kept_refl [simp]: "kept own st st"
  by (simp add: kept_def)

lemma kept_put [simp]:
  "kept (Some h) st (put_writer h w st)" "kept (Some h) st (put_reader h r st)"
  "kept None st ((put_writer (fs_next st) w st)\<lparr>fs_next := n\<rparr>)"
  "kept None st ((put_reader (fs_next st) r st)\<lparr>fs_next := n\<rparr>)"
  "kept (Some h) st (st\<lparr>fs_writers := (fs_writers st)(h := None)\<rparr>)"
  by (simp_all add: kept_def put_writer_def put_reader_def)

lemma failure_name: "\<exists>reason. failure env name e = name @ '' '' @ reason"
proof (cases e)
  case (Panicked reason)
  then show ?thesis by (intro exI [of _ "''panicked: '' @ reason"]) (simp add: failure_def)
qed (rule exI [of _ "''failed: '' @ fe_describe env e"], simp add: failure_def)+

lemma guard_reported:
  assumes "kept own st (snd outcome)"
  shows "reported name own st (status_only (guard env name outcome))"
proof (cases "fst outcome")
  case (Inl e)
  obtain reason where "failure env name e = name @ '' '' @ reason" using failure_name by blast
  with Inl assms show ?thesis
    by (cases outcome) (auto simp: reported_def guard_def)
qed (use assms in \<open>cases outcome; auto simp: reported_def guard_def\<close>)

lemma and_then_kept:
  "(\<And>x. r = Inr x \<Longrightarrow> kept own st (snd (k x))) \<Longrightarrow> kept own st (snd (and_then r k st))"
  by (cases r) simp_all

lemma on_reader_kept: "kept (Some h) st (snd (on_reader h method st))"
  unfolding on_reader_def by (rule and_then_kept) (simp split: prod.split)

lemma kept_if: "kept own st (snd x) \<Longrightarrow> kept own st (snd y) \<Longrightarrow> kept own st (snd (if b then x else y))"
  by simp

lemmas kept_bodies = guard_reported kept_if and_then_kept on_reader_kept

lemma writer_open_kept:
  assumes "rrd_writer_open env path profile yaml null reads st = Some r"
  shows "reported ''rrd_writer_open'' None st (status_only r)"
proof -
  have "reported ''rrd_writer_open'' None st
      (status_only (guard env ''rrd_writer_open'' (and_then opened (\<lambda>w.
         (Inr (fs_next st), (put_writer (fs_next st) w st)\<lparr>fs_next := Suc (fs_next st)\<rparr>)) st)))" for opened
    by (intro kept_bodies) simp
  moreover have "reported ''rrd_writer_open'' None st
      (status_only (guard env ''rrd_writer_open'' (Inl e :: handle result, st)))" for e
    by (rule guard_reported) simp
  ultimately show ?thesis
    using assms by (auto simp del: guard_refuses simp: rrd_writer_open_def split: if_splits option.splits)
qed

lemma writer_close_kept: "reported ''rrd_writer_close'' (Some h) st (status_only (rrd_writer_close env h st))"
proof (cases "h = 0")
  case True
  then show ?thesis
    by (auto simp: rrd_writer_close_def reported_def
        intro!: exI [of _ st] exI [of _ "''called with a null writer handle''"])
next
  case False
  let ?st = "st\<lparr>fs_writers := (fs_writers st)(h := None)\<rparr>"
  obtain r out where close: "writer_close (fe_writer env) (the (fs_writers st h)) = (r, out)" by fastforce
  have "status_only (rrd_writer_close env h st) = status_only (guard env ''rrd_writer_close'' (r, ?st))"
    using False close by (simp add: rrd_writer_close_def split: prod.split)
  moreover have "reported ''rrd_writer_close'' (Some h) st (status_only (guard env ''rrd_writer_close'' (r, ?st)))"
    by (rule guard_reported) simp
  ultimately show ?thesis by simp
qed

lemma reader_next_kept:
  "reported ''rrd_reader_next'' (Some h) st (status_only (rrd_reader_next env h null st))"
proof -
  let ?outcome = "if null then (Inl (NullPointer ''out_message''), st) else on_reader h read_next_borrowed st"
  have kept: "kept (Some h) st (snd ?outcome)" by (simp add: on_reader_kept)
  show ?thesis
  proof (cases "fst ?outcome")
    case (Inl e)
    then have "status_only (rrd_reader_next env h null st) = status_only (guard env ''rrd_reader_next'' ?outcome)"
      by (cases ?outcome) (simp add: rrd_reader_next_def guard_def)
    then show ?thesis using guard_reported [OF kept] by simp
  next
    case (Inr m)
    then have "status_only (rrd_reader_next env h null st) = (if m = None then 0 else 1, snd ?outcome)"
      by (cases ?outcome) (auto simp: rrd_reader_next_def guard_def split: option.split)
    then show ?thesis using kept by (auto simp: reported_def)
  qed
qed

lemma writer_calls_kept:
  "reported ''rrd_writer_create_topic'' (Some h) st
     (status_only (rrd_writer_create_topic env h t n e s q x null st))"
  "reported ''rrd_writer_write'' (Some h) st (status_only (rrd_writer_write env h i cdr recv send st))"
  "reported ''rrd_writer_remove_topic'' (Some h) st (status_only (rrd_writer_remove_topic env h t st))"
  "reported ''rrd_writer_set_metadata'' (Some h) st (status_only (rrd_writer_set_metadata env h t st))"
  unfolding rrd_writer_create_topic_def rrd_writer_write_def rrd_writer_remove_topic_def
    rrd_writer_set_metadata_def
  by ((intro kept_bodies; simp split: prod.split)+)

lemma reader_calls_kept:
  "reported ''rrd_reader_open'' None st (status_only (rrd_reader_open env path null st))"
  "reported ''rrd_reader_topic'' (Some h) st (status_only (rrd_reader_topic env h i null st))"
  "reported ''rrd_reader_metadata'' (Some h) st (status_only (rrd_reader_metadata env h null st))"
  "reported ''rrd_reader_recording_id'' (Some h) st (status_only (rrd_reader_recording_id env h null st))"
  "reported ''rrd_reader_time_range'' (Some h) st (status_only (rrd_reader_time_range env h null st))"
  "reported ''rrd_reader_set_filter'' (Some h) st (status_only (rrd_reader_set_filter env h path st))"
  "reported ''rrd_reader_set_reverse'' (Some h) st (status_only (rrd_reader_set_reverse env h r st))"
  "reported ''rrd_reader_seek'' (Some h) st (status_only (rrd_reader_seek env h at st))"
  unfolding rrd_reader_open_def rrd_reader_topic_def rrd_reader_metadata_def
    rrd_reader_recording_id_def rrd_reader_time_range_def rrd_reader_set_filter_def
    rrd_reader_set_reverse_def rrd_reader_seek_def
  by ((intro kept_bodies; simp split: prod.split option.split)+)

lemma log_callback_kept:
  "rrd_set_log_callback env c (lg, st) = (status, lg', st')
     \<Longrightarrow> reported ''rrd_set_log_callback'' None st (status, st')"
  using guard_reported [where outcome = "(Inl (NullPointer ''log callback'') :: unit result, st)" and own = None
      and name = "''rrd_set_log_callback''"]
  by (cases c) (auto simp: rrd_set_log_callback_def reported_def failure_def)

lemma invoke_handle_reported:
  assumes "invoke_handle env call st = Some r"
  shows "reported (call_name call) (call_handle call) st r"
  using assms writer_calls_kept reader_calls_kept reader_next_kept writer_close_kept
  by (cases call) (auto dest: writer_open_kept)

text \<open>The calls that return a status, and those that do not, one by one.\<close>

lemma invoke_status:
  assumes "invoke env call (lg, st) = Some (Code status, lg', st')"
  shows "reported (call_name call) (call_handle call) st (status, st')"
    and "lg' = lg \<or> (\<exists>c. call = SetLogCallback c)"
proof -
  show "reported (call_name call) (call_handle call) st (status, st')"
    using assms log_callback_kept [of env _ lg st status lg' st']
    by (cases call) (auto simp del: invoke_handle.simps dest: invoke_handle_reported split: prod.splits)
  show "lg' = lg \<or> (\<exists>c. call = SetLogCallback c)" using assms by (cases call) (auto split: prod.splits)
qed

lemma invoke_count:
  assumes "invoke env call (lg, st) = Some (Count n, lg', st')"
  shows "lg' = lg \<and> (st' = st \<and> (\<forall>h. call = ReaderTopicCount h \<longrightarrow> n = rrd_reader_topic_count h st)
    \<or> st' = st\<lparr>fs_last_error := []\<rparr> \<and> call_name call = ''rrd_last_error'')"
  using assms by (cases call) (auto simp: rrd_last_error_def Let_def split: prod.splits option.splits if_splits)

lemma invoke_void:
  "invoke env call (lg, st) = Some (Void, lg', st')
     \<Longrightarrow> \<exists>h. call = ReaderClose h \<and> lg' = lg \<and> st' = rrd_reader_close h st"
  by (cases call) (auto split: prod.splits)

text \<open>
  C35: every entry point reports in the same way and stays on its handle. A status is 0, -1,
  or 1 from \<open>rrd_reader_next\<close>; a failure leaves a reason that starts with the name of the call
  that failed, so it cannot be taken for another's, and a call that does not fail leaves the
  slot alone. Of the calls without a status, \<open>rrd_reader_topic_count\<close> changes nothing,
  \<open>rrd_last_error\<close> at most empties the slot and \<open>rrd_reader_close\<close> leaves it alone. Whatever
  happens, no other writer and no other reader is touched, and only \<open>rrd_set_log_callback\<close>
  touches the logging.
\<close>

theorem calls_report_and_stay_on_their_handle:
  assumes "invoke env call (lg, st) = Some (answer, lg', st')"
  shows "(case answer of
      Code status \<Rightarrow>
        status \<in> {0, -1} \<union> (if call_name call = ''rrd_reader_next'' then {1} else {})
        \<and> (if status = -1 then \<exists>reason. fs_last_error st' = call_name call @ '' '' @ reason
           else fs_last_error st' = fs_last_error st)
    | Count n \<Rightarrow>
        st' = st\<lparr>fs_last_error := fs_last_error st'\<rparr>
        \<and> fs_last_error st' \<in> {fs_last_error st} \<union> (if call_name call = ''rrd_last_error'' then {[]} else {})
    | Void \<Rightarrow> call_name call = ''rrd_reader_close'' \<and> fs_last_error st' = fs_last_error st)
    \<and> (call_handle call \<noteq> Some h \<and> h \<noteq> fs_next st \<longrightarrow>
         fs_writers st' h = fs_writers st h \<and> fs_readers st' h = fs_readers st h)
    \<and> (call_name call \<noteq> ''rrd_set_log_callback'' \<longrightarrow> lg' = lg)"
proof (cases answer)
  case (Code status)
  show ?thesis
    using invoke_status [of env call lg st status lg' st'] assms
    by (auto simp: Code reported_def kept_def set_last_error_def)
next
  case (Count n)
  then show ?thesis using invoke_count [of env call lg st n lg' st'] assms by auto
next
  case Void
  then show ?thesis using invoke_void [of env call lg st lg' st'] assms by (auto simp: rrd_reader_close_def)
qed

theorem calls_report_and_stay_on_their_handle_witness:
  "\<exists>status lg' st'. invoke bag_ffi (ReaderNext 0 False) (no_logging, empty_state) = Some (Code status, lg', st')
     \<and> status \<in> {0, -1, 1}
     \<and> (if status = -1 then \<exists>reason. fs_last_error st' = ''rrd_reader_next'' @ '' '' @ reason
        else fs_last_error st' = fs_last_error empty_state)
     \<and> fs_readers st' 5 = fs_readers empty_state 5"
proof -
  obtain status st' where
    call: "invoke bag_ffi (ReaderNext 0 False) (no_logging, empty_state) = Some (Code status, no_logging, st')"
    by simp
  from calls_report_and_stay_on_their_handle [OF call, of 5] call show ?thesis
    by (intro exI [of _ status] exI [of _ no_logging] exI [of _ st']) (auto simp: empty_state_def)
qed

section \<open>Handing out a reason\<close>

text \<open>
  C37: \<open>rrd_last_error\<close> never writes past the buffer, whatever the length of the reason. It
  returns a length below \<open>buf_len\<close>, puts exactly that many bytes of the reason followed by a
  NUL into the buffer, leaves the memory behind alone, and takes the reason out of the slot:
  asked again, it has nothing to say.
\<close>

theorem last_error_stays_in_the_buffer:
  assumes "rrd_last_error (Some mem) buf_len st = ((len, Some mem'), st')"
    and "0 < buf_len" "buf_len \<le> length mem"
  shows "len < buf_len \<and> length mem' = length mem
    \<and> take len mem' = take len (string_bytes (fs_last_error st)) \<and> len \<le> length (fs_last_error st)
    \<and> (length (fs_last_error st) < buf_len \<longrightarrow> len = length (fs_last_error st))
    \<and> mem' ! len = 0 \<and> drop (Suc len) mem' = drop (Suc len) mem
    \<and> fs_last_error st' = [] \<and> rrd_last_error (Some mem') buf_len st' = ((0, Some (0 # drop 1 mem')), st')"
proof -
  let ?message = "string_bytes (fs_last_error st)"
  have len: "len = min (length ?message) (buf_len - 1)"
    and mem': "mem' = take len ?message @ [0] @ drop (len + 1) mem" and st': "st' = st\<lparr>fs_last_error := []\<rparr>"
    using assms(1,2) by (auto simp: rrd_last_error_def Let_def)
  have taken: "length (take len ?message) = len" using len by simp
  have again: "rrd_last_error (Some mem') buf_len st' = ((0, Some (0 # drop 1 mem')), st')"
    using assms(2) by (simp add: st' rrd_last_error_def string_bytes_def)
  have "len < length mem" using len assms(2,3) by simp
  then show ?thesis
    unfolding again
    using len assms(2) taken by (auto simp: mem' st' nth_append string_bytes_def drop_Suc)
qed

theorem last_error_stays_in_the_buffer_witness:
  "let r = rrd_last_error (Some [9, 9, 9, 9, 9]) 4 empty_state
   in fst (fst r) = 3 \<and> snd (fst r) = Some (string_bytes ''sta'' @ [0, 9]) \<and> fs_last_error (snd r) = []"
proof -
  have eval: "rrd_last_error (Some [9, 9, 9, 9, 9]) 4 empty_state
      = ((3, Some (string_bytes ''sta'' @ [0, 9])), empty_state\<lparr>fs_last_error := []\<rparr>)"
    by (simp add: rrd_last_error_def empty_state_def string_bytes_def Let_def numeral_eq_Suc)
  from last_error_stays_in_the_buffer [OF eval] eval show ?thesis by (simp add: Let_def)
qed

section \<open>Filters\<close>

text \<open>
  C38: a filter crosses the boundary unchanged. Topic names that are not empty and hold no
  line feed, joined by line feeds as the C++ side joins them, arrive as exactly that list
  in the reader's \<open>set_filter\<close>; an empty text clears the filter.
\<close>

theorem filter_crosses_the_boundary:
  assumes "list_all (\<lambda>w. w \<noteq> [] \<and> CHR 0x0A \<notin> set w) names"
    and "names_text = join_with [CHR 0x0A] names" "utf8_decode (map of_char names_text) \<noteq> None"
    and "length names_text \<le> len" "0 < h" "fs_readers st h = Some (renv, rd)"
  shows "rrd_reader_set_filter env h (Some (string_bytes names_text), len) st =
    guard env ''rrd_reader_set_filter''
      (fst (set_filter renv names rd), put_reader h (renv, snd (set_filter renv names rd)) st)"
proof -
  have "take len (string_bytes names_text) = string_bytes names_text"
    using assms(4) by (simp add: string_bytes_def)
  then have text_of: "text_of (Some (string_bytes names_text), len) = Inr names_text"
    using from_utf8_string [OF assms(3)] by (simp add: text_of_def raw_bytes_def)
  have "filter_names names_text = names"
  proof (cases "names = []")
    case False
    then have "split_on (CHR 0x0A) names_text = names"
      unfolding assms(2) using assms(1) by (intro split_on_join) (auto simp: list_all_iff)
    then show ?thesis using assms(1) by (simp add: filter_names_def list_all_iff)
  qed (simp add: assms(2) filter_names_def)
  then show ?thesis
    using text_of assms(5,6)
    by (simp add: rrd_reader_set_filter_def on_reader_def reader_at_def split: prod.split)
qed

definition bag_state :: "(nat, bytes, unit) ffi_state" where
  "bag_state = empty_state\<lparr>fs_readers := [2 \<mapsto> (bag_env True, bag_reader True)], fs_next := 3\<rparr>"

lemma bag_state_reader: "fs_readers bag_state 2 = Some (bag_env True, bag_reader True)"
  by (simp add: bag_state_def)

theorem filter_crosses_the_boundary_witness:
  "rrd_reader_set_filter bag_ffi 2 (Some (string_bytes (join_with [CHR 0x0A] [''/a'', ''/b''])), 5) bag_state =
    guard bag_ffi ''rrd_reader_set_filter''
      (fst (set_filter (bag_env True) [''/a'', ''/b''] (bag_reader True)),
       put_reader 2 (bag_env True, snd (set_filter (bag_env True) [''/a'', ''/b''] (bag_reader True))) bag_state)"
  by (rule filter_crosses_the_boundary [OF _ refl _ _ _ bag_state_reader]) simp_all

section \<open>The reading loop\<close>

text \<open>The calls of the plugin's read loop: \<open>rrd_reader_next\<close>, \<open>n\<close> times.\<close>

fun next_times ::
  "nat \<Rightarrow> ('e, 'd, 'u) ffi_env \<Rightarrow> handle \<Rightarrow> ('e, 'd, 'u) ffi_state \<Rightarrow> (i32 \<times> rrd_message option) list"
where
  "next_times 0 env h st = []"
| "next_times (Suc n) env h st =
     (case rrd_reader_next env h False st of (r, st) \<Rightarrow> r # next_times n env h st)"

definition exported :: "message \<Rightarrow> rrd_message" where
  "exported m =
     \<lparr>rm_topic = msg_topic_name m, rm_data = msg_data m,
      rm_recv_timestamp_ns = msg_recv_timestamp m, rm_send_timestamp_ns = msg_send_timestamp m\<rparr>"

lemma reader_next_step:
  assumes "fs_readers st h = Some (renv, rd)" "0 < h" "read_next renv rd = (Inr m, rd')"
  shows "rrd_reader_next env h False st =
    ((if m = None then 0 else 1, map_option exported m), put_reader h (renv, rd'\<lparr>rd_last_message := m\<rparr>) st)"
  using assms
  by (cases m)
    (simp_all add: rrd_reader_next_def on_reader_def reader_at_def read_next_borrowed_def guard_def exported_def)

lemma next_times_drains:
  assumes "deliverable renv rd" "drain renv rd = Inr ms" "fs_readers st h = Some (renv, rd)" "0 < h"
  shows "next_times (Suc (length ms)) env h st = map (\<lambda>m. (1, Some (exported m))) ms @ [(0, None)]"
  using assms(1-3)
proof (induction ms arbitrary: rd st)
  case Nil
  then obtain rd' where "read_next renv rd = (Inr None, rd')"
    by (auto simp: drain.simps [of renv rd] split: prod.splits sum.splits option.splits)
  from reader_next_step [OF Nil.prems(3) assms(4) this] show ?case by simp
next
  case (Cons m ms)
  then obtain rd' where rd': "read_next renv rd = (Inr (Some m), rd')" "drain renv rd' = Inr ms"
    by (auto simp: drain.simps [of renv rd] split: prod.splits sum.splits option.splits)
  let ?rd = "rd'\<lparr>rd_last_message := Some m\<rparr>"
  have ok: "deliverable renv rd'" by (rule deliverable_read [OF Cons.prems(1) rd'(1)])
  then have "deliverable renv ?rd" by (simp add: deliverable_def)
  moreover have "drain renv ?rd = Inr ms" using borrow_drain [OF ok] rd'(2) by simp
  ultimately have "next_times (Suc (length ms)) env h (put_reader h (renv, ?rd) st)
      = map (\<lambda>m. (1, Some (exported m))) ms @ [(0, None)]"
    by (rule Cons.IH) (simp add: put_reader_def)
  then show ?case
    using reader_next_step [OF Cons.prems(3) assms(4) rd'(1)] by simp
qed

text \<open>
  C19: the plugin's read loop replays the recording. On a handle whose reader is in a pass,
  calling \<open>rrd_reader_next\<close> until it returns 0 returns 1 with each message that is left,
  exactly once, in playback order, and then 0: keeping the last message alive for the caller
  changes nothing about what comes next.
\<close>

theorem read_loop_replays:
  assumes "in_pass renv rd" "mset rs = wanted_rows (wanted rd) (to_deliver renv rd)" "replayable_rows rs"
    and "fs_readers st h = Some (renv, rd)" "0 < h"
  shows "next_times (Suc (length rs)) env h st =
    map (\<lambda>m. (1, Some (exported m))) (messages_of rd rs) @ [(0, None)]"
proof -
  have "length (messages_of rd rs) = length rs"
    by (simp add: messages_of_def) (metis mset_playback_order size_mset)
  moreover have "deliverable renv rd" using assms(1-3) by (auto simp: deliverable_def)
  ultimately show ?thesis
    using next_times_drains [OF _ drain_pass [OF assms(1-3)] assms(4,5)] by simp
qed

theorem read_loop_replays_witness:
  "\<exists>rs. mset rs = wanted_rows (wanted (bag_reader True)) (to_deliver (bag_env True) (bag_reader True))
     \<and> next_times (Suc (length rs)) bag_ffi 2 bag_state =
         map (\<lambda>m. (1, Some (exported m))) (messages_of (bag_reader True) rs) @ [(0, None)]"
proof -
  have rows: "mset (played (bag_env True) (bag_reader True))
      = wanted_rows (wanted (bag_reader True)) (to_deliver (bag_env True) (bag_reader True))"
    using open_pass [OF bag_opens bag_true] by simp
  from read_loop_replays [OF bag_pass(2) rows bag_played_replayable bag_state_reader] rows show ?thesis
    by (intro exI [of _ "played (bag_env True) (bag_reader True)"]) simp
qed

end
