(* ===== verification/Ledger.thy ===== *)
theory Ledger
  imports Live Stored Sample_Writer
begin

text \<open>
  What a session records. The ledger is the abstract state of a bag being written: which
  topics were declared, which are still recorded, and every message accepted so far with its
  slot and sequence number. The writer refines it: between the file and the buffers of its
  topics it accounts for every message of the ledger, and closing leaves all in the file.
\<close>

section \<open>The ledger\<close>

record ledger =
  lg_names :: "string \<Rightarrow> usize option"
  lg_slots :: "(topic_record \<times> bool) list"
  lg_messages :: "(usize \<times> incoming) list"
  lg_writes :: nat
  lg_metadata :: "string option"

definition no_ledger :: ledger where
  "no_ledger = \<lparr>lg_names = (\<lambda>_. None), lg_slots = [], lg_messages = [], lg_writes = 0,
                lg_metadata = None\<rparr>"

text \<open>
  A slot has the record of its topic and whether it is still recorded; a write to a slot that
  is, and only that, adds a message.
\<close>

definition entered :: "command \<Rightarrow> ledger \<Rightarrow> ledger" where
  "entered c l =
     (case c of
        CreateTopic r \<Rightarrow>
          (if lg_names l (rec_topic r) \<noteq> None then l
           else l\<lparr>lg_names := (lg_names l)(rec_topic r \<mapsto> length (lg_slots l)),
                  lg_slots := lg_slots l @ [(r, True)]\<rparr>)
      | WriteMessage i cdr recv send \<Rightarrow>
          l\<lparr>lg_writes := Suc (lg_writes l),
            lg_messages := lg_messages l @
              (if i < length (lg_slots l) \<and> snd (lg_slots l ! i)
               then [(i, \<lparr>in_cdr = cdr, in_recv = recv, in_send = send,
                          in_sequence = int (lg_writes l)\<rparr>)]
               else [])\<rparr>
      | RemoveTopic name \<Rightarrow>
          (case lg_names l name of
             None \<Rightarrow> l
           | Some i \<Rightarrow> l\<lparr>lg_names := (lg_names l)(name := None),
                         lg_slots := (lg_slots l)[i := (fst (lg_slots l ! i), False)]\<rparr>)
      | SetMetadata yaml \<Rightarrow> l\<lparr>lg_metadata := Some yaml\<rparr>)"

definition messages_to :: "usize \<Rightarrow> ledger \<Rightarrow> incoming list" where
  "messages_to i l = map snd (filter (\<lambda>x. fst x = i) (lg_messages l))"

text \<open>What the file was sent: the static chunk of a topic, or rows flushed out of a slot.\<close>

datatype entry = Declared topic_record | Flushed usize "(incoming \<times> bool) list"

fun flushed_from :: "usize \<Rightarrow> entry \<Rightarrow> incoming list" where
  "flushed_from i (Declared r) = []"
| "flushed_from i (Flushed j mds) = (if j = i then map fst mds else [])"

definition flushed :: "usize \<Rightarrow> entry list \<Rightarrow> incoming list" where
  "flushed i es = concat (map (flushed_from i) es)"

lemma flushed_simps [simp]:
  "flushed i [] = []" "flushed i (e # es) = flushed_from i e @ flushed i es"
  "flushed i (es @ fs) = flushed i es @ flushed i fs"
  by (simp_all add: flushed_def)

text \<open>
  The topics declared so far, and the order of a file: the rows of a slot come after the
  declaration of its topic, the \<open>k\<close> topics counted before the entries included.
\<close>

fun declared_in :: "entry \<Rightarrow> topic_record list" where
  "declared_in (Declared r) = [r]"
| "declared_in (Flushed i mds) = []"

definition declarations :: "entry list \<Rightarrow> topic_record list" where
  "declarations es = concat (map declared_in es)"

fun in_turn :: "nat \<Rightarrow> entry list \<Rightarrow> bool" where
  "in_turn k [] = True"
| "in_turn k (Declared r # es) = in_turn (Suc k) es"
| "in_turn k (Flushed i mds # es) = (i < k \<and> in_turn k es)"

lemma declarations_simps [simp]:
  "declarations [] = []" "declarations (e # es) = declared_in e @ declarations es"
  "declarations (es @ fs) = declarations es @ declarations fs"
  by (simp_all add: declarations_def)

lemma declarations_flushed [simp]: "declarations (map (Flushed i) mdss) = []"
  by (induction mdss) simp_all

lemma in_turn_append: "in_turn k (es @ fs) \<longleftrightarrow> in_turn k es \<and> in_turn (k + length (declarations es)) fs"
proof (induction es arbitrary: k)
  case (Cons e es)
  then show ?case by (cases e) simp_all
qed simp

lemma in_turn_flushed: "i < k \<Longrightarrow> in_turn k (map (Flushed i) mdss)"
  by (induction mdss) simp_all

lemma declarations_in: "set (declarations es) \<subseteq> {r. Declared r \<in> set es}"
proof (induction es)
  case (Cons e es)
  then show ?case by (cases e) auto
qed simp

section \<open>What the libraries mean\<close>

text \<open>The reading of the decoder and the arrays under which the libraries are lawful for every plan.\<close>

record ('d, 'v) meaning =
  me_held :: "plan \<Rightarrow> 'd \<Rightarrow> 'v list \<Rightarrow> bool"
  me_val :: "plan \<Rightarrow> bytes \<Rightarrow> 'v"
  me_rows :: "list_array \<Rightarrow> 'v option list"

definition faithful :: "('e, 'd, 'u) writer_env \<Rightarrow> ('d, 'v) meaning \<Rightarrow> bool" where
  "faithful env M \<longleftrightarrow>
     (\<forall>plan. lawful (we_pipeline env) plan (me_held M plan) (me_val M plan) (me_rows M))"

text \<open>No decoder breaks at the message, or raw copies are kept, so that it takes no rows with it.\<close>

definition lossless :: "('e, 'd, 'u) writer_env \<Rightarrow> representations \<Rightarrow> bytes \<Rightarrow> bool" where
  "lossless env asked cdr \<longleftrightarrow>
     Raw \<in> asked \<or> (\<forall>d. fst (pe_decode (we_pipeline env) d cdr) \<noteq> Unrecoverable)"

fun lossless_call :: "('e, 'd, 'u) writer_env \<Rightarrow> representations \<Rightarrow> command \<Rightarrow> bool" where
  "lossless_call env asked (WriteMessage i cdr recv send) = lossless env asked cdr"
| "lossless_call env asked c = True"

definition plan_of :: "(string \<Rightarrow> string \<Rightarrow> plan option) \<Rightarrow> topic_record \<Rightarrow> plan" where
  "plan_of make_plan r = the (make_plan (rec_type_name r) (the (from_utf8 (rec_schema_text r))))"

abbreviation topic_plan :: "('e, 'd, 'u) writer_env \<Rightarrow> topic_record \<Rightarrow> plan" where
  "topic_plan env r \<equiv> plan_of (pe_plan (we_pipeline env)) r"

abbreviation topic_columns :: "('e, 'd, 'u) writer_env \<Rightarrow> topic_record \<Rightarrow> columns" where
  "topic_columns env r \<equiv> columns_for_type (pe_archetype_ok (we_pipeline env)) (rec_type_name r)"

lemma new_pipeline_plan:
  "follows_plan (plan_of (pe_plan env) r)
     (new_pipeline env entity asked (rec_type_name r) enc (rec_schema_text r) lenses)"
  by (auto simp: follows_plan_def plan_of_def new_pipeline_def new_reflection_def Let_def
      split: if_splits option.splits sum.splits)

text \<open>A definition that can be reflected, as the reader will find it again.\<close>

definition reflectable :: "(string \<Rightarrow> string \<Rightarrow> plan option) \<Rightarrow> topic_record \<Rightarrow> bool" where
  "reflectable make_plan r =
     (case from_utf8 (rec_schema_text r) of
        None \<Rightarrow> False
      | Some text \<Rightarrow> \<not> blank text \<and> make_plan (rec_type_name r) text \<noteq> None)"

lemma new_pipeline_reflectable:
  "pl_reflection (new_pipeline env entity asked (rec_type_name r) enc (rec_schema_text r) lenses) \<noteq> None \<Longrightarrow>
     reflectable (pe_plan env) r"
  by (auto simp: reflectable_def new_pipeline_def new_reflection_def Let_def
      split: if_splits option.splits sum.splits)

section \<open>One topic\<close>

text \<open>A chunk of messages of a topic, and a topic that holds some.\<close>

definition chunk_of_topic ::
  "('e, 'd, 'u) writer_env \<Rightarrow> ('d, 'v) meaning \<Rightarrow> representations \<Rightarrow> topic_record
   \<Rightarrow> (incoming \<times> bool) list \<Rightarrow> 'e chunk \<Rightarrow> bool" where
  "chunk_of_topic env M asked r mds c \<longleftrightarrow>
     mds \<noteq> [] \<and> ch_entity c = we_entity env (rec_topic r)
     \<and> (\<forall>md \<in> set mds. snd md \<longrightarrow> reflectable (pe_plan (we_pipeline env)) r)
     \<and> message_chunk (me_rows M) (me_val M (topic_plan env r)) (Raw \<in> asked) (topic_columns env r) c mds"

definition topic_holds ::
  "('e, 'd, 'u) writer_env \<Rightarrow> ('d, 'v) meaning \<Rightarrow> representations \<Rightarrow> topic_record
   \<Rightarrow> ('e, 'd) topic \<Rightarrow> incoming list \<Rightarrow> bool" where
  "topic_holds env M asked r t ms \<longleftrightarrow>
     (let p = tp_pipeline t; plan = topic_plan env r
      in holds (me_held M plan) (me_val M plan) p ms \<and> describes (topic_columns env r) p
         \<and> pl_entity p = we_entity env (rec_topic r) \<and> pl_keep_raw p = (Raw \<in> asked)
         \<and> pl_lenses p = None
         \<and> (pl_reflection p \<noteq> None \<longrightarrow> reflectable (pe_plan (we_pipeline env)) r))"

text \<open>
  What a topic operation sent to the file: chunks that hold the messages that left the
  buffer, in order.
\<close>

definition sends ::
  "('e, 'd, 'u) writer_env \<Rightarrow> ('d, 'v) meaning \<Rightarrow> representations \<Rightarrow> topic_record
   \<Rightarrow> 'e outside \<Rightarrow> 'e outside \<Rightarrow> incoming list \<Rightarrow> bool" where
  "sends env M asked r out out' ms \<longleftrightarrow>
     (\<exists>cs mdss. os_file out' = os_file out @ map SentChunk cs
        \<and> list_all2 (chunk_of_topic env M asked r) mdss cs \<and> map fst (concat mdss) = ms)"

lemma sends_nothing: "os_file out' = os_file out \<Longrightarrow> sends env M asked r out out' []"
  unfolding sends_def by (rule exI [of _ "[]"], rule exI [of _ "[]"]) simp

lemma sends_one:
  "os_file out' = os_file out @ [SentChunk c] \<Longrightarrow> chunk_of_topic env M asked r mds c \<Longrightarrow>
     map fst mds = ms \<Longrightarrow> sends env M asked r out out' ms"
  unfolding sends_def by (rule exI [of _ "[c]"], rule exI [of _ "[mds]"]) simp

lemma sends_from: "os_file out1 = os_file out \<Longrightarrow> sends env M asked r out1 out' ms \<Longrightarrow> sends env M asked r out out' ms"
  by (simp add: sends_def)

lemma fold_send_file: "os_file (fold send_chunk cs out) = os_file out @ map SentChunk cs"
  by (induction cs arbitrary: out) (simp_all add: send_chunk_def Let_def split: option.split)

lemma read_clock_file: "read_clock env out = (now, out') \<Longrightarrow> os_file out' = os_file out"
  by (auto simp: read_clock_def)

lemma drained_describes:
  assumes "drained p p'" "describes cols p"
  shows "describes cols p'"
proof -
  have same: "map_option rf_descriptor (pl_reflection p') = map_option rf_descriptor (pl_reflection p)"
    using assms(1) by (simp add: drained_def)
  have "col_reflected cols = Some (rf_descriptor rf)" if "pl_reflection p' = Some rf" for rf
    using that same assms(2) by (cases "pl_reflection p") (simp_all add: describes_def)
  then show ?thesis using assms(2) by (simp add: describes_def)
qed

lemma flush_sends:
  assumes "faithful env M" "topic_holds env M asked r t ms" "length ms < 2 ^ 32"
  obtains t' out' where "topic_flush env t out = (Inr (), t', out')" "topic_holds env M asked r t' []"
    "tp_retired t' = tp_retired t" "sends env M asked r out out' ms"
proof -
  let ?p = "tp_pipeline t" and ?plan = "topic_plan env r"
  obtain now out1 where now: "read_clock env out = (now, out1)" by fastforce
  have holds: "holds (me_held M ?plan) (me_val M ?plan) ?p ms" "describes (topic_columns env r) ?p"
    "pl_entity ?p = we_entity env (rec_topic r)" "pl_keep_raw ?p = (Raw \<in> asked)" "pl_lenses ?p = None"
    "pl_reflection ?p \<noteq> None \<longrightarrow> reflectable (pe_plan (we_pipeline env)) r"
    using assms(2) by (simp_all add: topic_holds_def Let_def)
  show thesis
  proof (cases "ms = []")
    case True
    then have "pipeline_flush (we_pipeline env) ?p = (Inr [], ?p)"
      using holds_length [OF holds(1)] take_idle [of ?p "we_pipeline env"]
      by (simp add: pipeline_flush_def)
    then show thesis
      using that [of "t\<lparr>tp_last_flush := now\<rparr>"
          "log_events (pl_entity ?p) (flush_events (we_pipeline env) ?p) out1"] now assms(2) True read_clock_file [OF now]
      by (simp add: topic_flush_def topic_holds_def Let_def sends_nothing)
  next
    case False
    have law: "lawful (we_pipeline env) ?plan (me_held M ?plan) (me_val M ?plan) (me_rows M)"
      using assms(1) by (simp add: faithful_def)
    obtain c p' where c: "pipeline_flush (we_pipeline env) ?p = (Inr [c], p')" "ch_entity c = pl_entity ?p"
      "message_chunk (me_rows M) (me_val M ?plan) (pl_keep_raw ?p) (topic_columns env r) c (forms ?p ms)"
      "drained ?p p'" "holds (me_held M ?plan) (me_val M ?plan) p' []"
      using flush_one_chunk [OF law holds(1,2) False assms(3) holds(5)] by blast
    let ?t = "t\<lparr>tp_last_flush := now, tp_pipeline := p'\<rparr>"
    let ?out = "log_events (pl_entity ?p) (flush_events (we_pipeline env) ?p) out1"
    have "describes (topic_columns env r) p'"
      by (rule drained_describes [OF c(4) holds(2)])
    then have kept: "topic_holds env M asked r ?t []"
      using holds c(4,5) by (auto simp: topic_holds_def drained_def Let_def)
    have flush: "topic_flush env t out = (Inr (), ?t, send_chunk c ?out)"
      by (simp add: topic_flush_def Let_def now c(1))
    have forms: "map fst (forms ?p ms) = ms" "forms ?p ms \<noteq> []"
      using forms_fst [OF holds(1)] False by auto
    have "os_file (send_chunk c ?out) = os_file out @ [SentChunk c]"
      using fold_send_file [of "[c]" ?out] read_clock_file [OF now] by simp
    moreover have "chunk_of_topic env M asked r (forms ?p ms) c"
      using c(2,3) holds(3,4,6) forms(2) by (auto simp: chunk_of_topic_def forms_def split: if_splits)
    ultimately have sends: "sends env M asked r out (send_chunk c ?out) ms"
      using forms(1) by (rule sends_one)
    show thesis by (rule that [OF flush kept _ sends]) simp
  qed
qed

lemma push_topic_holds:
  assumes "faithful env M" "lossless env asked (in_cdr m)" "topic_holds env M asked r t ms"
  shows "topic_holds env M asked r
    (t\<lparr>tp_pipeline := push_message (we_pipeline env) m (tp_pipeline t)\<rparr>) (ms @ [m])"
proof -
  let ?p = "tp_pipeline t" and ?plan = "topic_plan env r"
  have law: "decodes_rows (we_pipeline env) ?plan (me_held M ?plan) (me_val M ?plan)"
    using assms(1) by (simp add: faithful_def lawful_def)
  have holds: "holds (me_held M ?plan) (me_val M ?plan) ?p ms" "describes (topic_columns env r) ?p"
    "pl_keep_raw ?p = (Raw \<in> asked)"
    using assms(3) by (simp_all add: topic_holds_def Let_def)
  have "after_push (we_pipeline env) ?p ms m = ms @ [m]"
    using assms(2) holds(3) by (auto simp: after_push_def breaks_def lossless_def split: option.split)
  then show ?thesis
    using push_holds [OF law holds(1), of m] push_describes [OF holds(2), of "we_pipeline env" m] assms(3)
      no_reflection_stays [of ?p "we_pipeline env" m]
    by (auto simp: topic_holds_def Let_def push_settings)
qed

lemma overdue_file: "overdue env t out = (b, out') \<Longrightarrow> os_file out' = os_file out"
  by (auto simp: overdue_def elapsed_def read_clock_def split: option.splits)

lemma should_flush_file: "should_flush env t out = (b, out') \<Longrightarrow> os_file out' = os_file out"
  by (auto simp: should_flush_def Let_def dest: overdue_file split: if_splits)

lemma stale_sends:
  assumes "faithful env M" "topic_holds env M asked r t ms" "length ms < 2 ^ 32"
  obtains t' out' ms1 ms2 where "flush_if_stale env t out = (Inr (), t', out')" "ms = ms1 @ ms2"
    "topic_holds env M asked r t' ms2" "tp_retired t' = tp_retired t" "sends env M asked r out out' ms1"
proof -
  obtain stale out1 where stale: "overdue env t out = (stale, out1)" by fastforce
  show thesis
  proof (cases "stale \<and> pipeline_len (tp_pipeline t) \<noteq> 0")
    case True
    obtain t' out' where f: "topic_flush env t out1 = (Inr (), t', out')" "topic_holds env M asked r t' []"
      "tp_retired t' = tp_retired t" "sends env M asked r out1 out' ms"
      using flush_sends [OF assms] by blast
    show thesis
      by (rule that [of t' out' ms "[]"])
        (use True stale f sends_from [OF overdue_file [OF stale] f(4)] in \<open>simp_all add: flush_if_stale_def\<close>)
  next
    case False
    show thesis
      by (rule that [of t out1 "[]" ms])
        (use False stale assms(2) overdue_file [OF stale] in
          \<open>auto simp: flush_if_stale_def sends_nothing\<close>)
  qed
qed

lemma write_sends:
  assumes "faithful env M" "lossless env asked cdr" "topic_holds env M asked r t ms"
    and "Suc (length ms) < 2 ^ 32" "\<not> tp_retired t"
    and "m = \<lparr>in_cdr = cdr, in_recv = recv, in_send = send, in_sequence = sequence\<rparr>"
  obtains t' out' ms1 ms2 where "topic_write env cdr recv send sequence t out = (Inr (), t', out')"
    "ms @ [m] = ms1 @ ms2" "topic_holds env M asked r t' ms2" "\<not> tp_retired t'"
    "sends env M asked r out out' ms1"
proof -
  let ?t = "t\<lparr>tp_pipeline := push_message (we_pipeline env) m (tp_pipeline t)\<rparr>"
  have holds: "topic_holds env M asked r ?t (ms @ [m])"
    using push_topic_holds [OF assms(1) _ assms(3), of m] assms(2) by (simp add: assms(6))
  let ?out = "log_events (pl_entity (tp_pipeline t)) (push_events (we_pipeline env) cdr (tp_pipeline t)) out"
  obtain due out1 where due: "should_flush env ?t ?out = (due, out1)" by fastforce
  have unsent: "os_file out1 = os_file out" using should_flush_file [OF due] by simp
  have written: "topic_write env cdr recv send sequence t out =
      (if due then topic_flush env ?t out1 else (Inr (), ?t, out1))"
    using assms(5) due by (simp add: topic_write_def Let_def assms(6) split: bool.split)
  show thesis
  proof (cases due)
    case True
    have "length (ms @ [m]) < 2 ^ 32" using assms(4) by simp
    from flush_sends [OF assms(1) holds this] obtain t' out' where
      f: "topic_flush env ?t out1 = (Inr (), t', out')" "topic_holds env M asked r t' []"
      "tp_retired t' = tp_retired ?t" "sends env M asked r out1 out' (ms @ [m])" by blast
    show thesis
      by (rule that [of t' out' "ms @ [m]" "[]"])
        (use True written f assms(5) sends_from [OF unsent f(4)] in \<open>simp_all\<close>)
  next
    case False
    show thesis
      by (rule that [of ?t out1 "[]" "ms @ [m]"])
        (use False written holds assms(5) unsent in \<open>auto simp: sends_nothing\<close>)
  qed
qed

section \<open>The books of a session\<close>

definition entry_sent ::
  "('e, 'd, 'u) writer_env \<Rightarrow> ('d, 'v) meaning \<Rightarrow> representations \<Rightarrow> topic_record list
   \<Rightarrow> entry \<Rightarrow> 'e sent \<Rightarrow> bool" where
  "entry_sent env M asked rs e s \<longleftrightarrow>
     (\<exists>c. s = SentChunk c \<and>
        (case e of
           Declared r \<Rightarrow> r \<in> set rs
             \<and> topic_statics_chunk (pe_chunk (we_pipeline env)) (we_entity env (rec_topic r)) r = Inr c
         | Flushed i mds \<Rightarrow> i < length rs \<and> chunk_of_topic env M asked (rs ! i) mds c))"

lemma entry_sent_more:
  "entry_sent env M asked rs e s \<Longrightarrow> entry_sent env M asked (rs @ rs') e s"
  by (cases e) (auto simp: entry_sent_def nth_append)

abbreviation slot_records :: "ledger \<Rightarrow> topic_record list" where
  "slot_records l \<equiv> map fst (lg_slots l)"

text \<open>
  What the file was sent and what the topics hold add up to the ledger: for every slot, the
  rows flushed out of it followed by those it still holds are its messages, in order. The
  topics were declared in the order of their slots, each before any of its rows.
\<close>

definition slot_ok ::
  "('e, 'd, 'u) writer_env \<Rightarrow> ('d, 'v) meaning \<Rightarrow> representations \<Rightarrow> ledger \<Rightarrow> entry list
   \<Rightarrow> usize \<Rightarrow> ('e, 'd) topic \<Rightarrow> bool" where
  "slot_ok env M asked l es i t \<longleftrightarrow>
     tp_retired t = (\<not> snd (lg_slots l ! i)) \<and> Declared (fst (lg_slots l ! i)) \<in> set es
     \<and> (\<exists>ms. topic_holds env M asked (fst (lg_slots l ! i)) t ms \<and> flushed i es @ ms = messages_to i l)"

definition books ::
  "('e, 'd, 'u) writer_env \<Rightarrow> ('d, 'v) meaning \<Rightarrow> representations \<Rightarrow> ledger
   \<Rightarrow> ('e, 'd) topic list \<Rightarrow> 'e outside \<Rightarrow> bool" where
  "books env M asked l ts out \<longleftrightarrow>
     length ts = length (lg_slots l)
     \<and> (\<exists>es. list_all2 (entry_sent env M asked (slot_records l)) es (os_file out)
          \<and> declarations es = slot_records l \<and> in_turn 0 es
          \<and> (\<forall>i < length ts. slot_ok env M asked l es i (ts ! i)))"

lemma flushed_elsewhere: "j \<noteq> i \<Longrightarrow> flushed j (map (Flushed i) mdss) = []"
  by (induction mdss) simp_all

lemma flushed_here: "flushed i (map (Flushed i) mdss) = map fst (concat mdss)"
  by (induction mdss) simp_all

text \<open>
  An operation on one topic keeps the books: the messages the topic held, and any that came
  in, have gone to the file or are held still.
\<close>

lemma books_replace:
  assumes "books env M asked l ts out" "i < length ts"
    and "slot_records l' = slot_records l" "\<And>j. j \<noteq> i \<Longrightarrow> lg_slots l' ! j = lg_slots l ! j"
    and "\<And>j. messages_to j l' = messages_to j l @ (if j = i then extra else [])"
    and "tp_retired t' = (\<not> snd (lg_slots l' ! i))"
    and op: "\<And>ms. topic_holds env M asked (fst (lg_slots l ! i)) (ts ! i) ms \<Longrightarrow>
      length ms \<le> length (messages_to i l) \<Longrightarrow>
      \<exists>ms1 ms2. ms @ extra = ms1 @ ms2 \<and> topic_holds env M asked (fst (lg_slots l ! i)) t' ms2
        \<and> sends env M asked (fst (lg_slots l ! i)) out out' ms1"
  shows "books env M asked l' (ts[i := t']) out'"
proof -
  obtain es where es: "list_all2 (entry_sent env M asked (slot_records l)) es (os_file out)"
    "\<And>j. j < length ts \<Longrightarrow> slot_ok env M asked l es j (ts ! j)"
    and order: "declarations es = slot_records l" "in_turn 0 es"
    and len: "length ts = length (lg_slots l)"
    using assms(1) by (auto simp: books_def)
  have len': "length (lg_slots l') = length (lg_slots l)" using assms(3) by (rule map_eq_imp_length_eq)
  have fst: "fst (lg_slots l' ! j) = fst (lg_slots l ! j)" if "j < length ts" for j
    using that len len' arg_cong [OF assms(3), of "\<lambda>rs. rs ! j"] by simp
  obtain ms where ms: "topic_holds env M asked (fst (lg_slots l ! i)) (ts ! i) ms"
    "flushed i es @ ms = messages_to i l" "Declared (fst (lg_slots l ! i)) \<in> set es"
    using es(2) [OF assms(2)] by (auto simp: slot_ok_def)
  from arg_cong [OF ms(2), of length] have "length ms \<le> length (messages_to i l)" by simp
  from op [OF ms(1) this] obtain ms1 ms2 where
    op: "ms @ extra = ms1 @ ms2" "topic_holds env M asked (fst (lg_slots l ! i)) t' ms2"
    "sends env M asked (fst (lg_slots l ! i)) out out' ms1" by blast
  obtain cs mdss where sent: "os_file out' = os_file out @ map SentChunk cs"
    "list_all2 (chunk_of_topic env M asked (fst (lg_slots l ! i))) mdss cs" "map fst (concat mdss) = ms1"
    using op(3) by (auto simp: sends_def)
  let ?es = "es @ map (Flushed i) mdss"
  have "list_all2 (entry_sent env M asked (slot_records l)) (map (Flushed i) mdss) (map SentChunk cs)"
    using sent(2) assms(2) len
    by (auto simp: list_all2_map1 list_all2_map2 entry_sent_def elim!: list_all2_mono)
  then have "list_all2 (entry_sent env M asked (slot_records l')) ?es (os_file out')"
    using es(1) sent(1) assms(3) by (simp add: list_all2_appendI)
  moreover have "slot_ok env M asked l' ?es j (ts[i := t'] ! j)" if j: "j < length ts" for j
  proof (cases "j = i")
    case True
    have "flushed i ?es @ ms2 = flushed i es @ ms @ extra"
      by (simp add: flushed_here sent(3) op(1) [symmetric])
    then have "flushed i ?es @ ms2 = messages_to i l'"
      using ms(2) assms(5) [of i] by (simp flip: append_assoc)
    then show ?thesis
      using True assms(2,6) op(2) ms(3) fst [OF assms(2)] by (auto simp: slot_ok_def)
  next
    case False
    then show ?thesis
      using es(2) [OF j] assms(4) [OF False] assms(5) [of j] by (auto simp: slot_ok_def flushed_elsewhere)
  qed
  moreover have "declarations ?es = slot_records l'" using order(1) assms(3) by simp
  moreover have "in_turn 0 ?es"
    using order assms(2) len by (simp add: in_turn_append in_turn_flushed)
  ultimately show ?thesis using len len' unfolding books_def by auto
qed

lemma books_file:
  assumes "os_file out' = os_file out" "books env M asked l ts out"
  shows "books env M asked l ts out'"
  using assms(2) unfolding books_def assms(1) .

lemma messages_to_length: "length (messages_to i l) \<le> length (lg_messages l)"
  by (simp add: messages_to_def)

lemma books_slot:
  assumes "books env M asked l ts out" "i < length ts"
  obtains ms where "topic_holds env M asked (fst (lg_slots l ! i)) (ts ! i) ms"
    "length ms \<le> length (lg_messages l)" "tp_retired (ts ! i) = (\<not> snd (lg_slots l ! i))"
proof -
  obtain es ms where "topic_holds env M asked (fst (lg_slots l ! i)) (ts ! i) ms"
    "flushed i es @ ms = messages_to i l" "tp_retired (ts ! i) = (\<not> snd (lg_slots l ! i))"
    using assms unfolding books_def slot_ok_def by blast
  moreover from arg_cong [OF this(2), of length] have "length ms \<le> length (lg_messages l)"
    using messages_to_length [of i l] by simp
  ultimately show thesis using that by blast
qed

lemma sweep_books:
  assumes "faithful env M" "length (lg_messages l) < 2 ^ 32"
  shows "books env M asked l (ps @ ts) out \<Longrightarrow> sweep_topics env ts out = (res, ts', out') \<Longrightarrow>
    res = Inr () \<and> books env M asked l (ps @ ts') out'"
proof (induction ts arbitrary: ps out ts' out' res)
  case (Cons t ts)
  let ?i = "length ps"
  have at: "(ps @ t # ts) ! ?i = t" "?i < length (ps @ t # ts)" by simp_all
  obtain r1 t1 out1 where t1: "flush_if_stale env t out = (r1, t1, out1)" using prod_cases3 by blast
  have op: "r1 = Inr () \<and> tp_retired t1 = tp_retired t \<and> (\<exists>ms1 ms2. ms = ms1 @ ms2
      \<and> topic_holds env M asked r t1 ms2 \<and> sends env M asked r out out1 ms1)"
    if "topic_holds env M asked r t ms" "length ms \<le> length (lg_messages l)" for r ms
  proof -
    have "length ms < 2 ^ 32" using that(2) assms(2) by simp
    from stale_sends [OF assms(1) that(1) this, of out] show ?thesis using t1 by (metis Pair_inject)
  qed
  obtain ms where "topic_holds env M asked (fst (lg_slots l ! ?i)) t ms"
    "length ms \<le> length (lg_messages l)" "tp_retired t = (\<not> snd (lg_slots l ! ?i))"
    using books_slot [OF Cons.prems(1) at(2)] at(1) by auto
  with op have slot: "r1 = Inr ()" "tp_retired t1 = (\<not> snd (lg_slots l ! ?i))" by blast+
  have "books env M asked l ((ps @ t # ts)[?i := t1]) out1"
  proof (rule books_replace [OF Cons.prems(1) at(2) refl refl, where extra = "[]"])
    fix ms assume "topic_holds env M asked (fst (lg_slots l ! ?i)) ((ps @ t # ts) ! ?i) ms"
      "length ms \<le> length (messages_to ?i l)"
    then show "\<exists>ms1 ms2. ms @ [] = ms1 @ ms2 \<and> topic_holds env M asked (fst (lg_slots l ! ?i)) t1 ms2
        \<and> sends env M asked (fst (lg_slots l ! ?i)) out out1 ms1"
      using op [of "fst (lg_slots l ! ?i)" ms] messages_to_length [of ?i l] by simp
  qed (use slot in \<open>simp_all\<close>)
  then have "books env M asked l ((ps @ [t1]) @ ts) out1" by simp
  moreover obtain r2 ts2 out2 where ts2: "sweep_topics env ts out1 = (r2, ts2, out2)" using prod_cases3 by blast
  ultimately have "r2 = Inr () \<and> books env M asked l ((ps @ [t1]) @ ts2) out2" using Cons.IH by blast
  then show ?case using Cons.prems(2) t1 slot(1) ts2 by simp
qed simp

lemma new_topic_holds:
  assumes "faithful env M" "new_topic env config None r out = (t, out')"
  obtains c where "topic_holds env M (representations config) r t []" "\<not> tp_retired t"
    "topic_statics_chunk (pe_chunk (we_pipeline env)) (we_entity env (rec_topic r)) r = Inr c"
    "os_file out' = os_file out @ [SentChunk c]"
proof -
  let ?plan = "topic_plan env r"
  let ?p = "new_pipeline (we_pipeline env) (we_entity env (rec_topic r)) (representations config)
      (rec_type_name r) (rec_schema_encoding r) (rec_schema_text r) None"
  have law: "decodes_rows (we_pipeline env) ?plan (me_held M ?plan) (me_val M ?plan)"
    "builds_chunks (pe_chunk (we_pipeline env))"
    using assms(1) by (simp_all add: faithful_def lawful_def)
  obtain c where c: "topic_statics_chunk (pe_chunk (we_pipeline env)) (we_entity env (rec_topic r)) r = Inr c"
    by (rule topic_statics_chunk_shape [OF law(2)])
  have t: "tp_pipeline t = ?p" "\<not> tp_retired t" "os_file out' = os_file out @ [SentChunk c]"
    using assms(2) c fold_send_file [of "[c]"]
    by (auto simp: new_topic_def read_clock_def log_message_def Let_def split: if_splits)
  have settings: "pl_entity ?p = we_entity env (rec_topic r)" "pl_keep_raw ?p = (Raw \<in> representations config)"
    "pl_lenses ?p = None" by (simp_all add: new_pipeline_def Let_def)
  have "topic_holds env M (representations config) r t []"
    unfolding topic_holds_def t(1) Let_def
    by (intro conjI impI settings new_pipeline_reflectable new_pipeline_holds [OF law(1) new_pipeline_plan] new_pipeline_describes)
  then show thesis using that c t(2,3) by blast
qed

lemma flushed_fresh:
  assumes "list_all2 (entry_sent env M asked rs) es ss" "length rs \<le> i"
  shows "flushed i es = []"
  using assms
proof (induction rule: list_all2_induct)
  case (Cons e es s ss)
  then show ?case by (cases e) (auto simp: entry_sent_def)
qed simp

lemma books_create:
  assumes "books env M asked l ts out" "topic_holds env M asked r t []" "\<not> tp_retired t"
    and "topic_statics_chunk (pe_chunk (we_pipeline env)) (we_entity env (rec_topic r)) r = Inr c"
    and "os_file out' = os_file out @ [SentChunk c]"
    and "lg_slots l' = lg_slots l @ [(r, True)]" "lg_messages l' = lg_messages l"
    and "messages_to (length (lg_slots l)) l = []"
  shows "books env M asked l' (ts @ [t]) out'"
proof -
  obtain es where es: "list_all2 (entry_sent env M asked (slot_records l)) es (os_file out)"
    "\<And>j. j < length ts \<Longrightarrow> slot_ok env M asked l es j (ts ! j)"
    and order: "declarations es = slot_records l" "in_turn 0 es"
    and len: "length ts = length (lg_slots l)"
    using assms(1) by (auto simp: books_def)
  let ?es = "es @ [Declared r]"
  have same: "messages_to j l' = messages_to j l" for j by (simp add: messages_to_def assms(7))
  have "list_all2 (entry_sent env M asked (slot_records l')) es (os_file out)"
    using es(1) by (rule list_all2_mono) (simp add: assms(6) entry_sent_more)
  moreover have "entry_sent env M asked (slot_records l') (Declared r) (SentChunk c)"
    using assms(4,6) by (simp add: entry_sent_def)
  ultimately have "list_all2 (entry_sent env M asked (slot_records l')) ?es (os_file out')"
    by (simp add: assms(5) list_all2_appendI)
  moreover have "slot_ok env M asked l' ?es j ((ts @ [t]) ! j)" if "j < Suc (length ts)" for j
  proof (cases "j < length ts")
    case True
    then show ?thesis
      using es(2) [OF True] len by (auto simp: slot_ok_def assms(6) nth_append same)
  next
    case False
    then have "j = length (lg_slots l)" using that len by simp
    then show ?thesis
      using assms(2,3,8) len flushed_fresh [OF es(1), of "length (lg_slots l)"]
      by (auto simp: slot_ok_def assms(6) nth_append same)
  qed
  moreover have "declarations ?es = slot_records l'" "in_turn 0 ?es"
    using order by (simp_all add: assms(6) in_turn_append)
  ultimately show ?thesis using len by (auto simp: books_def assms(6))
qed

section \<open>Every call keeps the books\<close>

definition ledger_ok :: "ledger \<Rightarrow> bool" where
  "ledger_ok l \<longleftrightarrow>
     length (lg_messages l) \<le> lg_writes l
     \<and> (\<forall>name i. lg_names l name = Some i \<longrightarrow> i < length (lg_slots l))
     \<and> (\<forall>x \<in> set (lg_messages l). fst x < length (lg_slots l))"

definition accounts ::
  "('e, 'd, 'u) writer_env \<Rightarrow> ('d, 'v) meaning \<Rightarrow> ledger \<Rightarrow> ('e, 'd, 'u) writer \<Rightarrow> bool" where
  "accounts env M l w \<longleftrightarrow>
     books env M (representations (wr_config w)) l (wr_topics w) (wr_out w)
     \<and> wr_topic_ids w = lg_names l \<and> wr_next_sequence w = int (lg_writes l)
     \<and> wr_lenses w = None \<and> wr_metadata_yaml w = lg_metadata l \<and> ledger_ok l"

lemma entered_ok: "ledger_ok l \<Longrightarrow> ledger_ok (entered c l)"
  by (cases c) (auto simp: ledger_ok_def entered_def less_Suc_eq split: option.splits)

lemma create_accounts:
  assumes "faithful env M" "accounts env M l w"
  shows "accounts env M (entered (CreateTopic r) l) (snd (create_topic env r w))"
proof (cases "lg_names l (rec_topic r)")
  case None
  obtain t out where new: "new_topic env (wr_config w) None r (wr_out w) = (t, out)" by fastforce
  obtain c where c: "topic_holds env M (representations (wr_config w)) r t []" "\<not> tp_retired t"
    "topic_statics_chunk (pe_chunk (we_pipeline env)) (we_entity env (rec_topic r)) r = Inr c"
    "os_file out = os_file (wr_out w) @ [SentChunk c]"
    using new_topic_holds [OF assms(1) new] by blast
  have acc: "books env M (representations (wr_config w)) l (wr_topics w) (wr_out w)"
    "wr_topic_ids w = lg_names l" "wr_lenses w = None" "ledger_ok l"
    using assms(2) by (simp_all add: accounts_def)
  have len: "length (wr_topics w) = length (lg_slots l)" using acc(1) by (simp add: books_def)
  have "messages_to (length (lg_slots l)) l = []"
    using acc(4) by (auto simp: messages_to_def ledger_ok_def filter_empty_conv)
  from books_create [OF acc(1) c _ _ this, of "entered (CreateTopic r) l"] None
  have "books env M (representations (wr_config w)) (entered (CreateTopic r) l) (wr_topics w @ [t]) out"
    by (simp add: entered_def)
  moreover have "snd (create_topic env r w) =
      w\<lparr>wr_topic_ids := (wr_topic_ids w)(rec_topic r \<mapsto> length (wr_topics w)),
        wr_topics := wr_topics w @ [t], wr_out := out\<rparr>"
    using None acc(2,3) new by (simp add: create_topic_def Let_def)
  ultimately show ?thesis
    using None assms(2) entered_ok [OF acc(4), of "CreateTopic r"] len
    by (simp add: accounts_def) (simp add: entered_def)
next
  case (Some i)
  then show ?thesis using assms(2) by (simp add: create_topic_def entered_def accounts_def)
qed

lemma sweep_stale_accounts:
  assumes "faithful env M" "accounts env M l w" "lg_writes l < 2 ^ 32"
  shows "fst (sweep_stale_topics env w) = Inr () \<and> accounts env M l (snd (sweep_stale_topics env w))"
proof (cases "max_latency (flush (wr_config w))")
  case (Some limit)
  let ?asked = "representations (wr_config w)"
  have acc: "books env M ?asked l (wr_topics w) (wr_out w)" "length (lg_messages l) < 2 ^ 32"
    using assms(2,3) by (simp_all add: accounts_def ledger_ok_def)
  obtain waited out1 where out1: "elapsed env (wr_last_sweep w) (wr_out w) = (waited, out1)" by fastforce
  then have file1: "os_file out1 = os_file (wr_out w)" by (auto simp: elapsed_def read_clock_def)
  show ?thesis
  proof (cases "waited < limit")
    case True
    then show ?thesis
      using Some out1 assms(2) books_file [OF file1 acc(1)]
      by (simp add: sweep_stale_topics_def accounts_def)
  next
    case False
    obtain now out2 where out2: "read_clock env out1 = (now, out2)" by fastforce
    obtain r ts out3 where sweep: "sweep_topics env (wr_topics w) out2 = (r, ts, out3)" using prod_cases3 by blast
    have "os_file out2 = os_file (wr_out w)" using read_clock_file [OF out2] file1 by simp
    then have "books env M ?asked l ([] @ wr_topics w) out2" using books_file [OF _ acc(1)] by simp
    from sweep_books [OF assms(1) acc(2) this sweep] show ?thesis
      using Some False out1 out2 sweep assms(2) by (simp add: sweep_stale_topics_def accounts_def)
  qed
qed (use assms(2) in \<open>simp add: sweep_stale_topics_def\<close>)

lemma next_sequence: "n < 2 ^ 32 \<Longrightarrow> wrap_i64 (int n + 1) = int (Suc n)"
  by (simp add: wrap_i64_def)

lemma entered_write:
  "lg_slots (entered (WriteMessage i cdr recv send) l) = lg_slots l"
  "lg_names (entered (WriteMessage i cdr recv send) l) = lg_names l"
  "lg_writes (entered (WriteMessage i cdr recv send) l) = Suc (lg_writes l)"
  "lg_metadata (entered (WriteMessage i cdr recv send) l) = lg_metadata l"
  "messages_to j (entered (WriteMessage i cdr recv send) l) = messages_to j l @
     (if j = i then
        (if i < length (lg_slots l) \<and> snd (lg_slots l ! i)
         then [\<lparr>in_cdr = cdr, in_recv = recv, in_send = send, in_sequence = int (lg_writes l)\<rparr>] else [])
      else [])"
  by (simp_all add: entered_def messages_to_def)

lemma write_accounts:
  assumes "faithful env M" "lossless env (representations (wr_config w)) cdr" "accounts env M l w"
    and "Suc (lg_writes l) < 2 ^ 32"
  shows "accounts env M (entered (WriteMessage i cdr recv send) l)
    (snd (writer_write env i cdr recv send w))"
proof -
  let ?asked = "representations (wr_config w)" and ?l = "entered (WriteMessage i cdr recv send) l"
  let ?m = "\<lparr>in_cdr = cdr, in_recv = recv, in_send = send, in_sequence = int (lg_writes l)\<rparr>"
  have acc: "books env M ?asked l (wr_topics w) (wr_out w)" "ledger_ok l" "wr_topic_ids w = lg_names l"
    "wr_next_sequence w = int (lg_writes l)" "wr_lenses w = None" "wr_metadata_yaml w = lg_metadata l"
    using assms(3) by (simp_all add: accounts_def)
  have len: "length (wr_topics w) = length (lg_slots l)" using acc(1) by (simp add: books_def)
  have seq: "wrap_i64 (int (lg_writes l) + 1) = int (lg_writes ?l)"
    using next_sequence [of "lg_writes l"] assms(4) by (simp add: entered_write)
  have ok: "ledger_ok ?l" using entered_ok acc(2) .
  show ?thesis
  proof (cases "i < length (wr_topics w)")
    case False
    then have "books env M ?asked ?l (wr_topics w) (wr_out w)"
      using acc(1) len by (auto simp: books_def slot_ok_def entered_write)
    then show ?thesis
      using False acc seq ok by (simp add: writer_write_def accounts_def get_def entered_write Let_def)
  next
    case True
    let ?t = "wr_topics w ! i" and ?extra = "if snd (lg_slots l ! i) then [?m] else []"
    obtain ms where ms: "topic_holds env M ?asked (fst (lg_slots l ! i)) ?t ms"
      "length ms \<le> length (lg_messages l)" "tp_retired ?t = (\<not> snd (lg_slots l ! i))"
      using books_slot [OF acc(1) True] by blast
    obtain r t' out' where t': "topic_write env cdr recv send (int (lg_writes l)) ?t (wr_out w) = (r, t', out')"
      using prod_cases3 by blast
    have op: "r = Inr () \<and> tp_retired t' = tp_retired ?t \<and> (\<exists>ms1 ms2. ms @ ?extra = ms1 @ ms2
        \<and> topic_holds env M ?asked q t' ms2 \<and> sends env M ?asked q (wr_out w) out' ms1)"
      if th: "topic_holds env M ?asked q ?t ms" and le: "length ms \<le> length (lg_messages l)" for q ms
    proof (cases "tp_retired ?t")
      case True
      then have "r = Inr ()" "t' = ?t" "out' = wr_out w" "?extra = []"
        using t' ms(3) by (simp_all add: topic_write_def)
      then show ?thesis
        using th sends_nothing [OF refl]
        by (intro conjI exI [of _ "[]"] exI [of _ ms]) simp_all
    next
      case False
      have "Suc (length ms) < 2 ^ 32" using le acc(2) assms(4) by (simp add: ledger_ok_def)
      then obtain t1 out1 ms1 ms2 where
        "topic_write env cdr recv send (int (lg_writes l)) ?t (wr_out w) = (Inr (), t1, out1)"
        "ms @ [?m] = ms1 @ ms2" "topic_holds env M ?asked q t1 ms2" "\<not> tp_retired t1"
        "sends env M ?asked q (wr_out w) out1 ms1"
        by (rule write_sends [OF assms(1,2) th _ False refl])
      then show ?thesis using False ms(3) t' by auto
    qed
    let ?w = "w\<lparr>wr_next_sequence := int (lg_writes ?l), wr_topics := (wr_topics w)[i := t'], wr_out := out'\<rparr>"
    have "books env M ?asked ?l ((wr_topics w)[i := t']) out'"
    proof (rule books_replace [OF acc(1) True, where extra = ?extra])
      fix ms assume "topic_holds env M ?asked (fst (lg_slots l ! i)) ?t ms"
        "length ms \<le> length (messages_to i l)"
      then show "\<exists>ms1 ms2. ms @ ?extra = ms1 @ ms2 \<and> topic_holds env M ?asked (fst (lg_slots l ! i)) t' ms2
          \<and> sends env M ?asked (fst (lg_slots l ! i)) (wr_out w) out' ms1"
        using op messages_to_length [of i l] by simp
    qed (use op [OF ms(1,2)] ms(3) True len in \<open>simp_all add: entered_write\<close>)
    then have "accounts env M ?l ?w" using acc ok by (simp add: accounts_def entered_write)
    moreover have "lg_writes ?l < 2 ^ 32" using assms(4) by (simp add: entered_write)
    ultimately have "accounts env M ?l (snd (sweep_stale_topics env ?w))"
      using sweep_stale_accounts [OF assms(1)] by blast
    moreover have "writer_write env i cdr recv send w = sweep_stale_topics env ?w"
      using True t' op [OF ms(1,2)] acc(4) seq by (simp add: writer_write_def get_def Let_def)
    ultimately show ?thesis by simp
  qed
qed

lemma entered_remove:
  "lg_names l name = Some i \<Longrightarrow>
     lg_slots (entered (RemoveTopic name) l) = (lg_slots l)[i := (fst (lg_slots l ! i), False)]"
  "lg_names l name = Some i \<Longrightarrow> lg_names (entered (RemoveTopic name) l) = (lg_names l)(name := None)"
  "lg_writes (entered (RemoveTopic name) l) = lg_writes l"
  "lg_metadata (entered (RemoveTopic name) l) = lg_metadata l"
  "messages_to j (entered (RemoveTopic name) l) = messages_to j l"
  by (auto simp: entered_def messages_to_def split: option.split)

lemma same_records: "map fst (xs[i := (fst (xs ! i), b)]) = map fst xs"
  by (cases "i < length xs") (auto simp: map_update nth_list_update intro: nth_equalityI)

lemma topic_holds_retire: "topic_holds env M asked r (retire t) ms = topic_holds env M asked r t ms"
  by (simp add: topic_holds_def retire_def)

lemma remove_accounts:
  assumes "faithful env M" "accounts env M l w" "lg_writes l < 2 ^ 32"
  shows "accounts env M (entered (RemoveTopic name) l) (snd (remove_topic env name w))"
proof (cases "lg_names l name")
  case None
  then show ?thesis using assms(2) by (simp add: remove_topic_def entered_def accounts_def)
next
  case (Some i)
  let ?asked = "representations (wr_config w)" and ?l = "entered (RemoveTopic name) l"
  have acc: "books env M ?asked l (wr_topics w) (wr_out w)" "ledger_ok l" "wr_topic_ids w = lg_names l"
    using assms(2) by (simp_all add: accounts_def)
  have i: "i < length (wr_topics w)" "i < length (lg_slots l)"
    using acc(1,2) Some by (simp_all add: books_def ledger_ok_def)
  let ?t = "wr_topics w ! i"
  have bound: "length ms < 2 ^ 32" if "length ms \<le> length (lg_messages l)" for ms :: "incoming list"
    using that acc(2) assms(3) by (simp add: ledger_ok_def)
  obtain r t' out' where t': "topic_flush env ?t (wr_out w) = (r, t', out')" using prod_cases3 by blast
  have op: "r = Inr () \<and> topic_holds env M ?asked q t' [] \<and> sends env M ?asked q (wr_out w) out' ms"
    if th: "topic_holds env M ?asked q ?t ms" and le: "length ms \<le> length (lg_messages l)" for q ms
  proof -
    obtain t1 out1 where "topic_flush env ?t (wr_out w) = (Inr (), t1, out1)"
      "topic_holds env M ?asked q t1 []" "tp_retired t1 = tp_retired ?t"
      "sends env M ?asked q (wr_out w) out1 ms"
      by (rule flush_sends [OF assms(1) th bound [OF le]])
    then show ?thesis using t' by simp
  qed
  have "books env M ?asked ?l ((wr_topics w)[i := retire t']) out'"
  proof (rule books_replace [OF acc(1) i(1), where extra = "[]"])
    fix ms assume "topic_holds env M ?asked (fst (lg_slots l ! i)) ?t ms"
      "length ms \<le> length (messages_to i l)"
    then show "\<exists>ms1 ms2. ms @ [] = ms1 @ ms2 \<and> topic_holds env M ?asked (fst (lg_slots l ! i)) (retire t') ms2
        \<and> sends env M ?asked (fst (lg_slots l ! i)) (wr_out w) out' ms1"
      using op messages_to_length [of i l]
      by (intro exI [of _ ms] exI [of _ "[]"]) (simp add: topic_holds_retire)
  qed (use i in \<open>simp_all add: entered_remove Some same_records retire_def\<close>)
  moreover have "r = Inr ()" using books_slot [OF acc(1) i(1)] op by blast
  then have "snd (remove_topic env name w) =
      w\<lparr>wr_topic_ids := (wr_topic_ids w)(name := None),
        wr_topics := (wr_topics w)[i := retire t'], wr_out := out'\<rparr>"
    using Some i t' acc(3) by (simp add: remove_topic_def get_def Let_def)
  ultimately show ?thesis
    using assms(2) entered_ok [OF acc(2), of "RemoveTopic name"] Some
    by (simp add: accounts_def entered_remove)
qed

lemma perform_accounts:
  assumes "faithful env M" "lossless_call env (representations (wr_config w)) c" "accounts env M l w"
    and "lg_writes (entered c l) < 2 ^ 32"
  shows "accounts env M (entered c l) (snd (perform env c w))"
proof (cases c)
  case (CreateTopic r)
  then show ?thesis using create_accounts [OF assms(1,3)] by (simp add: perform_def)
next
  case (WriteMessage i cdr recv send)
  then show ?thesis using write_accounts [OF assms(1) _ assms(3)] assms(2,4) by (simp add: perform_def entered_write)
next
  case (RemoveTopic name)
  then show ?thesis using remove_accounts [OF assms(1,3)] assms(4) by (simp add: perform_def entered_remove)
next
  case (SetMetadata yaml)
  have "books env M asked (l\<lparr>lg_metadata := Some yaml\<rparr>) ts out = books env M asked l ts out" for asked ts out
    by (simp add: books_def slot_ok_def messages_to_def)
  then show ?thesis
    using assms(3) by (simp add: SetMetadata perform_def entered_def accounts_def set_metadata_def ledger_ok_def)
qed

lemma entered_writes: "lg_writes l \<le> lg_writes (fold entered cs l)"
proof (induction cs arbitrary: l)
  case (Cons c cs)
  have "lg_writes l \<le> lg_writes (entered c l)"
    by (cases c) (simp_all add: entered_def split: option.split)
  then show ?case using Cons.IH [of "entered c l"] by simp
qed simp

lemma session_accounts:
  assumes "faithful env M"
  shows "list_all (lossless_call env (representations (wr_config w))) cs \<Longrightarrow> accounts env M l w \<Longrightarrow>
    lg_writes (fold entered cs l) < 2 ^ 32 \<Longrightarrow>
    accounts env M (fold entered cs l) (snd (session env cs w))
    \<and> wr_config (snd (session env cs w)) = wr_config w"
proof (induction cs arbitrary: l w)
  case (Cons c cs)
  let ?w = "snd (perform env c w)"
  have "lg_writes (entered c l) < 2 ^ 32"
    using Cons.prems(3) entered_writes [of "entered c l" cs] by simp
  then have "accounts env M (entered c l) ?w" using perform_accounts [OF assms _ Cons.prems(2)] Cons.prems(1) by simp
  then have "accounts env M (fold entered cs (entered c l)) (snd (session env cs ?w))
      \<and> wr_config (snd (session env cs ?w)) = wr_config ?w"
    using Cons.prems(1,3) by (intro Cons.IH) (simp_all add: perform_config)
  then show ?case by (simp add: perform_config session_Cons del: session.simps(2))
qed simp

section \<open>Closing\<close>

lemma topic_holds_length: "topic_holds env M asked r t ms \<Longrightarrow> pipeline_len (tp_pipeline t) = length ms"
  by (auto simp: topic_holds_def Let_def dest: holds_length)

lemma close_books:
  assumes "faithful env M" "length (lg_messages l) < 2 ^ 32"
  shows "books env M asked l (ps @ ts) out \<Longrightarrow>
    \<exists>ts'. books env M asked l (ps @ ts') (close_topics env ts out)
      \<and> length ts' = length ts \<and> (\<forall>t \<in> set ts'. pipeline_len (tp_pipeline t) = 0)"
proof (induction ts arbitrary: ps out)
  case (Cons t ts)
  let ?i = "length ps"
  have at: "(ps @ t # ts) ! ?i = t" "?i < length (ps @ t # ts)" by simp_all
  obtain r1 t1 out1 where t1: "topic_flush env t out = (r1, t1, out1)" using prod_cases3 by blast
  have op: "r1 = Inr () \<and> tp_retired t1 = tp_retired t \<and> topic_holds env M asked r t1 []
      \<and> sends env M asked r out out1 ms"
    if th: "topic_holds env M asked r t ms" and le: "length ms \<le> length (lg_messages l)" for r ms
  proof -
    have "length ms < 2 ^ 32" using le assms(2) by simp
    then obtain t2 out2 where "topic_flush env t out = (Inr (), t2, out2)" "topic_holds env M asked r t2 []"
      "tp_retired t2 = tp_retired t" "sends env M asked r out out2 ms"
      by (rule flush_sends [OF assms(1) th])
    then show ?thesis using t1 by simp
  qed
  obtain ms where ms: "topic_holds env M asked (fst (lg_slots l ! ?i)) t ms"
    "length ms \<le> length (lg_messages l)" "tp_retired t = (\<not> snd (lg_slots l ! ?i))"
    using books_slot [OF Cons.prems at(2)] at(1) by auto
  note t1_op = op [OF ms(1,2)]
  have empty: "pipeline_len (tp_pipeline t1) = 0"
    using t1_op topic_holds_length by fastforce
  have "books env M asked l ((ps @ t # ts)[?i := t1]) out1"
  proof (rule books_replace [OF Cons.prems at(2) refl refl, where extra = "[]"])
    fix ms assume "topic_holds env M asked (fst (lg_slots l ! ?i)) ((ps @ t # ts) ! ?i) ms"
      "length ms \<le> length (messages_to ?i l)"
    then show "\<exists>ms1 ms2. ms @ [] = ms1 @ ms2 \<and> topic_holds env M asked (fst (lg_slots l ! ?i)) t1 ms2
        \<and> sends env M asked (fst (lg_slots l ! ?i)) out out1 ms1"
      using op [of "fst (lg_slots l ! ?i)" ms] messages_to_length [of ?i l]
      by (intro exI [of _ ms] exI [of _ "[]"]) simp
  qed (use t1_op ms(3) in \<open>simp_all\<close>)
  then have "books env M asked l ((ps @ [t1]) @ ts) out1" by simp
  from Cons.IH [OF this] obtain ts' where ts': "books env M asked l ((ps @ [t1]) @ ts') (close_topics env ts out1)"
    "length ts' = length ts" "\<forall>t \<in> set ts'. pipeline_len (tp_pipeline t) = 0" by blast
  then show ?case using t1 t1_op empty by (intro exI [of _ "t1 # ts'"]) simp
qed simp

text \<open>What the file holds of the ledger once it is closed.\<close>

definition recorded ::
  "('e, 'd, 'u) writer_env \<Rightarrow> ('d, 'v) meaning \<Rightarrow> representations \<Rightarrow> ledger \<Rightarrow> 'e sent list \<Rightarrow> bool" where
  "recorded env M asked l ss \<longleftrightarrow>
     (\<exists>es. list_all2 (entry_sent env M asked (slot_records l)) es ss
        \<and> (\<forall>i < length (lg_slots l). Declared (fst (lg_slots l ! i)) \<in> set es
             \<and> flushed i es = messages_to i l))"

lemma closed_books:
  assumes "faithful env M" "length (lg_messages l) < 2 ^ 32" "books env M asked l ts out"
  shows "recorded env M asked l (os_file (close_topics env ts out))"
proof -
  obtain ts' where ts': "books env M asked l ts' (close_topics env ts out)"
    "\<forall>t \<in> set ts'. pipeline_len (tp_pipeline t) = 0"
    using close_books [OF assms(1,2), of asked "[]" ts out] assms(3) by auto
  then obtain es where es: "list_all2 (entry_sent env M asked (slot_records l)) es (os_file (close_topics env ts out))"
    "\<And>i. i < length ts' \<Longrightarrow> slot_ok env M asked l es i (ts' ! i)" "length ts' = length (lg_slots l)"
    by (auto simp: books_def)
  have "Declared (fst (lg_slots l ! i)) \<in> set es \<and> flushed i es = messages_to i l"
    if i: "i < length (lg_slots l)" for i
  proof -
    obtain ms where ms: "topic_holds env M asked (fst (lg_slots l ! i)) (ts' ! i) ms"
      "flushed i es @ ms = messages_to i l" "Declared (fst (lg_slots l ! i)) \<in> set es"
      using es(2) [of i] i es(3) by (auto simp: slot_ok_def)
    have "length ms = pipeline_len (tp_pipeline (ts' ! i))"
      using topic_holds_length [OF ms(1)] by simp
    then have "ms = []" using ts'(2) i es(3) by simp
    then show ?thesis using ms(2,3) by simp
  qed
  then show ?thesis using es(1) by (auto simp: recorded_def)
qed

lemma opened_accounts:
  assumes "writer_open env path config reads = Some (Inr w)" "Lenses \<notin> representations config"
  shows "accounts env M no_ledger w" "wr_config w = config"
proof -
  have "lenses_for (we_pipeline env) (representations config) (unmatched config) = Inr None"
    using assms(2) by (simp add: lenses_for_def)
  then have "wr_topics w = []" "os_file (wr_out w) = []" "wr_topic_ids w = (\<lambda>_. None)" "wr_next_sequence w = 0"
    "wr_lenses w = None" "wr_metadata_yaml w = None" and config: "wr_config w = config"
    using assms(1)
    by (auto simp: writer_open_def recording_open_def read_clock_def Let_def dest!: connect_file
        split: option.splits sum.splits prod.splits)
  then show "accounts env M no_ledger w"
    by (simp add: accounts_def books_def no_ledger_def ledger_ok_def)
  show "wr_config w = config" by (rule config)
qed

lemma close_file:
  "os_file (snd (writer_close env w)) = os_file (close_topics env (wr_topics w) (wr_out w)) @
     (case wr_metadata_yaml w of
        None \<Rightarrow> []
      | Some yaml \<Rightarrow>
          if isl (we_file_property env METADATA_PROPERTY yaml) then []
          else [SentProperty METADATA_PROPERTY yaml])"
  by (auto simp: writer_close_def recording_close_def send_property_def log_message_def Let_def
      split: option.splits sum.splits)

lemma closed_recorded:
  assumes "faithful env M" "writer_open env path config reads = Some (Inr w)"
    and "Lenses \<notin> representations config" "list_all (lossless_call env (representations config)) cs"
    and "l = fold entered cs no_ledger" "lg_writes l < 2 ^ 32"
    and "out = snd (writer_close env (snd (session env cs w)))"
  shows "\<exists>ss. recorded env M (representations config) l ss
    \<and> os_file out = ss @
        (case lg_metadata l of
           None \<Rightarrow> []
         | Some yaml \<Rightarrow>
             if isl (we_file_property env METADATA_PROPERTY yaml) then []
             else [SentProperty METADATA_PROPERTY yaml])"
proof -
  let ?w = "snd (session env cs w)"
  have acc: "accounts env M l ?w \<and> wr_config ?w = wr_config w"
    unfolding assms(5)
    by (rule session_accounts [OF assms(1)]) (use opened_accounts [OF assms(2,3)] assms(4-6) in auto)
  then have config: "wr_config ?w = config" using opened_accounts(2) [OF assms(2,3)] by simp
  have w: "books env M (representations config) l (wr_topics ?w) (wr_out ?w)"
    "wr_metadata_yaml ?w = lg_metadata l" "ledger_ok l"
    using acc unfolding accounts_def config by blast+
  then have "length (lg_messages l) < 2 ^ 32" using assms(6) by (simp add: ledger_ok_def)
  from closed_books [OF assms(1) this w(1)] show ?thesis
    unfolding assms(7) close_file w(2) by blast
qed

lemma entered_sequences:
  assumes "sorted_wrt (\<lambda>x y. in_sequence (snd x) < in_sequence (snd y)) (lg_messages l)"
    and "\<forall>x \<in> set (lg_messages l). in_sequence (snd x) < int (lg_writes l)"
  shows "sorted_wrt (\<lambda>x y. in_sequence (snd x) < in_sequence (snd y)) (lg_messages (entered c l))
    \<and> (\<forall>x \<in> set (lg_messages (entered c l)). in_sequence (snd x) < int (lg_writes (entered c l)))"
  using assms by (cases c) (auto simp: entered_def sorted_wrt_append split: option.split)

lemma ledger_sequences:
  "sorted_wrt (\<lambda>x y. in_sequence (snd x) < in_sequence (snd y)) (lg_messages (fold entered cs no_ledger))"
proof -
  have "sorted_wrt (\<lambda>x y. in_sequence (snd x) < in_sequence (snd y)) (lg_messages l) \<Longrightarrow>
      \<forall>x \<in> set (lg_messages l). in_sequence (snd x) < int (lg_writes l) \<Longrightarrow>
      sorted_wrt (\<lambda>x y. in_sequence (snd x) < in_sequence (snd y)) (lg_messages (fold entered cs l))" for l
    using entered_sequences by (induction cs arbitrary: l) simp_all
  then show ?thesis by (simp add: no_ledger_def)
qed

lemma ledger_wf: "ledger_ok (fold entered cs no_ledger)"
proof -
  have "ledger_ok l \<Longrightarrow> ledger_ok (fold entered cs l)" for l
    using entered_ok by (induction cs arbitrary: l) simp_all
  then show ?thesis by (simp add: no_ledger_def ledger_ok_def)
qed

text \<open>
  C2: nothing that was accepted is lost. Whatever calls a session makes, once the bag is
  closed the file was sent, for every topic that was declared, its static record, and chunks
  whose rows are exactly the messages written to it while it was recorded, in order, each
  with its times, its sequence number and every form of it; and the last metadata, if any.
  The recording asks for no lenses; where a decoder may break it keeps raw copies.
\<close>

theorem session_reaches_the_file:
  assumes "faithful env M" "writer_open env path config reads = Some (Inr w)"
    and "Lenses \<notin> representations config" "list_all (lossless_call env (representations config)) cs"
    and "l = fold entered cs no_ledger" "lg_writes l < 2 ^ 32"
    and "out = snd (writer_close env (snd (session env cs w)))"
  shows "\<exists>ss. recorded env M (representations config) l ss
    \<and> os_file out = ss @
        (case lg_metadata l of
           None \<Rightarrow> []
         | Some yaml \<Rightarrow>
             if isl (we_file_property env METADATA_PROPERTY yaml) then []
             else [SentProperty METADATA_PROPERTY yaml])"
  by (rule closed_recorded [OF assms])

text \<open>
  A session on the byte libraries: two topics, one removed and written to once more, which is
  refused and adds nothing.
\<close>

definition byte_meaning :: "(bytes, bytes result) meaning" where
  "byte_meaning = \<lparr>me_held = \<lambda>_. byte_held, me_val = \<lambda>_. byte_value, me_rows = byte_rows\<rparr>"

lemma byte_faithful: "faithful byte_writer_env byte_meaning"
  by (simp add: faithful_def byte_meaning_def byte_lawful)

definition byte_cdr :: "byte \<Rightarrow> bytes" where
  "byte_cdr b = ENCAPSULATION @ [b]"

definition byte_session :: "command list" where
  "byte_session =
     [CreateTopic (byte_topic ''/a''), CreateTopic (byte_topic ''/bb''),
      WriteMessage 0 (byte_cdr 7) 7 4, WriteMessage 1 (byte_cdr 8) 5 5, RemoveTopic ''/a'',
      WriteMessage 0 (byte_cdr 9) 8 8, SetMetadata ''yaml'', WriteMessage 1 (byte_cdr 10) 9 2]"

definition byte_ledger :: ledger where
  "byte_ledger =
     \<lparr>lg_names = [''/bb'' \<mapsto> 1],
      lg_slots = [(byte_topic ''/a'', False), (byte_topic ''/bb'', True)],
      lg_messages =
        [(0, \<lparr>in_cdr = byte_cdr 7, in_recv = 7, in_send = 4, in_sequence = 0\<rparr>),
         (1, \<lparr>in_cdr = byte_cdr 8, in_recv = 5, in_send = 5, in_sequence = 1\<rparr>),
         (1, \<lparr>in_cdr = byte_cdr 10, in_recv = 9, in_send = 2, in_sequence = 3\<rparr>)],
      lg_writes = 4, lg_metadata = Some ''yaml''\<rparr>"

lemma byte_ledger_entered: "byte_ledger = fold entered byte_session no_ledger"
  by (simp add: byte_session_def byte_ledger_def no_ledger_def entered_def byte_topic_def fun_eq_iff)

lemma byte_session_lossless: "list_all (lossless_call byte_writer_env {Reflected}) byte_session"
  by (simp add: byte_session_def lossless_def byte_env_def decode_byte_def byte_cdr_def)

theorem session_reaches_the_file_witness:
  "\<exists>ss. recorded byte_writer_env byte_meaning {Reflected} byte_ledger ss
     \<and> os_file (snd (writer_close byte_writer_env
         (snd (session byte_writer_env byte_session (byte_writer {Reflected}))))) =
       ss @ [SentProperty METADATA_PROPERTY ''yaml'']"
proof -
  have opens: "writer_open byte_writer_env ''bag.rrd'' (byte_config {Reflected} None) 0 =
      Some (Inr (byte_writer {Reflected}))"
    by (rule byte_writer_opens) simp
  have "\<exists>ss. recorded byte_writer_env byte_meaning (representations (byte_config {Reflected} None)) byte_ledger ss
      \<and> os_file (snd (writer_close byte_writer_env
          (snd (session byte_writer_env byte_session (byte_writer {Reflected}))))) = ss @
        (case lg_metadata byte_ledger of
           None \<Rightarrow> []
         | Some yaml \<Rightarrow>
             if isl (we_file_property byte_writer_env METADATA_PROPERTY yaml) then []
             else [SentProperty METADATA_PROPERTY yaml])"
    by (rule session_reaches_the_file [OF byte_faithful opens _ _ byte_ledger_entered _ refl])
      (simp_all add: byte_config_def byte_session_lossless byte_ledger_def)
  then show ?thesis by (simp add: byte_config_def byte_ledger_def byte_writer_env_def)
qed

end
