(* ===== verification/Manifest.thy ===== *)
theory Manifest
  imports Sample_Bag
begin

text \<open>
  What \<open>ChunkIndex::open\<close> makes of a manifest that tells the truth about the chunks of the
  file: one reference for every chunk on the receive timeline, over its exact span of time.
\<close>

section \<open>The entries of the receive timeline\<close>

type_synonym time_entry = "string \<times> chunk_id \<times> i64 \<times> i64"

definition recv_entries :: "'e manifest \<Rightarrow> time_entry list" where
  "recv_entries m =
     concat (map (\<lambda>(_, timelines).
       concat (map (\<lambda>(timeline, components).
         if timeline \<noteq> RECV_TIMESTAMP then []
         else concat (map (\<lambda>(component, entries). map (Pair component) entries) components))
       timelines))
     (m_temporal m))"

lemma summarize_entries:
  "summarize m = fold (\<lambda>(component, entry). add_entry component entry) (recv_entries m) Map.empty"
proof -
  have "fold f (concat xss) = fold (fold f) xss" for f :: "time_entry \<Rightarrow> summaries \<Rightarrow> summaries" and xss
    by (induction xss) (simp_all add: fun_eq_iff)
  then show ?thesis
    unfolding summarize_def recv_entries_def
    by (simp add: fold_map comp_def case_prod_beta' if_distrib [of "fold _"] id_def cong: if_cong)
qed

definition entries_of :: "chunk_id \<Rightarrow> time_entry list \<Rightarrow> time_entry list" where
  "entries_of cid es = filter (\<lambda>(_, i, _). i = cid) es"

definition summary_in :: "time_entry list \<Rightarrow> summaries" where
  "summary_in es cid =
     (case entries_of cid es of
        [] \<Rightarrow> None
      | xs \<Rightarrow> Some \<lparr>su_start = Min (set (map (\<lambda>(_, _, lo, _). lo) xs)),
                    su_end = Max (set (map (\<lambda>(_, _, _, hi). hi) xs)),
                    su_components = map fst xs\<rparr>)"

lemma summary_in_snoc:
  "summary_in (es @ [(component, entry)]) = add_entry component entry (summary_in es)"
proof
  fix cid
  obtain i lo hi where entry: "entry = (i, lo, hi)" by (cases entry)
  show "summary_in (es @ [(component, entry)]) cid = add_entry component entry (summary_in es) cid"
  proof (cases "entries_of i es")
    case Nil
    then show ?thesis by (simp add: summary_in_def add_entry_def entry entries_of_def Let_def)
  next
    case (Cons x xs)
    then show ?thesis
      by (simp add: summary_in_def add_entry_def entry Let_def)
        (simp add: entries_of_def Min_insert2 Max_insert2 min.commute max.commute insert_commute)
  qed
qed

lemma summarize_summary: "summarize m = summary_in (recv_entries m)"
proof -
  have "fold (\<lambda>(component, entry). add_entry component entry) es Map.empty = summary_in es" for es
  proof (induction es rule: rev_induct)
    case Nil
    show ?case by (simp add: summary_in_def entries_of_def fun_eq_iff)
  next
    case (snoc x es)
    then show ?case by (cases x) (simp add: summary_in_snoc)
  qed
  then show ?thesis by (simp add: summarize_entries)
qed

section \<open>A manifest that tells the truth\<close>

text \<open>
  The entries of a chunk name its components, their bounds are times of the chunk, and
  together they cover its times. A chunk off the timeline has none.
\<close>

definition entries_describe :: "time_entry list \<Rightarrow> 'e chunk \<Rightarrow> bool" where
  "entries_describe xs c \<longleftrightarrow>
     (case times c RECV_TIMESTAMP of
        None \<Rightarrow> xs = []
      | Some ts \<Rightarrow>
          (ts \<noteq> [] \<longrightarrow> set (map fst xs) = set (map fst (ch_components c)))
          \<and> (\<forall>(_, _, lo, hi) \<in> set xs. lo \<in> set ts \<and> hi \<in> set ts)
          \<and> (\<forall>t \<in> set ts. \<exists>(_, _, lo, hi) \<in> set xs. lo \<le> t \<and> t \<le> hi))"

definition describes_file :: "'e manifest \<Rightarrow> (chunk_id \<times> 'e chunk) list \<Rightarrow> bool" where
  "describes_file m cs \<longleftrightarrow>
     m_chunk_ids m = map fst cs \<and> distinct (map fst cs)
     \<and> m_entities m = map (ch_entity \<circ> snd) cs \<and> m_is_static m = map (ch_static \<circ> snd) cs
     \<and> m_num_rows m = map (ch_num_rows \<circ> snd) cs
     \<and> (\<forall>(cid, c) \<in> set cs. \<not> ch_static c \<longrightarrow> entries_describe (entries_of cid (recv_entries m)) c)"

text \<open>A reference to a chunk, over the span of its receive times.\<close>

definition timed :: "'e chunk \<Rightarrow> bool" where
  "timed c = (case times c RECV_TIMESTAMP of None \<Rightarrow> False | Some ts \<Rightarrow> ts \<noteq> [])"

definition refers_to :: "'e chunk_ref \<Rightarrow> chunk_id \<times> 'e chunk \<Rightarrow> bool" where
  "refers_to r x \<longleftrightarrow>
     (case x of (cid, c) \<Rightarrow>
        cr_id r = cid \<and> cr_entity r = ch_entity c \<and> cr_num_rows r = ch_num_rows c
        \<and> set (cr_components r) = set (map fst (ch_components c))
        \<and> (\<exists>ts. times c RECV_TIMESTAMP = Some ts \<and> cr_start r = Min (set ts) \<and> cr_end r = Max (set ts)))"

definition ref_for :: "summaries \<Rightarrow> chunk_id \<times> 'e chunk \<Rightarrow> 'e chunk_ref option" where
  "ref_for summaries x =
     (case x of (cid, c) \<Rightarrow>
        map_option (\<lambda>s. \<lparr>cr_id = cid, cr_entity = ch_entity c, cr_num_rows = ch_num_rows c,
          cr_start = su_start s, cr_end = su_end s, cr_components = su_components s\<rparr>) (summaries cid))"

lemma get_drop: "get xs i = (case drop i xs of [] \<Rightarrow> None | x # _ \<Rightarrow> Some x)"
  by (cases "i < length xs") (simp_all add: get_def flip: Cons_nth_drop_Suc)

lemma drop_Suc_tl: "drop i xs = y # ys \<Longrightarrow> drop (Suc i) xs = ys"
  by (metis drop_Suc list.sel(3) tl_drop)

lemma classify_chunks:
  assumes "distinct (map fst cs)" "drop i (m_is_static m) = map (ch_static \<circ> snd) cs"
    and "drop i (m_entities m) = map (ch_entity \<circ> snd) cs" "drop i (m_num_rows m) = map (ch_num_rows \<circ> snd) cs"
  shows "classify m i (map fst cs) summaries =
    (filter_map (ref_for summaries) (filter (\<lambda>x. \<not> ch_static (snd x)) cs),
     map fst (filter (\<lambda>x. ch_static (snd x)) cs), length (filter (\<lambda>x. \<not> ch_static (snd x)) cs))"
  using assms
proof (induction cs arbitrary: i summaries)
  case (Cons x cs)
  obtain cid c where x: "x = (cid, c)" by fastforce
  have at: "get (m_is_static m) i = Some (ch_static c)" "get (m_entities m) i = Some (ch_entity c)"
    "get (m_num_rows m) i = Some (ch_num_rows c)"
    using Cons.prems(2-4) by (simp_all add: get_drop x)
  have IH: "classify m (Suc i) (map fst cs) S =
      (filter_map (ref_for S) (filter (\<lambda>x. \<not> ch_static (snd x)) cs),
       map fst (filter (\<lambda>x. ch_static (snd x)) cs), length (filter (\<lambda>x. \<not> ch_static (snd x)) cs))" for S
    by (rule Cons.IH) (use Cons.prems in \<open>auto dest: drop_Suc_tl\<close>)
  have "filter_map (ref_for (summaries(cid := None))) (filter (\<lambda>x. \<not> ch_static (snd x)) cs) =
      filter_map (ref_for summaries) (filter (\<lambda>x. \<not> ch_static (snd x)) cs)"
    using Cons.prems(1) by (intro filter_map_cong) (auto simp: x ref_for_def image_iff)
  then show ?case
    using at IH by (simp add: x ref_for_def [of _ "(cid, c)"] split: option.split)
qed simp

lemma entry_hull:
  assumes "entries_describe xs c" "times c RECV_TIMESTAMP = Some ts" "ts \<noteq> []"
  shows "xs \<noteq> []" "Min (set (map (\<lambda>(_, _, lo, _). lo) xs)) = Min (set ts)"
    "Max (set (map (\<lambda>(_, _, _, hi). hi) xs)) = Max (set ts)"
proof -
  have bounds: "\<forall>(n, i, lo, hi) \<in> set xs. lo \<in> set ts \<and> hi \<in> set ts"
    and cover: "\<forall>t \<in> set ts. \<exists>(n, i, lo, hi) \<in> set xs. lo \<le> t \<and> t \<le> hi"
    using assms(1,2) by (auto simp: entries_describe_def)
  show "xs \<noteq> []" using cover assms(3) by (cases ts) auto
  then have some: "set (map f xs) \<noteq> {}" for f :: "time_entry \<Rightarrow> i64" by simp
  show "Min (set (map (\<lambda>(_, _, lo, _). lo) xs)) = Min (set ts)"
  proof (rule antisym)
    have "Min (set ts) \<in> set ts" using assms(3) by simp
    then obtain n i lo hi where e: "(n, i, lo, hi) \<in> set xs" "lo \<le> Min (set ts)" using cover by blast
    then have "lo \<in> set (map (\<lambda>(_, _, lo, _). lo) xs)" by force
    then show "Min (set (map (\<lambda>(_, _, lo, _). lo) xs)) \<le> Min (set ts)"
      using e(2) by (meson List.finite_set Min_le order_trans)
    have "set (map (\<lambda>(_, _, lo, _). lo) xs) \<subseteq> set ts" using bounds by auto
    then show "Min (set ts) \<le> Min (set (map (\<lambda>(_, _, lo, _). lo) xs))"
      using some by (intro Min_antimono) simp_all
  qed
  show "Max (set (map (\<lambda>(_, _, _, hi). hi) xs)) = Max (set ts)"
  proof (rule antisym)
    have "Max (set ts) \<in> set ts" using assms(3) by simp
    then obtain n i lo hi where e: "(n, i, lo, hi) \<in> set xs" "Max (set ts) \<le> hi" using cover by blast
    then have "hi \<in> set (map (\<lambda>(_, _, _, hi). hi) xs)" by force
    then show "Max (set ts) \<le> Max (set (map (\<lambda>(_, _, _, hi). hi) xs))"
      using e(2) by (meson List.finite_set Max_ge order_trans)
    have "set (map (\<lambda>(_, _, _, hi). hi) xs) \<subseteq> set ts" using bounds by auto
    then show "Max (set (map (\<lambda>(_, _, _, hi). hi) xs)) \<le> Max (set ts)"
      using some by (intro Max_mono) simp_all
  qed
qed

lemma described_ref:
  assumes "entries_describe (entries_of cid es) c"
  shows "if timed c then \<exists>r. ref_for (summary_in es) (cid, c) = Some r \<and> refers_to r (cid, c)
    else ref_for (summary_in es) (cid, c) = None"
proof (cases "timed c")
  case True
  then obtain ts where ts: "times c RECV_TIMESTAMP = Some ts" "ts \<noteq> []"
    by (auto simp: timed_def split: option.splits)
  note hull = entry_hull [OF assms ts]
  have "set (map fst (entries_of cid es)) = set (map fst (ch_components c))"
    using assms ts by (simp add: entries_describe_def)
  then show ?thesis
    using True hull ts(1)
    by (cases "entries_of cid es") (auto simp: ref_for_def summary_in_def refers_to_def)
next
  case False
  then have "entries_of cid es = []"
    using assms by (cases "entries_of cid es")
      (auto simp: entries_describe_def timed_def split: option.splits)
  then show ?thesis using False by (simp add: ref_for_def summary_in_def)
qed

lemma described_refs:
  assumes "\<forall>(cid, c) \<in> set xs. entries_describe (entries_of cid es) c"
  shows "list_all2 refers_to (filter_map (ref_for (summary_in es)) xs) (filter (\<lambda>x. timed (snd x)) xs)"
  using assms
proof (induction xs)
  case (Cons x xs)
  obtain cid c where x: "x = (cid, c)" by fastforce
  then have "entries_describe (entries_of cid es) c" using Cons.prems by simp
  then show ?case using described_ref [of cid es c] Cons by (auto simp: x split: if_splits)
qed simp

lemma index_open_refs:
  assumes "f_opens file" "f_footer file = Inr (Some ((rid, Some m) # others))" "describes_file m cs"
  obtains ix refs where "index_open file = Inr (Some ix)" "ix_recording_id ix = rid" "index_wf ix"
    "ix_statics ix = map fst (filter (\<lambda>x. ch_static (snd x)) cs)"
    "ix_temporal_chunks ix = length (filter (\<lambda>x. \<not> ch_static (snd x)) cs)"
    "mset (ix_chunks ix) = mset refs"
    "list_all2 refers_to refs (filter (\<lambda>x. \<not> ch_static (snd x) \<and> timed (snd x)) cs)"
proof -
  let ?S = "summary_in (recv_entries m)" and ?temporal = "filter (\<lambda>x. \<not> ch_static (snd x)) cs"
  let ?refs = "filter_map (ref_for ?S) ?temporal"
  have "classify m 0 (m_chunk_ids m) (summarize m) =
      (?refs, map fst (filter (\<lambda>x. ch_static (snd x)) cs), length ?temporal)"
    using assms(3) by (simp add: describes_file_def classify_chunks summarize_summary)
  then obtain ix where ix: "index_open file = Inr (Some ix)" "ix_recording_id ix = rid"
    "ix_statics ix = map fst (filter (\<lambda>x. ch_static (snd x)) cs)"
    "ix_temporal_chunks ix = length ?temporal" "mset (ix_chunks ix) = mset ?refs"
    using assms(1,2) by (auto simp: index_open_def recompute_max_end_through_def)
  have "list_all2 refers_to ?refs (filter (\<lambda>x. timed (snd x)) ?temporal)"
    by (rule described_refs) (use assms(3) in \<open>auto simp: describes_file_def\<close>)
  then have "list_all2 refers_to ?refs (filter (\<lambda>x. \<not> ch_static (snd x) \<and> timed (snd x)) cs)"
    by (simp add: conj_commute)
  then show thesis by (rule that [OF ix(1,2) index_open_wf [OF ix(1)] ix(3-5)])
qed

text \<open>
  C8: opening a recording whose manifest describes its chunks indexes all of it. The index
  has one reference for every chunk of rows on the receive timeline, with its entity, its
  number of rows, its components and exactly the span of its receive times; the static
  chunks in file order; the count of the others; and it keeps the invariant playback needs.
\<close>

theorem index_open_describes:
  assumes "f_opens file" "f_footer file = Inr (Some ((rid, Some m) # others))" "describes_file m cs"
  shows "\<exists>ix refs. index_open file = Inr (Some ix) \<and> ix_recording_id ix = rid \<and> index_wf ix
    \<and> ix_statics ix = map fst (filter (\<lambda>x. ch_static (snd x)) cs)
    \<and> ix_temporal_chunks ix = length (filter (\<lambda>x. \<not> ch_static (snd x)) cs)
    \<and> mset (ix_chunks ix) = mset refs
    \<and> list_all2 refers_to refs (filter (\<lambda>x. \<not> ch_static (snd x) \<and> timed (snd x)) cs)"
  by (rule index_open_refs [OF assms]) blast

lemma bag_described: "describes_file bag_manifest (map (\<lambda>i. (i, bag_chunk i)) [10, 11, 12, 13])"
  by (simp add: describes_file_def bag_manifest_def bag_chunks topic_chunk_eval blob_chunk_def
      entries_describe_def entries_of_def recv_entries_def times_def RECV_TIMESTAMP_def)

theorem index_open_describes_witness:
  "\<exists>ix refs. index_open (bag_file True) = Inr (Some ix) \<and> mset (ix_chunks ix) = mset refs
     \<and> list_all2 refers_to refs [(11, bag_chunk 11), (12, bag_chunk 12)]"
proof -
  let ?cs = "map (\<lambda>i. (i, bag_chunk i)) [10, 11, 12, 13]"
  have "filter (\<lambda>x. \<not> ch_static (snd x) \<and> timed (snd x)) ?cs = [(11, bag_chunk 11), (12, bag_chunk 12)]"
    by (simp add: bag_chunks topic_chunk_eval blob_chunk_def timed_def times_def RECV_TIMESTAMP_def)
  then show ?thesis
    using index_open_describes [of "bag_file True" "''rec''" bag_manifest "[]" ?cs] bag_described
    by (auto simp: bag_file_def)
qed

end
