(* ===== verification/Values.thy ===== *)
theory Values
  imports Replay
begin

text \<open>
  What the encoder of \<open>replay.rs\<close> writes: the value a row holds, read out of the Arrow arrays
  along the plan without any bytes, and the serialization of a value, which knows nothing of
  arrays. The encoder is their composition, and fails exactly where a row holds no value.
\<close>

section \<open>Values\<close>

text \<open>A fixed array is told from a sequence, whose length goes on the wire.\<close>

datatype ros_value =
    BoolV bool | U8V "8 word" | I8V "8 word" | U16V "16 word" | I16V "16 word"
  | U32V "32 word" | I32V "32 word" | U64V "64 word" | I64V "64 word"
  | F32V "32 word" | F64V "64 word" | StringV string
  | MessageV "ros_value list" | FixedV "ros_value list" | SequenceV "ros_value list"

fun put :: "cdr_writer \<Rightarrow> ros_value \<Rightarrow> bytes \<Rightarrow> bytes" where
  "put cw (BoolV b) w = write_bool cw b w"
| "put cw (U8V b) w = write_u8 cw b w"
| "put cw (I8V b) w = write_i8 cw b w"
| "put cw (U16V b) w = write_u16 cw b w"
| "put cw (I16V b) w = write_i16 cw b w"
| "put cw (U32V b) w = write_u32 cw b w"
| "put cw (I32V b) w = write_i32 cw b w"
| "put cw (U64V b) w = write_u64 cw b w"
| "put cw (I64V b) w = write_i64 cw b w"
| "put cw (F32V b) w = write_f32 cw b w"
| "put cw (F64V b) w = write_f64 cw b w"
| "put cw (StringV s) w = write_string cw s w"
| "put cw (MessageV vs) w = fold (put cw) vs w"
| "put cw (FixedV vs) w = fold (put cw) vs w"
| "put cw (SequenceV vs) w = fold (put cw) vs (write_sequence_length cw (length vs) w)"

section \<open>The value of a row\<close>

fun cells :: "built_in \<Rightarrow> arrow \<Rightarrow> ros_value list option" where
  "cells BoolT a = map_option (map BoolV) (as_bool a)"
| "cells ByteT a = map_option (map U8V) (as_u8 a)"
| "cells CharT a = map_option (map U8V) (as_u8 a)"
| "cells UInt8T a = map_option (map U8V) (as_u8 a)"
| "cells Int8T a = map_option (map I8V) (as_i8 a)"
| "cells Int16T a = map_option (map I16V) (as_i16 a)"
| "cells UInt16T a = map_option (map U16V) (as_u16 a)"
| "cells Int32T a = map_option (map I32V) (as_i32 a)"
| "cells UInt32T a = map_option (map U32V) (as_u32 a)"
| "cells Int64T a = map_option (map I64V) (as_i64 a)"
| "cells UInt64T a = map_option (map U64V) (as_u64 a)"
| "cells Float32T a = map_option (map F32V) (as_f32 a)"
| "cells Float64T a = map_option (map F64V) (as_f64 a)"
| "cells (StringT b) a = map_option (map StringV \<circ> snd) (as_strings a)"
| "cells (WStringT b) a = None"

definition cons_value :: "ros_value option \<Rightarrow> ros_value list option \<Rightarrow> ros_value list option" where
  "cons_value v vs = (case v of None \<Rightarrow> None | Some x \<Rightarrow> map_option (Cons x) vs)"

function message_at :: "plan \<Rightarrow> nat \<Rightarrow> (string \<times> arrow) list \<Rightarrow> usize \<Rightarrow> ros_value list option"
  and fields_at ::
    "plan \<Rightarrow> (string \<times> value_layout) list \<Rightarrow> (string \<times> arrow) list \<Rightarrow> usize \<Rightarrow> ros_value list option"
  and value_at :: "plan \<Rightarrow> value_layout \<Rightarrow> arrow \<Rightarrow> usize \<Rightarrow> ros_value option"
  and elements_at :: "plan \<Rightarrow> value_layout \<Rightarrow> arrow \<Rightarrow> usize \<Rightarrow> usize \<Rightarrow> ros_value list option"
where
  "message_at plan message_id message row =
     (if length (plan_message plan message_id) = length message
      then fields_at plan (plan_message plan message_id) message row else None)"
| "fields_at plan [] columns row = Some []"
| "fields_at plan (f # fs) [] row = Some []"
| "fields_at plan (f # fs) (c # cs) row =
     cons_value (value_at plan (snd f) (snd c) row) (fields_at plan fs cs row)"
| "value_at plan (BuiltIn ty) array row = Option.bind (cells ty array) (\<lambda>vs. get vs row)"
| "value_at plan (Message message_id) array row =
     (case as_struct array of
        None \<Rightarrow> None
      | Some (n, nested) \<Rightarrow> map_option MessageV (message_at plan message_id nested row))"
| "value_at plan (Array element sz) array row =
     (case as_list array of
        None \<Rightarrow> None
      | Some list \<Rightarrow>
          if row + 1 \<ge> length (la_offsets list) then None
          else
            (let values = list_value list row;
                 vs = (case element of
                         BuiltIn ty \<Rightarrow> cells ty values
                       | _ \<Rightarrow> elements_at plan element values 0 (arr_len values))
             in (case sz of
                   Fixed expected \<Rightarrow> if arr_len values = expected then map_option FixedV vs else None
                 | _ \<Rightarrow> map_option SequenceV vs)))"
| "elements_at plan element array index len =
     (if index < len
      then cons_value (value_at plan element array index) (elements_at plan element array (Suc index) len)
      else Some [])"
  by pat_completeness auto

termination
  by (relation
      "measures
         [\<lambda>x. case x of
            Inl (Inl (plan, i, m, row)) \<Rightarrow> fields_depth m
          | Inl (Inr (plan, fs, cs, row)) \<Rightarrow> fields_depth cs
          | Inr (Inl (plan, l, a, row)) \<Rightarrow> arr_depth a
          | Inr (Inr (plan, l, a, i, n)) \<Rightarrow> arr_depth a,
          \<lambda>x. case x of
            Inl (Inl _) \<Rightarrow> 2
          | Inl (Inr _) \<Rightarrow> 1
          | Inr (Inl _) \<Rightarrow> 0
          | Inr (Inr _) \<Rightarrow> 1,
          \<lambda>x. case x of
            Inl (Inl _) \<Rightarrow> 0
          | Inl (Inr (plan, fs, cs, row)) \<Rightarrow> length fs
          | Inr (Inl _) \<Rightarrow> 0
          | Inr (Inr (plan, l, a, i, n)) \<Rightarrow> n - i]")
    (auto dest: as_struct_depth list_value_depth simp: le_max_iff_disj not_le)

declare elements_at.simps [simp del]

section \<open>The encoder\<close>

text \<open>Writing a value where there is one, failing where there is none.\<close>

definition writes :: "('v \<Rightarrow> bytes) \<Rightarrow> 'v option \<Rightarrow> bytes result \<Rightarrow> bool" where
  "writes f v r = (case v of None \<Rightarrow> isl r | Some x \<Rightarrow> r = Inr (f x))"

lemma writes_simps [simp]:
  "writes f None r = isl r" "writes f (Some x) r = (r = Inr (f x))" "writes f v (Inl e) = (v = None)"
  by (simp_all add: writes_def split: option.split)

lemma write_value_writes:
  assumes "\<And>x w. write x w = put cw (con x) w"
  shows "writes (\<lambda>v. put cw v w) (Option.bind (map_option (map con) cast) (\<lambda>vs. get vs row))
    (write_value label cast write row w)"
  by (cases cast) (simp_all add: write_value_def get_def assms)

lemma write_each_writes:
  assumes "\<And>x w. write x w = put cw (con x) w"
  shows "writes (\<lambda>vs. fold (put cw) vs w) (map_option (map con) cast) (write_each label cast write w)"
proof -
  have "fold write xs w = fold (put cw) (map con xs) w" for xs w
    by (induction xs arbitrary: w) (simp_all add: assms)
  then show ?thesis by (cases cast) (simp_all add: write_each_def)
qed

lemma builtin_writes:
  "writes (\<lambda>v. put cw v w) (value_at plan (BuiltIn ty) a row) (encode_builtin cw ty a row w)"
proof (cases ty)
  case (StringT b)
  then show ?thesis
    using write_value_writes [of "write_string cw" cw StringV w "map_option snd (as_strings a)" row "''string''"]
    by (simp add: option.map_comp)
qed (simp_all add: write_value_writes)

lemma builtin_array_writes:
  "writes (\<lambda>vs. fold (put cw) vs w) (cells ty a) (encode_builtin_array cw ty a w)"
proof (cases ty)
  case (StringT b)
  then show ?thesis
    using write_each_writes [of "write_string cw" cw StringV w "map_option snd (as_strings a)" "''string''"]
    by (simp add: option.map_comp)
qed (simp_all add: write_each_writes)

lemma cells_length: "cells ty a = Some vs \<Longrightarrow> length vs = arr_len a"
  by (cases ty) (auto simp: downcast_len)

lemma elements_length: "elements_at plan l a i n = Some vs \<Longrightarrow> length vs = n - i"
proof (induction "n - i" arbitrary: i vs)
  case 0
  then show ?case by (simp add: elements_at.simps [of plan l a i])
next
  case (Suc d)
  then have "i < n" by simp
  with Suc.prems obtain x ys where "elements_at plan l a (Suc i) n = Some ys" "vs = x # ys"
    by (auto simp: elements_at.simps [of plan l a i] cons_value_def split: option.splits)
  then show ?case using Suc.hyps(1) [of "Suc i" ys] Suc.hyps(2) by simp
qed

lemma writes_cons:
  assumes "writes (\<lambda>v. put cw v w) v r" "\<And>w'. r = Inr w' \<Longrightarrow> writes (\<lambda>vs. fold (put cw) vs w') vs (rs w')"
  shows "writes (\<lambda>vs. fold (put cw) vs w) (cons_value v vs) (case r of Inl e \<Rightarrow> Inl e | Inr w' \<Rightarrow> rs w')"
  using assms by (cases v; cases vs; cases r) (auto simp: cons_value_def)

lemma writes_map [simp]: "writes f (map_option g v) r = writes (f \<circ> g) v r"
  by (cases v) simp_all

lemma encode_writes:
  "writes (\<lambda>vs. fold (put cw) vs w) (message_at plan i m row) (encode_message cw plan i m row w)"
  "writes (\<lambda>vs. fold (put cw) vs w) (fields_at plan fs cs row) (encode_fields cw plan fs cs row w)"
  "writes (\<lambda>v. put cw v w) (value_at plan l a row) (encode_value cw plan l a row w)"
  "writes (\<lambda>vs. fold (put cw) vs w) (elements_at plan l a index len) (encode_elements cw plan l a index len w)"
proof (induction cw plan i m row w and cw plan fs cs row w and cw plan l a row w and cw plan l a index len w
    rule: encode_message_encode_fields_encode_value_encode_elements.induct)
  case (5 cw plan ty a row w)
  then show ?case using builtin_writes [of cw w plan ty a row] by simp
next
  case (7 cw plan element sz a row w)
  show ?case
  proof (cases "as_list a")
    case (Some list)
    let ?items = "list_value list row"
    let ?len = "arr_len ?items"
    show ?thesis
    proof (cases "row + 1 \<ge> length (la_offsets list)")
      case False
      let ?vs = "case element of BuiltIn ty \<Rightarrow> cells ty ?items | _ \<Rightarrow> elements_at plan element ?items 0 ?len"
      have inner: "writes (\<lambda>vs. fold (put cw) vs w') ?vs
          (case element of
             BuiltIn ty \<Rightarrow> encode_builtin_array cw ty ?items w'
           | _ \<Rightarrow> encode_elements cw plan element ?items 0 ?len w')"
        if "(case sz of
               Fixed expected \<Rightarrow> if ?len = expected then Inr w else Inl (FixedSize ?len expected)
             | Bounded _ \<Rightarrow> Inr (write_sequence_length cw ?len w)
             | Unbounded \<Rightarrow> Inr (write_sequence_length cw ?len w)) = Inr w'" for w'
        using "7.IH" Some False that by (cases element) (simp_all add: builtin_array_writes)
      have len: "length vs = ?len" if "?vs = Some vs" for vs
        using that by (cases element) (auto dest: cells_length elements_length)
      show ?thesis
        using Some False inner len
        by (cases sz; cases ?vs) (auto simp: Let_def split: if_splits)
    qed (use Some in simp)
  qed simp
next
  case (8 cw plan l a index len w)
  then show ?case
    by (simp add: elements_at.simps [of plan l a index] encode_elements.simps [of cw plan l a index] writes_cons)
qed (auto simp: writes_cons comp_def split: option.split)

lemma encode_values:
  "message_at plan (plan_root plan) root row = None \<Longrightarrow> isl (encode cw plan root row)"
  "message_at plan (plan_root plan) root row = Some vs \<Longrightarrow>
     encode cw plan root row = Inr (ENCAPSULATION @ put cw (MessageV vs) [])"
  using encode_writes(1) [of cw "[]" plan "plan_root plan" root row]
  by (auto simp: encode_def split: sum.splits)

text \<open>
  C26: \<open>encode\<close> is a serializer of values. Where a row of the column holds a value of the
  plan's type, read by following the plan through structs, lists and slices, \<open>encode\<close> gives
  the encapsulation header and then the serialization of that value, field by field, which
  does not depend on how the arrays lay it out; where it does not (a wrong column type, a
  missing field, a fixed array of another length, a row out of range, a \<open>wstring\<close>),
  \<open>encode\<close> fails.
\<close>

theorem encode_serializes_values:
  "case message_at plan (plan_root plan) root row of
     None \<Rightarrow> isl (encode cw plan root row)
   | Some vs \<Rightarrow> encode cw plan root row = Inr (ENCAPSULATION @ put cw (MessageV vs) [])"
  by (cases "message_at plan (plan_root plan) root row") (simp_all add: encode_values)

declare message_at.simps [simp del]

end
