(* ===== verification/Reopening.thy ===== *)
theory Reopening
  imports Ledger Manifest Replaying Values
begin

text \<open>
  From the writer to the reader: a bag that was recorded and closed, opened and read to the
  end. The chunks the ledger accounts for are loaded as windows, the static chunks come back
  as topics, and playback delivers the messages of the ledger.
\<close>

section \<open>A chunk of messages as a window\<close>

text \<open>
  What the decoder has to do for a message to come back out of its struct: the row it made of
  the bytes holds the value \<open>decoded\<close> of them under the topic's plan. The bytes are canonical
  where they are the serialization of their value, which \<open>replay.rs\<close> writes.
\<close>

definition known_plan :: "('e, 'd, 'u) writer_env \<Rightarrow> plan \<Rightarrow> bool" where
  "known_plan env plan \<longleftrightarrow> (\<exists>type_name text. pe_plan (we_pipeline env) type_name text = Some plan)"

definition decodes_values ::
  "('e, 'd, 'u) writer_env \<Rightarrow> ('d, 'v) meaning \<Rightarrow> (plan \<Rightarrow> bytes \<Rightarrow> ros_value list) \<Rightarrow> bool" where
  "decodes_values env M decoded \<longleftrightarrow>
     (\<forall>plan cdr a i. known_plan env plan \<longrightarrow> i < length (me_rows M a) \<longrightarrow>
        me_rows M a ! i = Some (me_val M plan cdr) \<longrightarrow>
        (\<exists>n fs. as_struct (la_values a) = Some (n, fs)
           \<and> message_at plan (plan_root plan) fs i = Some (decoded plan cdr)))"

definition canonical :: "cdr_writer \<Rightarrow> (plan \<Rightarrow> bytes \<Rightarrow> ros_value list) \<Rightarrow> plan \<Rightarrow> bytes \<Rightarrow> bool" where
  "canonical cw decoded plan cdr \<longleftrightarrow> cdr = ENCAPSULATION @ put cw (MessageV (decoded plan cdr)) []"

lemma decoded_row:
  assumes "decodes_values env M decoded" "known_plan env plan" "i < length (me_rows M a)"
    and "me_rows M a ! i = Some (me_val M plan cdr)"
  shows "\<exists>n fs. as_struct (la_values a) = Some (n, fs)
    \<and> (canonical cw decoded plan cdr \<longrightarrow> encode cw plan fs i = Inr cdr)"
proof -
  obtain n fs where "as_struct (la_values a) = Some (n, fs)"
    "message_at plan (plan_root plan) fs i = Some (decoded plan cdr)"
    using assms unfolding decodes_values_def by blast
  then show ?thesis using encode_values(2) [of plan fs i _ cw] by (auto simp: canonical_def)
qed

definition message_row :: "usize \<Rightarrow> incoming \<Rightarrow> row" where
  "message_row k m = ((in_recv m, in_sequence m), k, in_send m, Inr (in_cdr m))"

lemma struct_array:
  assumes "message_chunk (me_rows M) (me_val M plan) keep cols c mds" "decodes_values env M decoded"
    and known: "\<And>md. md \<in> set mds \<Longrightarrow> snd md \<Longrightarrow> known_plan env plan"
    and "col_reflected cols = Some d" "column c d = Some a"
  obtains n fs where "as_struct (la_values a) = Some (n, fs)"
    "\<And>i. i < length mds \<Longrightarrow> snd (mds ! i) \<Longrightarrow> canonical cw decoded plan (in_cdr (fst (mds ! i))) \<Longrightarrow>
       encode cw plan fs i = Inr (in_cdr (fst (mds ! i)))"
proof -
  have bind: "Option.bind (col_reflected cols) (column c) = Some a" using assms(4,5) by simp
  then have len: "length (me_rows M a) = length mds"
    and cell: "\<And>i. i < length mds \<Longrightarrow> me_rows M a ! i = struct_form (me_val M plan) (mds ! i)"
    and "\<not> (\<forall>md \<in> set mds. struct_form (me_val M plan) md = None)"
    using assms(1) unfolding message_chunk_def struct_cell_def by auto
  then obtain j where j: "j < length mds" "snd (mds ! j)"
    by (auto simp: struct_form_def in_set_conv_nth split: if_splits)
  have row: "\<exists>n fs. as_struct (la_values a) = Some (n, fs)
      \<and> (canonical cw decoded plan (in_cdr (fst (mds ! i))) \<longrightarrow> encode cw plan fs i = Inr (in_cdr (fst (mds ! i))))"
    if "i < length mds" "snd (mds ! i)" for i
  proof -
    have "me_rows M a ! i = Some (me_val M plan (in_cdr (fst (mds ! i))))"
      using cell [OF that(1)] that(2) by (simp add: struct_form_def)
    then show ?thesis using decoded_row [OF assms(2) known [OF nth_mem]] that len by simp
  qed
  obtain n fs where "as_struct (la_values a) = Some (n, fs)" using row [OF j] by blast
  then show thesis using that row by fastforce
qed

lemma message_window:
  assumes "message_chunk (me_rows M) (me_val M plan) keep cols c mds" "decodes_values env M decoded"
    and known: "\<And>md. md \<in> set mds \<Longrightarrow> snd md \<Longrightarrow> known_plan env plan"
    and "mds \<noteq> []" "ti_columns (topics ! k) = cols"
    and "\<And>md. md \<in> set mds \<Longrightarrow> snd md \<Longrightarrow>
      ti_plan (topics ! k) = Some plan \<and> (keep \<or> canonical cw decoded plan (in_cdr (fst md)))"
  obtains w where "load_window c k (topics ! k) = Inr (Some w)" "same_length w" "\<not> w_reversed w"
    "w_next w = 0" "w_recv w = map (in_recv \<circ> fst) mds"
    "pending cw topics w = map (message_row k \<circ> fst) mds"
proof -
  let ?recv = "map (in_recv \<circ> fst) mds" and ?send = "map (in_send \<circ> fst) mds"
    and ?seq = "map (in_sequence \<circ> fst) mds"
  have times: "times c RECV_TIMESTAMP = Some ?recv" "times c SEND_TIMESTAMP = Some ?send"
    "times c SEQUENCE_NUMBER = Some ?seq"
    and blob: "\<And>i. i < length mds \<Longrightarrow> blob_row cols c i = blob_form keep (mds ! i)"
    and raw: "(column c (col_raw cols) = None) = (\<forall>md \<in> set mds. blob_form keep md = None)"
    and reflected: "(Option.bind (col_reflected cols) (column c) = None) =
        (\<forall>md \<in> set mds. struct_form (me_val M plan) md = None)"
    using assms(1) by (simp_all add: message_chunk_def)
  define messages where "messages =
    (case Option.bind (col_reflected cols) (column c) of
       None \<Rightarrow> None | Some a \<Rightarrow> map_option snd (as_struct (la_values a)))"
  have structs: "\<exists>fs. messages = Some fs
      \<and> (canonical cw decoded plan (in_cdr (fst (mds ! i))) \<longrightarrow> encode cw plan fs i = Inr (in_cdr (fst (mds ! i))))"
    if "i < length mds" "snd (mds ! i)" for i
  proof -
    have "struct_form (me_val M plan) (mds ! i) \<noteq> None" using that(2) by (simp add: struct_form_def)
    then have "Option.bind (col_reflected cols) (column c) \<noteq> None"
      using reflected nth_mem [OF that(1)] by metis
    then obtain d a where a: "col_reflected cols = Some d" "column c d = Some a"
      by (cases "col_reflected cols") auto
    obtain n fs where "as_struct (la_values a) = Some (n, fs)"
      "\<And>i. i < length mds \<Longrightarrow> snd (mds ! i) \<Longrightarrow> canonical cw decoded plan (in_cdr (fst (mds ! i))) \<Longrightarrow>
         encode cw plan fs i = Inr (in_cdr (fst (mds ! i)))"
      by (rule struct_array [OF assms(1,2) _ a, where cw = cw]) (use known in \<open>blast+\<close>)
    then show ?thesis using that a by (simp add: messages_def)
  qed
  let ?w = "\<lparr>w_topic = k, w_recv = ?recv, w_send = ?send, w_seq = ?seq,
      w_blobs = column c (col_raw cols), w_messages = messages, w_next = 0, w_reversed = False\<rparr>"
  have inner: "(case col_reflected cols of
        None \<Rightarrow> Inr None
      | Some reflected \<Rightarrow>
          (case column c reflected of
             None \<Rightarrow> Inr None
           | Some list \<Rightarrow>
               (case as_struct (la_values list) of
                  None \<Rightarrow> Inl NotAStruct
                | Some (n, fs) \<Rightarrow> Inr (Some fs)))) = (Inr messages :: (string \<times> arrow) list option result)"
  proof (cases "Option.bind (col_reflected cols) (column c)")
    case None
    then show ?thesis
      by (cases "col_reflected cols") (simp_all add: messages_def)
  next
    case (Some a)
    then obtain d where d: "col_reflected cols = Some d" "column c d = Some a"
      by (cases "col_reflected cols") auto
    obtain n fs where "as_struct (la_values a) = Some (n, fs)"
      by (rule struct_array [OF assms(1,2) _ d, where cw = cw]) (use known in \<open>blast+\<close>)
    then show ?thesis using d by (simp add: messages_def)
  qed
  have some: "\<not> (column c (col_raw cols) = None \<and> messages = None)"
  proof
    assume none: "column c (col_raw cols) = None \<and> messages = None"
    have "hd mds \<in> set mds" using assms(4) by simp
    then obtain i where i: "i < length mds" "mds ! i = hd mds" by (auto simp: in_set_conv_nth)
    then show False
      using none raw structs [OF i(1)] form_kept [of keep "hd mds" "me_val M plan"] \<open>hd mds \<in> set mds\<close>
      by (auto simp: struct_form_def split: if_splits)
  qed
  have load: "load_window c k (topics ! k) = Inr (Some ?w)"
    unfolding load_window_def times assms(5) Let_def inner using some by simp
  have payload: "row_payload cw topics ?w i = Inr (in_cdr (fst (mds ! i)))" if i: "i < length mds" for i
  proof (cases "keep \<or> \<not> snd (mds ! i)")
    case True
    then have "blob_row cols c i = Some (in_cdr (fst (mds ! i)))"
      using blob [OF i] by (auto simp: blob_form_def)
    then show ?thesis
      by (simp add: row_payload_def data_row_def blob_row_def split: option.splits)
  next
    case False
    then have "blob_row cols c i = None" using blob [OF i] by (simp add: blob_form_def)
    then have none: "(case column c (col_raw cols) of None \<Rightarrow> None | Some l \<Rightarrow> blob_at l i) = None"
      by (simp add: blob_row_def)
    have "ti_plan (topics ! k) = Some plan" "canonical cw decoded plan (in_cdr (fst (mds ! i)))"
      using assms(6) [of "mds ! i"] False i by auto
    then show ?thesis using structs [OF i] False none by (auto simp: row_payload_def data_row_def)
  qed
  have "pending cw topics ?w = map (\<lambda>i. message_row k (fst (mds ! i))) [0..<length mds]"
    by (auto simp: pending_def row_at_def sequence_number_def get_def payload message_row_def)
  also have "\<dots> = map (message_row k \<circ> fst) mds"
    by (rule nth_equalityI) simp_all
  finally show thesis by (intro that [OF load]) (simp_all add: same_length_def)
qed

section \<open>The file\<close>

text \<open>
  The SDK keeps what it is sent: the file has the chunks of the log in order, a property as a
  static chunk that carries its text. A file that was closed properly ends in a footer whose
  manifest describes them. One that was cut short has none, or one that cannot be read, and is
  scanned; of what its bytes decode to, the items that fail are skipped.
\<close>

fun sent_chunk :: "(string \<Rightarrow> string \<Rightarrow> 'e chunk) \<Rightarrow> 'e sent \<Rightarrow> 'e chunk" where
  "sent_chunk prop (SentChunk c) = c"
| "sent_chunk prop (SentProperty name yaml) = prop name yaml"

definition decoded_items :: "'e log_msg result list \<Rightarrow> 'e log_msg list" where
  "decoded_items items = filter_map (\<lambda>r. case r of Inl _ \<Rightarrow> None | Inr m \<Rightarrow> Some m) items"

definition stores_log :: "'e rrd_file \<Rightarrow> 'e chunk list \<Rightarrow> bool" where
  "stores_log file chunks \<longleftrightarrow>
     (isl (f_footer file) \<or> f_footer file = Inr None)
     \<and> (\<exists>items. f_decode file = Some items \<and> decoded_items items \<noteq> []
          \<and> filter_map chunk_of (decoded_items items) = chunks)"

definition stores_index :: "'e rrd_file \<Rightarrow> 'e chunk list \<Rightarrow> bool" where
  "stores_index file chunks \<longleftrightarrow>
     (\<exists>rid m others cs. f_footer file = Inr (Some ((rid, Some m) # others)) \<and> describes_file m cs
        \<and> map snd cs = chunks
        \<and> (\<forall>ids. set ids \<subseteq> set (map fst cs) \<longrightarrow>
             f_read_chunks file ids = Inr (map (\<lambda>cid. the (map_of cs cid)) ids)))"

definition stores :: "'e rrd_file \<Rightarrow> (string \<Rightarrow> string \<Rightarrow> 'e chunk) \<Rightarrow> 'e sent list \<Rightarrow> bool" where
  "stores file prop ss \<longleftrightarrow>
     f_opens file
     \<and> (stores_log file (map (sent_chunk prop) ss) \<or> stores_index file (map (sent_chunk prop) ss))"

definition keeps_metadata :: "(string \<Rightarrow> string \<Rightarrow> 'e chunk) \<Rightarrow> 'e \<Rightarrow> bool" where
  "keeps_metadata prop property_path \<longleftrightarrow>
     (\<forall>yaml. ch_static (prop METADATA_PROPERTY yaml)
        \<and> read_metadata_property property_path (prop METADATA_PROPERTY yaml) = Inr (Some yaml))"

lemma stores_scan:
  assumes "f_opens file" "stores_log file chunks"
  obtains msgs where "scan file = Inr msgs" "index_open file = Inr None" "msgs \<noteq> []"
    "filter_map chunk_of msgs = chunks"
proof -
  have "index_open file = Inr None"
    using assms by (cases "f_footer file") (simp_all add: stores_log_def index_open_def)
  moreover obtain items where items: "f_decode file = Some items" "decoded_items items \<noteq> []"
    "filter_map chunk_of (decoded_items items) = chunks"
    using assms(2) unfolding stores_log_def by blast
  then have "scan file = Inr (decoded_items items)"
    using assms(1) by (simp add: scan_def decoded_items_def)
  ultimately show thesis using that items(2,3) by blast
qed

text \<open>A reference of the index through which a chunk is loaded.\<close>

definition leads_to :: "'e rrd_file \<Rightarrow> 'e chunk_ref \<Rightarrow> 'e chunk \<Rightarrow> bool" where
  "leads_to file r c \<longleftrightarrow>
     index_load file [cr_id r] = Inr [c] \<and> cr_entity r = ch_entity c
     \<and> set (cr_components r) = set (map fst (ch_components c))
     \<and> cr_num_rows r = ch_num_rows c
     \<and> (\<forall>ts. times c RECV_TIMESTAMP = Some ts \<longrightarrow> cr_start r = Min (set ts) \<and> cr_end r = Max (set ts))"

lemma loads_known:
  assumes "distinct (map fst cs)"
  shows "map (\<lambda>cid. the (map_of cs cid)) (map fst (filter P cs)) = map snd (filter P cs)"
proof -
  have "the (map_of cs (fst x)) = snd x" if "x \<in> set cs" for x
    using assms that by (cases x) simp
  then show ?thesis by simp
qed

lemma stores_indexed:
  assumes "f_opens file" "stores_index file chunks"
  obtains ix refs where "index_open file = Inr (Some ix)"
    "index_load file (ix_statics ix) = Inr (filter ch_static chunks)"
    "ix_temporal_chunks ix = length (filter (\<lambda>c. \<not> ch_static c) chunks)" "mset (ix_chunks ix) = mset refs"
    "list_all2 (leads_to file) refs (filter (\<lambda>c. \<not> ch_static c \<and> timed c) chunks)"
proof -
  obtain rid m others cs where disk: "f_footer file = Inr (Some ((rid, Some m) # others))"
    "describes_file m cs" "map snd cs = chunks"
    "\<And>ids. set ids \<subseteq> set (map fst cs) \<Longrightarrow> f_read_chunks file ids = Inr (map (\<lambda>cid. the (map_of cs cid)) ids)"
    using assms(2) unfolding stores_index_def by blast
  have distinct: "distinct (map fst cs)" using disk(2) by (simp add: describes_file_def)
  obtain ix refs where ix: "index_open file = Inr (Some ix)"
    "ix_statics ix = map fst (filter (\<lambda>x. ch_static (snd x)) cs)"
    "ix_temporal_chunks ix = length (filter (\<lambda>x. \<not> ch_static (snd x)) cs)"
    "mset (ix_chunks ix) = mset refs"
    "list_all2 refers_to refs (filter (\<lambda>x. \<not> ch_static (snd x) \<and> timed (snd x)) cs)"
    using index_open_refs [OF assms(1) disk(1,2)] by blast
  have snds: "map snd (filter (\<lambda>x. P (snd x)) cs) = filter P chunks" for P
    by (simp add: disk(3) [symmetric] filter_map comp_def)
  have load: "index_load file (map fst (filter P cs)) = Inr (map snd (filter P cs))" for P
  proof -
    have "set (map fst (filter P cs)) \<subseteq> set (map fst cs)" by auto
    from disk(4) [OF this] show ?thesis using loads_known [OF distinct, of P] by (auto simp: index_load_def)
  qed
  have leads: "leads_to file r (snd x)" if "refers_to r x" "x \<in> set cs" for r x
  proof -
    obtain cid c where x: "x = (cid, c)" by fastforce
    have "f_read_chunks file [cid] = Inr [c]"
      using disk(4) [of "[cid]"] that(2) distinct by (force simp: x)
    then show ?thesis using that(1) by (auto simp: x refers_to_def leads_to_def index_load_def)
  qed
  have "list_all2 (leads_to file) refs (map snd (filter (\<lambda>x. \<not> ch_static (snd x) \<and> timed (snd x)) cs))"
    unfolding list_all2_map2
    by (rule list.rel_mono_strong [OF ix(5)]) (use leads in \<open>simp\<close>)
  then show thesis
    using that [OF ix(1) _ _ ix(4)] ix(2,3) load [of "\<lambda>x. ch_static (snd x)"] snds [of ch_static]
      arg_cong [OF snds [of "\<lambda>c. \<not> ch_static c"], of length]
    by (simp add: snds [of "\<lambda>c. \<not> ch_static c \<and> timed c"])
qed

lemma scan_all_collects:
  "scan_all p msgs acc =
     (case collect_all p (filter ch_static (filter_map chunk_of msgs)) acc of
        Inl e \<Rightarrow> Inl e
      | Inr acc' \<Rightarrow>
          Inr (acc', map scan_chunk (filter (\<lambda>c. \<not> ch_static c) (filter_map chunk_of msgs))))"
  by (induction p msgs acc rule: scan_all.induct) (auto split: option.split sum.split)

lemma collect_all_append:
  "collect_all p (xs @ ys) acc =
     (case collect_all p xs acc of Inl e \<Rightarrow> Inl e | Inr acc' \<Rightarrow> collect_all p ys acc')"
  by (induction p xs acc rule: collect_all.induct) (simp_all split: sum.split)

section \<open>The topics that are found\<close>

fun declared :: "(string \<Rightarrow> 'e::linorder) \<Rightarrow> entry list \<Rightarrow> 'e found \<Rightarrow> 'e found" where
  "declared entity [] found = found"
| "declared entity (Declared r # es) found =
     declared entity es (bt_entry (entity (rec_topic r)) (\<lambda>_. statics_of r) found)"
| "declared entity (Flushed i mds # es) found = declared entity es found"

lemma message_chunk_temporal: "chunk_of_topic env M asked r mds c \<Longrightarrow> \<not> ch_static c"
  by (simp add: chunk_of_topic_def message_chunk_def)

lemma collect_entries:
  assumes "builds_chunks (pe_chunk (we_pipeline env))" "\<forall>name. we_entity env name \<noteq> p"
    and "list_all2 (entry_sent env M asked rs) es ss"
  shows "collect_all p (filter ch_static (map (sent_chunk prop) ss)) (found, yaml) =
    Inr (declared (we_entity env) es found, yaml)"
  using assms(3)
proof (induction arbitrary: found rule: list_all2_induct)
  case (Cons e es s ss)
  show ?case
  proof (cases e)
    case (Declared r)
    then obtain c where c: "s = SentChunk c"
      "topic_statics_chunk (pe_chunk (we_pipeline env)) (we_entity env (rec_topic r)) r = Inr c"
      using Cons.hyps(1) by (auto simp: entry_sent_def)
    show ?thesis
      using collect_declared [OF assms(1) c(2)] assms(2) Cons.IH
      by (simp add: Declared c(1))
  next
    case (Flushed i mds)
    then obtain c where c: "s = SentChunk c" "chunk_of_topic env M asked (rs ! i) mds c"
      using Cons.hyps(1) by (auto simp: entry_sent_def)
    from message_chunk_temporal [OF c(2)] show ?thesis using Cons.IH c(1) by (simp add: Flushed)
  qed
qed simp

lemma declared_sorted: "bt_sorted found \<Longrightarrow> bt_sorted (declared entity es found)"
  by (induction entity es found rule: declared.induct) (simp_all add: bt_sorted_entry)

lemma declared_found:
  assumes "bt_sorted found" "map_of (declared entity es found) e = Some s"
  shows "map_of found e = Some s \<or> (\<exists>r. Declared r \<in> set es \<and> e = entity (rec_topic r) \<and> s = statics_of r)"
  using assms
proof (induction entity es found rule: declared.induct)
  case (2 entity r es found)
  from "2.IH" [OF bt_sorted_entry [OF "2.prems"(1)]] "2.prems" show ?case
    by (auto simp: map_of_bt_entry split: if_splits)
qed auto

lemma declared_keys:
  "fst ` set (declared entity es found) = fst ` set found \<union> {entity (rec_topic r) |r. Declared r \<in> set es}"
proof (induction entity es found rule: declared.induct)
  case (2 entity r es found)
  have "fst ` set (bt_entry (entity (rec_topic r)) (\<lambda>_. statics_of r) found) =
      insert (entity (rec_topic r)) (fst ` set found)"
    using bt_entry_keys [of "entity (rec_topic r)" "\<lambda>_. statics_of r" found] by simp
  then show ?case using "2.IH" by auto
qed auto

lemma declared_topic:
  assumes "Declared r \<in> set es"
    and "\<And>r'. Declared r' \<in> set es \<Longrightarrow> entity (rec_topic r') = entity (rec_topic r) \<Longrightarrow> r' = r"
  shows "map_of (declared entity es []) (entity (rec_topic r)) = Some (statics_of r)"
proof -
  have "entity (rec_topic r) \<in> fst ` set (declared entity es [])"
    using assms(1) declared_keys [of entity es "[]"] by auto
  then obtain s where s: "map_of (declared entity es []) (entity (rec_topic r)) = Some s"
    by (meson map_of_eq_None_iff not_None_eq)
  then have "s = statics_of r" using declared_found [of "[]", OF _ s] assms(2) by auto
  then show ?thesis using s by simp
qed

section \<open>The topics of the reader\<close>

definition info_of :: "(string \<Rightarrow> bool) \<Rightarrow> topic_record \<Rightarrow> topic_info" where
  "info_of ok r =
     \<lparr>ti_name = rec_topic r, ti_type_name = rec_type_name r, ti_schema_encoding = rec_schema_encoding r,
      ti_schema_text = rec_schema_text r, ti_qos_profiles = rec_qos_profiles r,
      ti_type_hash = rec_type_hash r, ti_message_count = 0,
      ti_columns = columns_for_type ok (rec_type_name r), ti_plan = None\<rparr>"

lemma topic_info_of_statics: "topic_info_of ok (statics_of r) = Some (info_of ok r)"
  by (simp add: topic_info_of_def statics_of_def info_of_def Let_def)

lemma index_topics_all:
  "\<forall>x \<in> set found. topic_info_of ok (snd x) \<noteq> None \<Longrightarrow>
     index_topics ok found ts ix =
       (ts @ map (\<lambda>x. the (topic_info_of ok (snd x))) found,
        ix @ zip (map fst found) [length ts..<length ts + length found])"
proof (induction found arbitrary: ts ix)
  case (Cons x found)
  obtain e s where x: "x = (e, s)" by fastforce
  have "[length ts..<length ts + length (x # found)] = length ts # [Suc (length ts)..<Suc (length ts) + length found]"
    using upt_conv_Cons [of "length ts" "length ts + length (x # found)"] by simp
  then show ?case using Cons.IH [of "ts @ [the (topic_info_of ok s)]" "ix @ [(e, length ts)]"] Cons.prems
    by (auto simp: x)
qed simp

lemma index_topics_at:
  assumes "\<forall>x \<in> set found. topic_info_of ok (snd x) \<noteq> None" "distinct (map fst found)"
    and "map_of found e = Some s"
  shows "\<exists>k < length found. map_of (snd (index_topics ok found [] [])) e = Some k
    \<and> fst (index_topics ok found [] []) ! k = the (topic_info_of ok s)"
proof -
  have "(e, s) \<in> set found" using assms(3) by (rule map_of_SomeD)
  then obtain k where k: "k < length found" "found ! k = (e, s)" by (auto simp: in_set_conv_nth)
  have "map_of (zip (map fst found) [0..<length found]) (map fst found ! k) = Some ([0..<length found] ! k)"
    by (rule map_of_zip_nth) (use assms(2) k(1) in \<open>simp_all\<close>)
  then show ?thesis using k by (auto simp: index_topics_all [OF assms(1)])
qed

lemma marked_stays: "xs ! k \<Longrightarrow> k < length xs \<Longrightarrow> xs[a := xs ! a \<or> b] ! k"
  by (cases "a = k") simp_all

lemma tally_keeps:
  "snd acc ! k \<Longrightarrow> k < length (snd acc) \<Longrightarrow> snd (tally topics ix seen acc) ! k"
proof (induction topics ix seen acc rule: tally.induct)
  case (2 topics ix entity components rows chunks counts re_encodes)
  then show ?case
    by (cases "counted topics ix entity components") (auto simp: marked_stays)
qed simp

lemma tally_structs:
  "(e, comps, n) \<in> set seen \<Longrightarrow> counted topics ix e comps = Some k \<Longrightarrow>
     holds_structs (ti_columns (topics ! k)) comps \<Longrightarrow> k < length (snd acc) \<Longrightarrow>
     snd (tally topics ix seen acc) ! k"
proof (induction topics ix seen acc rule: tally.induct)
  case (2 topics ix entity components rows chunks counts re_encodes)
  show ?case
  proof (cases "(e, comps, n) = (entity, components, rows)")
    case True
    then show ?thesis using "2.prems" by (auto intro!: tally_keeps)
  next
    case False
    then show ?thesis using "2.IH" "2.prems" by (auto split: option.split)
  qed
qed simp

lemma structs_are_messages: "holds_structs cols comps \<Longrightarrow> holds_messages cols comps"
  by (auto simp: holds_structs_def holds_messages_def list_ex_iff)

lemma reader_of_topic:
  assumes "\<forall>x \<in> set found. topic_info_of (env_archetype_ok env) (snd x) \<noteq> None" "distinct (map fst found)"
    and "map_of found e = Some (statics_of r)"
    and "rd = reader_of env index rid found yaml scanned"
  obtains k where "map_of (rd_topic_index rd) e = Some k" "k < length (rd_topics rd)"
    "ti_name (rd_topics rd ! k) = rec_topic r"
    "ti_columns (rd_topics rd ! k) = columns_for_type (env_archetype_ok env) (rec_type_name r)"
    "\<And>comps n. (e, comps, n) \<in> set (seen_chunks index scanned) \<Longrightarrow>
       holds_structs (columns_for_type (env_archetype_ok env) (rec_type_name r)) comps \<Longrightarrow>
       ti_plan (rd_topics rd ! k) = decode_plan (env_plan env) (rec_type_name r) (rec_schema_text r)"
    "\<And>comps. holds_messages (columns_for_type (env_archetype_ok env) (rec_type_name r)) comps \<Longrightarrow>
       counted (fst (index_topics (env_archetype_ok env) found [] []))
         (snd (index_topics (env_archetype_ok env) found [] [])) e comps \<noteq> None"
proof -
  obtain topics ix where tix: "index_topics (env_archetype_ok env) found [] [] = (topics, ix)" by fastforce
  obtain k where k: "k < length found" "map_of ix e = Some k" "topics ! k = info_of (env_archetype_ok env) r"
    using index_topics_at [OF assms(1-3)] tix by (auto simp: topic_info_of_statics)
  have len: "length topics = length found"
    using tix index_topics_all [OF assms(1), of "[]" "[]"] by auto
  let ?seen = "seen_chunks index scanned" and ?cols = "columns_for_type (env_archetype_ok env) (rec_type_name r)"
  let ?tallied = "tally topics ix ?seen (replicate (length topics) 0, replicate (length topics) False)"
  have rd: "rd_topic_index rd = ix"
    "rd_topics rd = map (\<lambda>(i, info). finish_topic env ?tallied i info) (enumerate 0 topics)"
    by (simp_all add: assms(4) reader_of_def tix Let_def seen_chunks_def)
  have at: "rd_topics rd ! k = finish_topic env ?tallied k (topics ! k)" "k < length (rd_topics rd)"
    using k(1) len by (simp_all add: rd(2) nth_enumerate_eq)
  have cols: "ti_columns (topics ! k) = ?cols" by (simp add: k(3) info_of_def)
  show thesis
  proof (rule that [OF _ at(2)])
    show "map_of (rd_topic_index rd) e = Some k" by (simp add: rd k)
    show "ti_name (rd_topics rd ! k) = rec_topic r" "ti_columns (rd_topics rd ! k) = ?cols"
      by (simp_all add: at(1) k(3) finish_topic_def info_of_def Let_def)
    show "counted (fst (index_topics (env_archetype_ok env) found [] []))
        (snd (index_topics (env_archetype_ok env) found [] [])) e comps \<noteq> None"
      if "holds_messages ?cols comps" for comps
      using that k(2) cols by (simp add: tix counted_def)
    fix comps n assume c: "(e, comps, n) \<in> set ?seen" "holds_structs ?cols comps"
    have "counted topics ix e comps = Some k"
      using k(2) structs_are_messages [OF c(2)] cols by (simp add: counted_def)
    with c(1) have "snd ?tallied ! k"
      by (rule tally_structs) (use c(2) k(1) len cols in \<open>simp_all\<close>)
    then show "ti_plan (rd_topics rd ! k) = decode_plan (env_plan env) (rec_type_name r) (rec_schema_text r)"
      by (simp add: at(1) k(3) finish_topic_def info_of_def Let_def)
  qed
qed

section \<open>Opening what was recorded\<close>

definition same_libraries :: "('e, 'd, 'u) writer_env \<Rightarrow> 'e reader_env \<Rightarrow> bool" where
  "same_libraries env renv \<longleftrightarrow>
     env_archetype_ok renv = pe_archetype_ok (we_pipeline env) \<and> env_plan renv = pe_plan (we_pipeline env)
     \<and> (\<forall>name. we_entity env name \<noteq> env_property renv)"

abbreviation metadata_sent :: "string option \<Rightarrow> 'e sent list" where
  "metadata_sent md \<equiv> (case md of None \<Rightarrow> [] | Some yaml \<Rightarrow> [SentProperty METADATA_PROPERTY yaml])"

text \<open>What the reader knows of a topic that was recorded, \<open>k\<close> being its place among the topics.\<close>

definition knows_topic ::
  "('e, 'd, 'u) writer_env \<Rightarrow> 'e sent list \<Rightarrow> 'e reader \<Rightarrow> topic_record \<Rightarrow> usize \<Rightarrow> bool" where
  "knows_topic env ss rd r k \<longleftrightarrow>
     map_of (rd_topic_index rd) (we_entity env (rec_topic r)) = Some k
     \<and> ti_name (rd_topics rd ! k) = rec_topic r \<and> ti_columns (rd_topics rd ! k) = topic_columns env r
     \<and> (\<forall>c. SentChunk c \<in> set ss \<longrightarrow> \<not> ch_static c \<longrightarrow> ch_entity c = we_entity env (rec_topic r) \<longrightarrow>
          holds_structs (topic_columns env r) (map fst (ch_components c)) \<longrightarrow>
          reflectable (pe_plan (we_pipeline env)) r \<longrightarrow>
          ti_plan (rd_topics rd ! k) = Some (topic_plan env r))"

text \<open>
  The chunks a reader plays, on either path: those of the forward pass in the file's order, or
  those the index refers to.
\<close>

definition plays_chunks :: "'e reader_env \<Rightarrow> 'e reader \<Rightarrow> 'e chunk list \<Rightarrow> bool" where
  "plays_chunks renv rd chunks \<longleftrightarrow>
     (case rd_index rd of
        None \<Rightarrow> filter_map chunk_of (file_msgs renv) = chunks
      | Some ix \<Rightarrow> \<exists>refs. mset (ix_chunks ix) = mset refs
          \<and> list_all2 (leads_to (env_file renv)) refs (filter (\<lambda>c. \<not> ch_static c) chunks))"

text \<open>What opening saw of the chunks of rows: each of them, scanned or through the index.\<close>

definition summarizes ::
  "'e rrd_file \<Rightarrow> 'e chunk_index option \<Rightarrow> 'e scanned_chunk list \<Rightarrow> 'e chunk list \<Rightarrow> bool" where
  "summarizes file index scanned rows \<longleftrightarrow>
     (case index of
        None \<Rightarrow> scanned = map scan_chunk rows
      | Some ix \<Rightarrow> scanned = [] \<and> index_wf ix
          \<and> (\<exists>refs. mset (ix_chunks ix) = mset refs \<and> list_all2 (leads_to file) refs rows))"

definition opened_on ::
  "('e::linorder) reader_env \<Rightarrow> 'e found \<Rightarrow> string option \<Rightarrow> 'e chunk list \<Rightarrow> 'e reader \<Rightarrow> bool" where
  "opened_on renv found md chunks rd \<longleftrightarrow>
     (\<exists>index rid scanned. restart renv (reader_of renv index rid found md scanned) = (Inr (), rd)
        \<and> summarizes (env_file renv) index scanned (filter (\<lambda>c. \<not> ch_static c) chunks))"

lemma reflectable_plan:
  "reflectable make_plan r \<Longrightarrow>
     decode_plan make_plan (rec_type_name r) (rec_schema_text r) = Some (plan_of make_plan r)"
  by (auto simp: reflectable_def decode_plan_def plan_of_def split: option.splits)

lemma holds_set: "set xs = set ys \<Longrightarrow> holds_structs cols xs = holds_structs cols ys"
  "set xs = set ys \<Longrightarrow> holds_messages cols xs = holds_messages cols ys"
  by (simp_all add: holds_structs_def holds_messages_def list_ex_iff)

text \<open>Every chunk of rows in the file holds messages of a topic that was declared.\<close>

lemma declared_static:
  assumes "builds_chunks (pe_chunk (we_pipeline env))"
    and "entry_sent env M asked rs (Declared r) (SentChunk c)"
  shows "ch_static c"
proof -
  have "topic_statics_chunk (pe_chunk (we_pipeline env)) (we_entity env (rec_topic r)) r = Inr c"
    using assms(2) by (simp add: entry_sent_def)
  then show ?thesis using topic_statics_chunk_shape [OF assms(1), of "we_entity env (rec_topic r)" r] by auto
qed

lemma temporal_sent:
  assumes "builds_chunks (pe_chunk (we_pipeline env))" "list_all2 (entry_sent env M asked rs) es ss"
    and "SentChunk c \<in> set ss" "\<not> ch_static c"
  obtains i mds where "i < length rs" "Flushed i mds \<in> set es" "chunk_of_topic env M asked (rs ! i) mds c"
proof -
  obtain e where e: "e \<in> set es" "entry_sent env M asked rs e (SentChunk c)"
  proof -
    obtain i where i: "i < length ss" "ss ! i = SentChunk c"
      using assms(3) by (auto simp: in_set_conv_nth)
    have "es ! i \<in> set es" using i(1) list_all2_lengthD [OF assms(2)] by simp
    then show thesis using that list_all2_nthD2 [OF assms(2) i(1)] i(2) by simp
  qed
  show thesis
  proof (cases e)
    case (Declared r)
    then show thesis using declared_static [OF assms(1)] e(2) assms(4) by blast
  next
    case (Flushed i mds)
    then have "i < length rs" "Flushed i mds \<in> set es" "chunk_of_topic env M asked (rs ! i) mds c"
      using e by (simp_all add: entry_sent_def)
    then show thesis by (rule that)
  qed
qed

lemma chunk_of_topic_timed:
  "chunk_of_topic env M asked r mds c \<Longrightarrow>
     timed c \<and> ch_entity c = we_entity env (rec_topic r) \<and> holds_messages (topic_columns env r) (map fst (ch_components c))"
  by (simp add: chunk_of_topic_def message_chunk_def timed_def)

text \<open>Both paths seat the topics alike, once every chunk of rows was seen.\<close>

lemma seats_topics:
  assumes "same_libraries env renv" "list_all2 (entry_sent env M asked (slot_records l)) es ss"
    and "\<And>r. Declared r \<in> set es \<longleftrightarrow> r \<in> set (slot_records l)"
    and "inj_on (\<lambda>r. we_entity env (rec_topic r)) (set (slot_records l))"
    and "rd = reader_of renv index rid (declared (we_entity env) es []) md scanned"
    and seen: "\<And>c. SentChunk c \<in> set ss \<Longrightarrow> \<not> ch_static c \<Longrightarrow>
      \<exists>comps n. (ch_entity c, comps, n) \<in> set (seen_chunks index scanned)
        \<and> set comps = set (map fst (ch_components c))"
    and "r \<in> set (slot_records l)"
  shows "\<exists>k. knows_topic env ss rd r k"
    "\<And>comps. holds_messages (topic_columns env r) comps \<Longrightarrow>
       counted (fst (index_topics (env_archetype_ok renv) (declared (we_entity env) es []) [] []))
         (snd (index_topics (env_archetype_ok renv) (declared (we_entity env) es []) [] []))
         (we_entity env (rec_topic r)) comps \<noteq> None"
proof -
  let ?ent = "we_entity env" and ?ok = "env_archetype_ok renv"
  let ?found = "declared ?ent es []"
  have libs: "?ok = pe_archetype_ok (we_pipeline env)" "env_plan renv = pe_plan (we_pipeline env)"
    using assms(1) by (simp_all add: same_libraries_def)
  have sorted: "bt_sorted ?found" by (rule declared_sorted) simp
  have infos: "\<forall>x \<in> set ?found. topic_info_of ?ok (snd x) \<noteq> None"
  proof
    fix x assume "x \<in> set ?found"
    then have "map_of ?found (fst x) = Some (snd x)"
      using bt_sorted_distinct [OF sorted] by simp
    then obtain r where "snd x = statics_of r" using declared_found [of "[]" ?ent es] by auto
    then show "topic_info_of ?ok (snd x) \<noteq> None" by (simp add: topic_info_of_statics)
  qed
  have "map_of ?found (?ent (rec_topic r)) = Some (statics_of r)"
    by (rule declared_topic) (use assms(3,4,7) in \<open>auto dest: inj_onD\<close>)
  from reader_of_topic [OF infos bt_sorted_distinct [OF sorted] this assms(5)] obtain k where
    k: "map_of (rd_topic_index rd) (?ent (rec_topic r)) = Some k" "k < length (rd_topics rd)"
    "ti_name (rd_topics rd ! k) = rec_topic r"
    "ti_columns (rd_topics rd ! k) = columns_for_type ?ok (rec_type_name r)"
    "\<And>comps n. (?ent (rec_topic r), comps, n) \<in> set (seen_chunks index scanned) \<Longrightarrow>
       holds_structs (columns_for_type ?ok (rec_type_name r)) comps \<Longrightarrow>
       ti_plan (rd_topics rd ! k) = decode_plan (env_plan renv) (rec_type_name r) (rec_schema_text r)"
    "\<And>comps. holds_messages (columns_for_type ?ok (rec_type_name r)) comps \<Longrightarrow>
       counted (fst (index_topics ?ok ?found [] [])) (snd (index_topics ?ok ?found [] []))
         (?ent (rec_topic r)) comps \<noteq> None"
    by blast
  have "ti_plan (rd_topics rd ! k) = Some (topic_plan env r)"
    if c: "SentChunk c \<in> set ss" "\<not> ch_static c" "ch_entity c = ?ent (rec_topic r)"
      "holds_structs (topic_columns env r) (map fst (ch_components c))"
      "reflectable (pe_plan (we_pipeline env)) r" for c
  proof -
    obtain comps n where comps: "(ch_entity c, comps, n) \<in> set (seen_chunks index scanned)"
      "set comps = set (map fst (ch_components c))"
      using seen [OF c(1,2)] by blast
    then have "ti_plan (rd_topics rd ! k) = decode_plan (env_plan renv) (rec_type_name r) (rec_schema_text r)"
      using k(5) [of comps n] c(3,4) holds_set(1) [OF comps(2)] libs by simp
    then show ?thesis using reflectable_plan [OF c(5)] libs by simp
  qed
  then show "\<exists>k. knows_topic env ss rd r k" using k libs by (auto simp: knows_topic_def)
  show "counted (fst (index_topics ?ok ?found [] [])) (snd (index_topics ?ok ?found [] []))
      (?ent (rec_topic r)) comps \<noteq> None" if "holds_messages (topic_columns env r) comps" for comps
    using k(6) that libs by simp
qed

lemma knows_topic_cong:
  "rd_topics rd' = rd_topics rd \<Longrightarrow> rd_topic_index rd' = rd_topic_index rd \<Longrightarrow>
     knows_topic env ss rd' r k = knows_topic env ss rd r k"
  by (simp add: knows_topic_def)

text \<open>The static chunks describe the topics; if there is none, the file has no rows.\<close>

lemma collected_topics:
  assumes "faithful env M" "same_libraries env renv" "keeps_metadata prop (env_property renv)"
    and "list_all2 (entry_sent env M asked rs) es ss"
  shows "collect_all (env_property renv) (filter ch_static (map (sent_chunk prop) (ss @ metadata_sent md))) ([], None)
      = Inr (declared (we_entity env) es [], md)"
    "\<forall>c \<in> set (map (sent_chunk prop) (metadata_sent md)). ch_static c"
proof -
  have build: "builds_chunks (pe_chunk (we_pipeline env))" and ent: "\<forall>name. we_entity env name \<noteq> env_property renv"
    using assms(1,2) by (auto simp: faithful_def lawful_def same_libraries_def)
  show static: "\<forall>c \<in> set (map (sent_chunk prop) (metadata_sent md)). ch_static c"
    using assms(3) by (cases md) (simp_all add: keeps_metadata_def)
  then have "filter ch_static (map (sent_chunk prop) (metadata_sent md)) = map (sent_chunk prop) (metadata_sent md)"
    by simp
  then show "collect_all (env_property renv) (filter ch_static (map (sent_chunk prop) (ss @ metadata_sent md))) ([], None)
      = Inr (declared (we_entity env) es [], md)"
    using collect_entries [OF build ent assms(4), of "prop" "[]" None] assms(3)
    by (simp add: collect_all_append)
      (auto simp: collect_def keeps_metadata_def split: option.split)
qed

lemma declared_some:
  assumes "list_all2 (entry_sent env M asked (slot_records l)) es ss" "ss \<noteq> []"
    and "\<And>r. Declared r \<in> set es \<longleftrightarrow> r \<in> set (slot_records l)"
  shows "declared (we_entity env) es [] \<noteq> []"
proof -
  have "lg_slots l \<noteq> []"
  proof
    assume "lg_slots l = []"
    then have "entry_sent env M asked (slot_records l) e s = False" for e s
      by (simp add: entry_sent_def split: entry.split)
    then show False using assms(1,2) by (cases ss) (auto simp: list_all2_Cons2)
  qed
  then obtain r where "Declared r \<in> set es" using assms(3) by (cases "lg_slots l") auto
  then show ?thesis using declared_keys [of "we_entity env" es "[]"] by auto
qed

lemma rows_sent:
  assumes "builds_chunks (pe_chunk (we_pipeline env))"
    and "list_all2 (entry_sent env M asked (slot_records l)) es ss"
    and "\<forall>c \<in> set (map (sent_chunk prop) (metadata_sent md)). ch_static c"
    and "c \<in> set (map (sent_chunk prop) (ss @ metadata_sent md))" "\<not> ch_static c"
  shows "\<exists>r \<in> set (slot_records l). timed c \<and> ch_entity c = we_entity env (rec_topic r)
    \<and> holds_messages (topic_columns env r) (map fst (ch_components c))"
proof -
  obtain s where s: "s \<in> set ss" "c = sent_chunk prop s" using assms(3-5) by auto
  then obtain i where i: "i < length ss" "ss ! i = s" by (auto simp: in_set_conv_nth)
  obtain d where "s = SentChunk d" using list_all2_nthD2 [OF assms(2) i(1)] i(2) by (auto simp: entry_sent_def)
  then have "SentChunk c \<in> set ss" using s by simp
  then obtain j mds where "j < length (slot_records l)" "chunk_of_topic env M asked (slot_records l ! j) mds c"
    using temporal_sent [OF assms(1,2) _ assms(5)] by blast
  then show ?thesis using chunk_of_topic_timed nth_mem by blast
qed

lemma open_scanned:
  assumes "f_opens (env_file renv)" "stores_log (env_file renv) (map (sent_chunk prop) (ss @ metadata_sent md))"
    and "faithful env M" "same_libraries env renv" "keeps_metadata prop (env_property renv)"
    and "list_all2 (entry_sent env M asked (slot_records l)) es ss"
    and "\<And>r. Declared r \<in> set es \<longleftrightarrow> r \<in> set (slot_records l)"
    and "inj_on (\<lambda>r. we_entity env (rec_topic r)) (set (slot_records l))"
  shows "\<exists>rd. reader_open renv = Inr rd \<and> rd_metadata_yaml rd = md
    \<and> plays_chunks renv rd (map (sent_chunk prop) (ss @ metadata_sent md))
    \<and> (\<forall>r \<in> set (slot_records l). \<exists>k. knows_topic env ss rd r k)
    \<and> opened_on renv (declared (we_entity env) es []) md (map (sent_chunk prop) (ss @ metadata_sent md)) rd"
proof -
  let ?chunks = "map (sent_chunk prop) (ss @ metadata_sent md)" and ?found = "declared (we_entity env) es []"
  obtain msgs where msgs: "scan (env_file renv) = Inr msgs" "index_open (env_file renv) = Inr None" "msgs \<noteq> []"
    "filter_map chunk_of msgs = ?chunks"
    using stores_scan [OF assms(1,2)] by blast
  note collected = collected_topics [OF assms(3-6)]
  define scanned where "scanned = map scan_chunk (filter (\<lambda>c. \<not> ch_static c) ?chunks)"
  then have "scan_all (env_property renv) msgs ([], None) = Inr ((?found, md), scanned)"
    using collected(1) by (simp add: scan_all_collects msgs(4))
  then have found: "found_in renv None = Inr (Some (store_recording_id (hd msgs)), ?found, md, scanned)"
    using msgs(1,3) by (cases msgs) (simp_all add: found_in_def del: scan_all.simps)
  have itself: "describes_itself ?found None scanned"
  proof (cases "ss = []")
    case True
    then have "scanned = []" using collected(2) by (simp add: scanned_def)
    then show ?thesis by (simp add: describes_itself_def)
  next
    case False
    then show ?thesis using declared_some [OF assms(6) _ assms(7)] by (simp add: describes_itself_def)
  qed
  define rd0 where "rd0 = reader_of renv None (store_recording_id (hd msgs)) ?found md scanned"
  let ?rd = "rd0\<lparr>rd_window := [], rd_next_chunk := 0, rd_position := i64_MIN, rd_cursor := None, rd_source := Some msgs\<rparr>"
  have none: "rd_index rd0 = None" by (simp add: rd0_def reader_of_recording)
  then have start: "restart renv rd0 = (Inr (), ?rd)" by (simp add: restart_def msgs(1))
  then have opened: "reader_open renv = Inr ?rd"
    using itself by (simp add: reader_open_def msgs(2) found rd0_def)
  have yaml: "rd_metadata_yaml rd0 = md"
    by (simp add: rd0_def reader_of_def Let_def split: prod.split)
  have seen: "\<exists>comps n. (ch_entity c, comps, n) \<in> set (seen_chunks None scanned)
      \<and> set comps = set (map fst (ch_components c))" if c: "SentChunk c \<in> set ss" "\<not> ch_static c" for c
  proof -
    have "c \<in> set (filter (\<lambda>c. \<not> ch_static c) ?chunks)" using c by force
    then have "scan_chunk c \<in> set scanned" unfolding scanned_def set_map by (rule imageI)
    then have "(ch_entity c, map fst (ch_components c), ch_num_rows c) \<in> set (seen_chunks None scanned)"
      by (force simp: seen_chunks_def scan_chunk_def Let_def)
    then show ?thesis by blast
  qed
  have "\<exists>k. knows_topic env ss ?rd r k" if "r \<in> set (slot_records l)" for r
    using seats_topics(1) [OF assms(4,6,7,8) rd0_def seen that] by (simp add: knows_topic_def)
  moreover have "plays_chunks renv ?rd ?chunks"
    using none msgs by (simp add: plays_chunks_def file_msgs_def)
  moreover have "opened_on renv ?found md ?chunks ?rd"
    unfolding opened_on_def rd0_def
    by (intro exI conjI, rule start [unfolded rd0_def]) (simp add: summarizes_def scanned_def)
  ultimately show ?thesis using opened yaml by auto
qed

lemma indexed_seen:
  assumes "list_all2 (leads_to file) refs cs" "mset (ix_chunks ix) = mset refs" "c \<in> set cs"
  shows "\<exists>comps n. (ch_entity c, comps, n) \<in> set (seen_chunks (Some ix) [])
    \<and> set comps = set (map fst (ch_components c))"
proof -
  obtain r where r: "r \<in> set refs" "leads_to file r c"
    using list_all2_right [OF assms(1,3)] by blast
  then have "r \<in> set (ix_chunks ix)" using mset_eq_setD [OF assms(2)] by simp
  then have "(cr_entity r, cr_components r, cr_num_rows r) \<in> set (seen_chunks (Some ix) [])"
    by (simp add: seen_chunks_def)
  then show ?thesis using r(2) by (auto simp: leads_to_def)
qed

lemma open_indexed:
  assumes "f_opens (env_file renv)" "stores_index (env_file renv) (map (sent_chunk prop) (ss @ metadata_sent md))"
    and "faithful env M" "same_libraries env renv" "keeps_metadata prop (env_property renv)"
    and "list_all2 (entry_sent env M asked (slot_records l)) es ss"
    and "\<And>r. Declared r \<in> set es \<longleftrightarrow> r \<in> set (slot_records l)"
    and "inj_on (\<lambda>r. we_entity env (rec_topic r)) (set (slot_records l))"
  shows "\<exists>rd. reader_open renv = Inr rd \<and> rd_metadata_yaml rd = md
    \<and> plays_chunks renv rd (map (sent_chunk prop) (ss @ metadata_sent md))
    \<and> (\<forall>r \<in> set (slot_records l). \<exists>k. knows_topic env ss rd r k)
    \<and> opened_on renv (declared (we_entity env) es []) md (map (sent_chunk prop) (ss @ metadata_sent md)) rd"
proof -
  let ?chunks = "map (sent_chunk prop) (ss @ metadata_sent md)" and ?found = "declared (we_entity env) es []"
    and ?ok = "env_archetype_ok renv"
  obtain ix refs where ix: "index_open (env_file renv) = Inr (Some ix)"
    "index_load (env_file renv) (ix_statics ix) = Inr (filter ch_static ?chunks)"
    "ix_temporal_chunks ix = length (filter (\<lambda>c. \<not> ch_static c) ?chunks)" "mset (ix_chunks ix) = mset refs"
    "list_all2 (leads_to (env_file renv)) refs (filter (\<lambda>c. \<not> ch_static c \<and> timed c) ?chunks)"
    by (rule stores_indexed [OF assms(1,2)])
  note collected = collected_topics [OF assms(3-6)]
  have found: "found_in renv (Some ix) = Inr (Some (ix_recording_id ix), ?found, md, [])"
    using collected(1) by (simp add: found_in_def ix(2) del: map_append)
  have build: "builds_chunks (pe_chunk (we_pipeline env))"
    using assms(3) by (auto simp: faithful_def lawful_def)
  note rows = rows_sent [OF build assms(6) collected(2)]
  have "filter (\<lambda>c. \<not> ch_static c \<and> timed c) ?chunks = filter (\<lambda>c. \<not> ch_static c) ?chunks"
    by (rule filter_cong [OF refl]) (use rows in blast)
  with ix(5) have leads: "list_all2 (leads_to (env_file renv)) refs (filter (\<lambda>c. \<not> ch_static c) ?chunks)"
    by simp
  have itself: "describes_itself ?found (Some ix) []"
  proof (cases "ss = []")
    case True
    then have "ix_temporal_chunks ix = 0" using collected(2) by (simp add: ix(3))
    then show ?thesis by (simp add: describes_itself_def)
  next
    case False
    then show ?thesis using declared_some [OF assms(6) _ assms(7)] by (simp add: describes_itself_def)
  qed
  define rd0 where "rd0 = reader_of renv (Some ix) (ix_recording_id ix) ?found md []"
  have seen: "\<exists>comps n. (ch_entity c, comps, n) \<in> set (seen_chunks (Some ix) [])
      \<and> set comps = set (map fst (ch_components c))" if c: "SentChunk c \<in> set ss" "\<not> ch_static c" for c
  proof -
    have "c \<in> set (filter (\<lambda>c. \<not> ch_static c) ?chunks)" using c by force
    then show ?thesis by (rule indexed_seen [OF leads ix(4)])
  qed
  note seats = seats_topics [OF assms(4,6,7,8) rd0_def seen]
  have "counted (fst (index_topics ?ok ?found [] [])) (snd (index_topics ?ok ?found [] []))
      (cr_entity r) (cr_components r) \<noteq> None" if r: "r \<in> set (ix_chunks ix)" for r
  proof -
    have "r \<in> set refs" using r mset_eq_setD [OF ix(4)] by simp
    then obtain c where "c \<in> set (filter (\<lambda>c. \<not> ch_static c) ?chunks)" and c: "leads_to (env_file renv) r c"
      using list_all2_left [OF leads] by blast
    then have "c \<in> set ?chunks" "\<not> ch_static c" unfolding set_filter by blast+
    then obtain q where q: "q \<in> set (slot_records l)" "ch_entity c = we_entity env (rec_topic q)"
      "holds_messages (topic_columns env q) (map fst (ch_components c))" using rows by blast
    then have "holds_messages (topic_columns env q) (cr_components r)"
      using c holds_set(2) [of "cr_components r" "map fst (ch_components c)"] by (simp add: leads_to_def)
    then show ?thesis using seats(2) [OF _ _ q(1)] c q(2) by (simp add: leads_to_def)
  qed
  then have kept: "map_option ix_chunks (rd_index rd0) = Some (ix_chunks ix)"
    by (simp add: rd0_def reader_of_recording index_retain_def recompute_max_end_through_def)
  let ?rd = "rd0\<lparr>rd_window := [], rd_next_chunk := 0, rd_position := i64_MIN, rd_cursor := None, rd_at := 0\<rparr>"
  have start: "restart renv rd0 = (Inr (), ?rd)" using kept by (auto simp: restart_def)
  then have opened: "reader_open renv = Inr ?rd"
    using itself by (simp add: reader_open_def ix(1) found rd0_def)
  have yaml: "rd_metadata_yaml rd0 = md"
    by (simp add: rd0_def reader_of_def Let_def split: prod.split)
  have "\<exists>k. knows_topic env ss ?rd r k" if "r \<in> set (slot_records l)" for r
    using seats(1) [OF _ _ that] by (simp add: knows_topic_def)
  moreover have "plays_chunks renv ?rd ?chunks"
    using kept ix(4) leads by (auto simp: plays_chunks_def)
  moreover have "summarizes (env_file renv) (Some ix) [] (filter (\<lambda>c. \<not> ch_static c) ?chunks)"
    using ix(4) leads index_open_wf [OF ix(1)] unfolding summarizes_def by auto
  then have "opened_on renv ?found md ?chunks ?rd"
    unfolding opened_on_def rd0_def using start [unfolded rd0_def] by blast
  ultimately show ?thesis using opened yaml by auto
qed

lemma open_recorded:
  assumes "stores (env_file renv) prop (ss @ metadata_sent md)" "faithful env M" "same_libraries env renv"
    and "keeps_metadata prop (env_property renv)"
    and "list_all2 (entry_sent env M asked (slot_records l)) es ss"
    and "\<And>r. Declared r \<in> set es \<longleftrightarrow> r \<in> set (slot_records l)"
    and "inj_on (\<lambda>r. we_entity env (rec_topic r)) (set (slot_records l))"
  obtains rd where "reader_open renv = Inr rd" "rd_metadata_yaml rd = md"
    "plays_chunks renv rd (map (sent_chunk prop) (ss @ metadata_sent md))"
    "\<And>r. r \<in> set (slot_records l) \<Longrightarrow> \<exists>k. knows_topic env ss rd r k"
    "opened_on renv (declared (we_entity env) es []) md (map (sent_chunk prop) (ss @ metadata_sent md)) rd"
proof -
  have "f_opens (env_file renv)" using assms(1) by (simp add: stores_def)
  then have "\<exists>rd. reader_open renv = Inr rd \<and> rd_metadata_yaml rd = md
      \<and> plays_chunks renv rd (map (sent_chunk prop) (ss @ metadata_sent md))
      \<and> (\<forall>r \<in> set (slot_records l). \<exists>k. knows_topic env ss rd r k)
      \<and> opened_on renv (declared (we_entity env) es []) md (map (sent_chunk prop) (ss @ metadata_sent md)) rd"
    using open_scanned [OF _ _ assms(2-7)] open_indexed [OF _ _ assms(2-7)] assms(1)
    unfolding stores_def by blast
  then show thesis using that by blast
qed

end
