(* ===== verification/Sample_File.thy ===== *)
theory Sample_File
  imports Reopening
begin

text \<open>
  A concrete file for any session on the byte libraries, with a footer and without one: what
  the SDK would keep, the manifest being computed from the chunks.
\<close>

section \<open>A manifest for any chunks\<close>

definition span_entries :: "chunk_id \<times> 'e chunk \<Rightarrow> (string \<times> (chunk_id \<times> i64 \<times> i64) list) list" where
  "span_entries x =
     (case times (snd x) RECV_TIMESTAMP of
        None \<Rightarrow> []
      | Some ts \<Rightarrow>
          if ts = [] then []
          else map (\<lambda>(n, _). (n, [(fst x, Min (set ts), Max (set ts))])) (ch_components (snd x)))"

definition manifest_of :: "(chunk_id \<times> 'e chunk) list \<Rightarrow> 'e manifest" where
  "manifest_of cs =
     \<lparr>m_chunk_ids = map fst cs, m_entities = map (ch_entity \<circ> snd) cs,
      m_is_static = map (ch_static \<circ> snd) cs, m_num_rows = map (ch_num_rows \<circ> snd) cs,
      m_temporal = map (\<lambda>x. (ch_entity (snd x), [(RECV_TIMESTAMP, span_entries x)])) cs\<rparr>"

definition flat_entries :: "chunk_id \<times> 'e chunk \<Rightarrow> time_entry list" where
  "flat_entries x = concat (map (\<lambda>(n, es). map (Pair n) es) (span_entries x))"

lemma manifest_entries: "recv_entries (manifest_of cs) = concat (map flat_entries cs)"
  by (simp add: recv_entries_def manifest_of_def flat_entries_def [abs_def] comp_def)

lemma flat_entries_id: "e \<in> set (flat_entries x) \<Longrightarrow> fst (snd e) = fst x"
  by (auto simp: flat_entries_def span_entries_def split: option.splits if_splits)

lemma entries_of_flat: "entries_of cid (flat_entries x) = (if fst x = cid then flat_entries x else [])"
  using flat_entries_id [of _ x] by (fastforce simp: entries_of_def filter_id_conv filter_empty_conv)

lemma entries_of_manifest:
  "distinct (map fst cs) \<Longrightarrow> (cid, c) \<in> set cs \<Longrightarrow>
     entries_of cid (recv_entries (manifest_of cs)) = flat_entries (cid, c)"
proof (induction cs)
  case (Cons x cs)
  have append: "entries_of cid (xs @ ys) = entries_of cid xs @ entries_of cid ys" for xs ys
    by (simp add: entries_of_def)
  have none: "entries_of cid (concat (map flat_entries cs)) = []" if "cid \<notin> fst ` set cs"
    using that by (induction cs) (auto simp: append entries_of_flat, simp add: entries_of_def)
  show ?case
  proof (cases "fst x = cid")
    case True
    then have "x = (cid, c)" using Cons.prems by (cases x) (force simp: image_iff)
    then show ?thesis using none True Cons.prems(1) by (simp add: manifest_entries append entries_of_flat)
  next
    case False
    then show ?thesis using Cons by (auto simp: manifest_entries append entries_of_flat)
  qed
qed simp

lemma manifest_describes:
  assumes "distinct (map fst cs)"
    and "\<forall>x \<in> set cs. \<not> ch_static (snd x) \<longrightarrow> timed (snd x) \<longrightarrow> ch_components (snd x) \<noteq> []"
  shows "describes_file (manifest_of cs) cs"
proof -
  have "entries_describe (flat_entries (cid, c)) c" if c: "(cid, c) \<in> set cs" "\<not> ch_static c" for cid c
  proof (cases "times c RECV_TIMESTAMP")
    case None
    then show ?thesis by (simp add: entries_describe_def flat_entries_def span_entries_def)
  next
    case (Some ts)
    show ?thesis
    proof (cases "ts = []")
      case True
      then show ?thesis using Some by (simp add: entries_describe_def flat_entries_def span_entries_def)
    next
      case False
      then have "ch_components c \<noteq> []" using assms(2) c Some by (force simp: timed_def)
      moreover have "flat_entries (cid, c) =
          map (\<lambda>x. (fst x, cid, Min (set ts), Max (set ts))) (ch_components c)"
        using Some False by (simp add: flat_entries_def span_entries_def comp_def case_prod_beta' concat_map_singleton)
      ultimately show ?thesis
        using Some False by (cases "ch_components c") (auto simp: entries_describe_def image_iff)
    qed
  qed
  then show ?thesis
    using assms(1) entries_of_manifest [OF assms(1)]
    by (auto simp: describes_file_def) (simp_all add: manifest_of_def)
qed

section \<open>The file\<close>

definition byte_prop :: "string \<Rightarrow> string \<Rightarrow> nat chunk" where
  "byte_prop name yaml =
     \<lparr>ch_entity = 0, ch_static = True, ch_num_rows = 1, ch_timelines = [],
      ch_components = [(''TextDocument:text'',
        \<lparr>la_valid = [True], la_offsets = [0, 1], la_values = StrA [True] [yaml]\<rparr>)]\<rparr>"

text \<open>Without the index it is a file that was cut short: its footer and its last item are torn.\<close>

definition byte_file :: "bool \<Rightarrow> nat chunk list \<Rightarrow> nat rrd_file" where
  "byte_file indexed chunks =
     (let cs = enumerate 0 chunks
      in \<lparr>f_opens = True, f_footer = (if indexed then Inr (Some [(''rec'', Some (manifest_of cs))]) else Inl (External ''torn'')),
          f_read_chunks = (\<lambda>ids. Inr (map (\<lambda>cid. the (map_of cs cid)) ids)),
          f_decode = Some (map Inr (OtherMsg ''rec'' # map (\<lambda>c. ArrowMsg ''rec'' (Some c)) chunks)
            @ (if indexed then [] else [Inl (External ''torn'')]))\<rparr>)"

definition byte_reader_env :: "bool \<Rightarrow> nat sent list \<Rightarrow> nat reader_env" where
  "byte_reader_env indexed ss =
     \<lparr>env_file = byte_file indexed (map (sent_chunk byte_prop) ss), env_property = 0,
      env_archetype_ok = (\<lambda>_. True), env_plan = (\<lambda>_ _. Some byte_plan), env_cdr = plain_writer\<rparr>"

lemma byte_file_stores:
  assumes "\<forall>c \<in> set (map (sent_chunk byte_prop) ss). \<not> ch_static c \<longrightarrow> timed c \<longrightarrow> ch_components c \<noteq> []"
  shows "stores (env_file (byte_reader_env indexed ss)) byte_prop ss"
proof -
  let ?chunks = "map (sent_chunk byte_prop) ss"
  have "stores_log (byte_file False cs) cs" for cs
  proof -
    have "filter_map chunk_of (map (\<lambda>c. ArrowMsg ''rec'' (Some c)) cs) = cs"
      by (induction cs) simp_all
    moreover have "filter_map (\<lambda>r. case r of Inl _ \<Rightarrow> None | Inr m \<Rightarrow> Some m)
        (map (\<lambda>c. Inr (ArrowMsg ''rec'' (Some c)) :: nat log_msg result) cs) = map (\<lambda>c. ArrowMsg ''rec'' (Some c)) cs"
      by (induction cs) simp_all
    ultimately show ?thesis
      by (simp add: stores_log_def decoded_items_def byte_file_def Let_def comp_def filter_map_append)
  qed
  moreover have "stores_index (byte_file True ?chunks) ?chunks"
  proof -
    have "describes_file (manifest_of (enumerate 0 ?chunks)) (enumerate 0 ?chunks)"
      by (rule manifest_describes) (use assms in \<open>auto simp: enumerate_eq_zip dest!: set_zip_rightD\<close>)
    then show ?thesis
      unfolding stores_index_def
      by (intro exI [of _ "''rec''"] exI [of _ "manifest_of (enumerate 0 ?chunks)"] exI [of _ "[]"]
          exI [of _ "enumerate 0 ?chunks"]) (simp add: byte_file_def Let_def)
  qed
  moreover have "f_opens (byte_file indexed ?chunks)" by (simp add: byte_file_def Let_def)
  ultimately show ?thesis by (cases indexed) (simp_all add: stores_def byte_reader_env_def)
qed

section \<open>The value of a byte\<close>

definition byte_decoded :: "plan \<Rightarrow> bytes \<Rightarrow> ros_value list" where
  "byte_decoded plan cdr = [U8V (cdr ! 4)]"

lemma byte_cells_some:
  assumes "i < length valid" "byte_cells valid a ! i = Some (byte_row b)"
  obtains n name bs where "a = StructA n [(name, U8A bs)]" "length bs = length valid" "bs ! i = b"
  using assms
  by (induction valid a rule: byte_cells.induct) (auto simp: byte_row_def split: if_splits)

lemma byte_decodes: "decodes_values byte_writer_env byte_meaning byte_decoded"
proof -
  have "\<exists>n fs. as_struct (la_values a) = Some (n, fs)
      \<and> message_at byte_plan (plan_root byte_plan) fs i = Some (byte_decoded byte_plan cdr)"
    if row: "i < length (byte_rows a)" "byte_rows a ! i = Some (byte_value cdr)" for cdr a i
  proof -
    have "i < length (la_valid a)" using row(1) by (simp add: byte_rows_def byte_cells_length)
    then obtain n name bs where a: "la_values a = StructA n [(name, U8A bs)]"
      "length bs = length (la_valid a)" "bs ! i = cdr ! 4"
      using row(2) unfolding byte_rows_def byte_value_def by (rule byte_cells_some)
    then show ?thesis
      using \<open>i < length (la_valid a)\<close>
      by (simp add: byte_plan_def byte_decoded_def cons_value_def message_at.simps)
  qed
  moreover have "plan = byte_plan" if "known_plan byte_writer_env plan" for plan
    using that by (simp add: known_plan_def byte_env_def)
  ultimately show ?thesis by (simp add: decodes_values_def byte_meaning_def) blast
qed

lemma byte_libraries:
  "same_libraries byte_writer_env (byte_reader_env indexed ss)"
  "keeps_metadata byte_prop (env_property (byte_reader_env indexed ss))"
  "env_cdr (byte_reader_env indexed ss) = plain_writer"
  by (simp_all add: same_libraries_def byte_reader_env_def byte_writer_env_def byte_env_def keeps_metadata_def
      byte_prop_def read_metadata_property_def list_len_def list_value_def)

end
