(* ===== verification/Roundtrip.thy ===== *)
theory Roundtrip
  imports Sample_File
begin

text \<open>
  What goes in comes out: reading a closed recording back delivers the messages of the
  ledger, in order of receive time and then of writing.
\<close>

section \<open>Rows\<close>

fun entry_rows :: "(usize \<Rightarrow> usize) \<Rightarrow> entry \<Rightarrow> row list" where
  "entry_rows k (Declared r) = []"
| "entry_rows k (Flushed i mds) = map (message_row (k i) \<circ> fst) mds"

definition ledger_rows :: "(usize \<Rightarrow> usize) \<Rightarrow> ledger \<Rightarrow> row list" where
  "ledger_rows k l = map (\<lambda>(i, m). message_row (k i) m) (lg_messages l)"

abbreviation in_key :: "incoming \<Rightarrow> sort_key" where
  "in_key m \<equiv> (in_recv m, in_sequence m)"

lemma mset_by_first:
  assumes "\<And>i. filter (\<lambda>x. fst x = i) xs = filter (\<lambda>x. fst x = i) ys"
  shows "mset xs = mset ys"
proof (rule multiset_eqI)
  fix a
  have "count (mset zs) a = count (mset (filter (\<lambda>x. fst x = fst a) zs)) a" for zs :: "('a \<times> 'b) list"
    by (induction zs) auto
  then show "count (mset xs) a = count (mset ys) a" using assms by metis
qed

fun entry_messages :: "entry \<Rightarrow> (usize \<times> incoming) list" where
  "entry_messages (Declared r) = []"
| "entry_messages (Flushed i mds) = map (\<lambda>md. (i, fst md)) mds"

lemma entry_messages_at:
  "filter (\<lambda>x. fst x = i) (concat (map entry_messages es)) = map (Pair i) (flushed i es)"
proof (induction es)
  case (Cons e es)
  then show ?case by (cases e) (simp_all add: filter_map comp_def)
qed simp

lemma messages_at: "filter (\<lambda>x. fst x = i) ms = map (Pair i) (map snd (filter (\<lambda>x. fst x = i) ms))"
  by (induction ms) auto

lemma entry_rows_messages: "entry_rows k e = map (\<lambda>(i, m). message_row (k i) m) (entry_messages e)"
  by (cases e) simp_all

lemma recorded_messages:
  assumes "ledger_ok l" "list_all2 (entry_sent env M asked (slot_records l)) es ss"
    and "\<And>i. i < length (lg_slots l) \<Longrightarrow> flushed i es = messages_to i l"
  shows "mset (concat (map entry_messages es)) = mset (lg_messages l)"
proof -
  have "flushed i es = messages_to i l" for i
  proof (cases "i < length (lg_slots l)")
    case False
    then have "messages_to i l = []"
      using assms(1) by (force simp: messages_to_def ledger_ok_def filter_empty_conv)
    moreover have "flushed_from i e = []" if "e \<in> set es" for e
    proof -
      obtain s where "entry_sent env M asked (slot_records l) e s"
        using assms(2) \<open>e \<in> set es\<close> by (auto simp: list_all2_conv_all_nth in_set_conv_nth)
      then show ?thesis using False by (cases e) (auto simp: entry_sent_def)
    qed
    ultimately show ?thesis by (simp add: flushed_def)
  qed (rule assms(3))
  then show ?thesis
    by (intro mset_by_first) (simp only: entry_messages_at messages_to_def messages_at [symmetric])
qed

lemma recorded_rows:
  assumes "ledger_ok l" "list_all2 (entry_sent env M asked (slot_records l)) es ss"
    and "\<And>i. i < length (lg_slots l) \<Longrightarrow> flushed i es = messages_to i l"
  shows "mset (concat (map (entry_rows k) es)) = mset (ledger_rows k l)"
proof -
  have "mset (map (\<lambda>(i, m). message_row (k i) m) (concat (map entry_messages es))) =
      mset (ledger_rows k l)"
    using recorded_messages [OF assms] by (simp add: ledger_rows_def)
  then show ?thesis by (simp add: map_concat comp_def entry_rows_messages [abs_def])
qed

lemma flushed_part:
  assumes "Flushed i mds \<in> set es"
  obtains xs ys where "flushed i es = xs @ map fst mds @ ys"
proof -
  obtain fs gs where "es = fs @ Flushed i mds # gs" using split_list [OF assms] by blast
  then show thesis using that by simp
qed

lemma messages_increase:
  assumes "sorted_wrt (\<lambda>x y. in_sequence (snd x) < in_sequence (snd y)) (lg_messages l)"
    and "sorted (map in_recv (messages_to i l))"
  shows "sorted_wrt (\<lambda>m n. in_key m < in_key n) (messages_to i l)"
proof -
  have "sorted_wrt (\<lambda>m n. in_sequence m < in_sequence n) (messages_to i l)"
    using sorted_wrt_filter [OF assms(1)] by (simp add: messages_to_def sorted_wrt_map)
  then show ?thesis
    using assms(2) by (auto simp: sorted_wrt_map sorted_wrt_iff_nth_less less_prod_def)
qed

lemma rows_in_order:
  "sorted_wrt (\<lambda>m n. in_key m < in_key n) ms \<Longrightarrow> in_order False (map (message_row k) ms)"
  unfolding in_order_def sorted_map sorted_wrt_map
  by (rule sorted_wrt_mono_rel) (auto simp: rank_le message_row_def)

lemma sort_key_map: "sort_key f (map g xs) = map g (sort_key (\<lambda>x. f (g x)) xs)"
proof (induction xs)
  case (Cons x xs)
  have "insort_key f (g x) (map g ys) = map g (insort_key (\<lambda>x. f (g x)) x ys)" for ys
    by (induction ys) simp_all
  then show ?case using Cons.IH by simp
qed simp

lemma ledger_rows_replay:
  assumes "sorted_wrt (\<lambda>x y. in_sequence (snd x) < in_sequence (snd y)) (lg_messages l)"
  shows "replayable_rows (ledger_rows k l)"
proof -
  have "sorted_wrt (<) (map (in_sequence \<circ> snd) (lg_messages l))"
    using assms by (simp add: sorted_wrt_map)
  then have "distinct (map (in_sequence \<circ> snd) (lg_messages l))"
    by (simp only: strict_sorted_iff)
  then have "distinct (map (snd \<circ> row_key) (ledger_rows k l))"
    by (simp add: ledger_rows_def comp_def split_beta message_row_def)
  then have "distinct (map row_key (ledger_rows k l))"
    by (metis distinct_map list.map_comp)
  then show ?thesis by (auto simp: replayable_rows_def list_all_iff ledger_rows_def message_row_def)
qed

section \<open>Windows\<close>

lemma scan_step_chunk:
  "scan_step rd msg = (case chunk_of msg of None \<Rightarrow> None | Some c \<Rightarrow> scan_step rd (ArrowMsg [] (Some c)))"
  by (simp add: scan_step_def split: option.split)

abbreviation chunk_step :: "'e reader \<Rightarrow> 'e chunk \<Rightarrow> window option result option" where
  "chunk_step rd c \<equiv> scan_step rd (ArrowMsg [] (Some c))"

lemma windows_of_chunks:
  "filter_map (scanned_window rd) msgs =
     filter_map (\<lambda>c. case chunk_step rd c of None \<Rightarrow> None | Some r \<Rightarrow> loaded r) (filter_map chunk_of msgs)"
proof (induction msgs)
  case (Cons m msgs)
  have "scanned_window rd m = (case chunk_of m of None \<Rightarrow> None
      | Some c \<Rightarrow> (case chunk_step rd c of None \<Rightarrow> None | Some r \<Rightarrow> loaded r))"
    by (simp add: scanned_window_def scan_step_chunk [of rd m] split: option.split)
  then show ?case using Cons.IH by (cases "chunk_of m") (simp_all split: option.split)
qed simp

lemma readable_chunks:
  assumes "\<And>c. c \<in> set (filter_map chunk_of msgs) \<Longrightarrow>
    chunk_step rd c = None \<or> (\<exists>w. chunk_step rd c = Some (Inr (Some w)) \<and> good_window (env_cdr renv) (rd_topics rd) w)"
  shows "list_all (readable_msg renv rd) msgs"
  unfolding list_all_iff
proof
  fix m assume m: "m \<in> set msgs"
  show "readable_msg renv rd m"
  proof (cases "chunk_of m")
    case (Some c)
    then have "c \<in> set (filter_map chunk_of msgs)" using m by auto
    then show ?thesis using assms [of c] Some by (auto simp: readable_msg_def scan_step_chunk [of rd m])
  qed (simp add: readable_msg_def scan_step_chunk [of rd m])
qed

lemma struct_column_held:
  assumes "Option.bind (col_reflected cols) (column c) \<noteq> None"
  shows "holds_structs cols (map fst (ch_components c))"
proof -
  obtain d a where "col_reflected cols = Some d" "column c d = Some a"
    using assms by (cases "col_reflected cols") auto
  then have "d \<in> set (map fst (ch_components c))"
    by (force simp: column_def dest: map_of_SomeD)
  then show ?thesis using \<open>col_reflected cols = Some d\<close> by (auto simp: holds_structs_def list_ex_iff)
qed

text \<open>The place of a slot among the topics of the reader.\<close>

definition place :: "('e, 'd, 'u) writer_env \<Rightarrow> 'e reader \<Rightarrow> ledger \<Rightarrow> usize \<Rightarrow> usize" where
  "place env rd l i = the (map_of (rd_topic_index rd) (we_entity env (rec_topic (slot_records l ! i))))"

text \<open>
  What a message needs to be replayed: its time fits the merge, and where only its reflected
  form may be kept its bytes are canonical. Within a topic receive times do not go backwards.
\<close>

definition replays_back ::
  "('e, 'd, 'u) writer_env \<Rightarrow> cdr_writer \<Rightarrow> (plan \<Rightarrow> bytes \<Rightarrow> ros_value list) \<Rightarrow> representations \<Rightarrow> ledger \<Rightarrow> bool"
where
  "replays_back env cw decoded asked l \<longleftrightarrow>
     (\<forall>i < length (lg_slots l). \<forall>m \<in> set (messages_to i l).
        in_range (in_recv m)
        \<and> (Raw \<in> asked \<or> \<not> reflectable (pe_plan (we_pipeline env)) (slot_records l ! i)
           \<or> canonical cw decoded (topic_plan env (slot_records l ! i)) (in_cdr m)))
     \<and> (\<forall>i. sorted (map in_recv (messages_to i l)))"

lemma reflectable_known: "reflectable (pe_plan (we_pipeline env)) r \<Longrightarrow> known_plan env (topic_plan env r)"
  by (auto simp: reflectable_def known_plan_def plan_of_def split: option.splits)

lemma entry_window:
  assumes "decodes_values env M decoded" "ledger_ok l" "replays_back env cw decoded asked l"
    and "sorted_wrt (\<lambda>x y. in_sequence (snd x) < in_sequence (snd y)) (lg_messages l)"
    and "\<And>i. i < length (lg_slots l) \<Longrightarrow> flushed i es = messages_to i l"
    and "\<And>r. r \<in> set (slot_records l) \<Longrightarrow> \<exists>k. knows_topic env ss rd r k"
    and "Flushed i mds \<in> set es" "entry_sent env M asked (slot_records l) (Flushed i mds) (SentChunk c)"
    and "SentChunk c \<in> set ss"
  obtains w where "chunk_step rd c = Some (Inr (Some w))" "good_window cw (rd_topics rd) w"
    "pending cw (rd_topics rd) w = entry_rows (place env rd l) (Flushed i mds)"
proof -
  let ?r = "slot_records l ! i"
  have i: "i < length (lg_slots l)" and c: "chunk_of_topic env M asked ?r mds c"
    using assms(8) by (auto simp: entry_sent_def)
  then have chunk: "mds \<noteq> []" "ch_entity c = we_entity env (rec_topic ?r)" "\<not> ch_static c"
    "message_chunk (me_rows M) (me_val M (topic_plan env ?r)) (Raw \<in> asked) (topic_columns env ?r) c mds"
    "\<forall>md \<in> set mds. snd md \<longrightarrow> reflectable (pe_plan (we_pipeline env)) ?r"
    using message_chunk_temporal [OF c] by (auto simp: chunk_of_topic_def)
  have "?r \<in> set (slot_records l)" using i by (auto intro: nth_mem)
  then obtain k where knows: "knows_topic env ss rd ?r k" using assms(6) by blast
  then have k: "map_of (rd_topic_index rd) (ch_entity c) = Some k" "place env rd l i = k"
    "ti_columns (rd_topics rd ! k) = topic_columns env ?r"
    using chunk(2) by (simp_all add: knows_topic_def place_def)
  obtain xs ys where part: "messages_to i l = xs @ map fst mds @ ys"
    using flushed_part [OF assms(7)] assms(5) [OF i] by metis
  have known: "known_plan env (topic_plan env ?r)" if "md \<in> set mds" "snd md" for md
    using reflectable_known chunk(5) that by blast
  have plan: "ti_plan (rd_topics rd ! k) = Some (topic_plan env ?r)
      \<and> (Raw \<in> asked \<or> canonical cw decoded (topic_plan env ?r) (in_cdr (fst md)))" if md: "md \<in> set mds" "snd md" for md
  proof -
    have "\<not> (\<forall>md \<in> set mds. struct_form (me_val M (topic_plan env ?r)) md = None)"
      using md by (auto simp: struct_form_def)
    then have "Option.bind (col_reflected (topic_columns env ?r)) (column c) \<noteq> None"
      using chunk(4) unfolding message_chunk_def by metis
    then have "holds_structs (topic_columns env ?r) (map fst (ch_components c))"
      by (rule struct_column_held)
    then have "ti_plan (rd_topics rd ! k) = Some (topic_plan env ?r)"
      using knows chunk(2,3,5) md assms(9) unfolding knows_topic_def by blast
    moreover have "fst md \<in> set (messages_to i l)" using part md(1) by simp
    ultimately show ?thesis using assms(3) i chunk(5) md unfolding replays_back_def by blast
  qed
  obtain w where w: "load_window c k (rd_topics rd ! k) = Inr (Some w)" "same_length w" "\<not> w_reversed w"
    "w_next w = 0" "w_recv w = map (in_recv \<circ> fst) mds"
    "pending cw (rd_topics rd) w = map (message_row k \<circ> fst) mds"
    using message_window [OF chunk(4) assms(1) _ chunk(1) k(3) plan] known by blast
  have "sorted_wrt (\<lambda>m n. in_key m < in_key n) (messages_to i l)"
    by (rule messages_increase [OF assms(4)]) (use assms(3) in \<open>simp add: replays_back_def\<close>)
  then have "sorted_wrt (\<lambda>m n. in_key m < in_key n) (map fst mds)"
    unfolding part sorted_wrt_append by blast
  then have "in_order False (pending cw (rd_topics rd) w)"
    using rows_in_order [of "map fst mds" k] w(6) by (simp add: comp_def)
  moreover have "\<forall>t \<in> set (w_recv w). in_range t"
    using assms(3) i part unfolding replays_back_def w(5) by auto
  ultimately show thesis
    using w chunk(3) k by (intro that [of w]) (simp_all add: scan_step_def good_window_def)
qed

section \<open>Reading back what was recorded\<close>

lemma metadata_step:
  assumes "keeps_metadata prop p" "c \<in> set (map (sent_chunk prop) (metadata_sent md))"
  shows "chunk_step rd c = None"
  using assms by (auto simp: keeps_metadata_def scan_step_def split: option.splits)

lemma declared_step:
  assumes "builds_chunks (pe_chunk (we_pipeline env))"
    and "entry_sent env M asked rs (Declared r) (SentChunk c)"
  shows "chunk_step rd c = None"
  using declared_static [OF assms] by (simp add: scan_step_def)

definition step_window :: "'e reader \<Rightarrow> 'e chunk \<Rightarrow> window option" where
  "step_window rd c = (case chunk_step rd c of None \<Rightarrow> None | Some r \<Rightarrow> loaded r)"

lemma step_window_simps [simp]:
  "chunk_step rd c = None \<Longrightarrow> step_window rd c = None"
  "chunk_step rd c = Some (Inr (Some w)) \<Longrightarrow> step_window rd c = Some w"
  by (simp_all add: step_window_def)

text \<open>Every chunk that was sent is read as the rows its entry accounts for.\<close>

lemma entries_read:
  assumes "\<And>e c. e \<in> set es \<Longrightarrow> SentChunk c \<in> set ss \<Longrightarrow> entry_sent env M asked rs e (SentChunk c) \<Longrightarrow>
      chunk_step rd c = None \<and> entry_rows k e = []
      \<or> (\<exists>w. chunk_step rd c = Some (Inr (Some w)) \<and> good_window cw (rd_topics rd) w
           \<and> pending cw (rd_topics rd) w = entry_rows k e)"
    and "list_all2 (entry_sent env M asked rs) es ss"
  shows "concat (map (pending cw (rd_topics rd)) (filter_map (step_window rd) (map (sent_chunk prop) ss)))
      = concat (map (entry_rows k) es)
    \<and> (\<forall>c \<in> set (map (sent_chunk prop) ss). chunk_step rd c = None
         \<or> (\<exists>w. chunk_step rd c = Some (Inr (Some w)) \<and> good_window cw (rd_topics rd) w))"
  using assms(2,1)
proof (induction rule: list_all2_induct)
  case (Cons e es s ss)
  obtain c where s: "s = SentChunk c" using Cons.hyps(1) by (auto simp: entry_sent_def)
  have IH: "concat (map (pending cw (rd_topics rd)) (filter_map (step_window rd) (map (sent_chunk prop) ss)))
      = concat (map (entry_rows k) es)
    \<and> (\<forall>c \<in> set (map (sent_chunk prop) ss). chunk_step rd c = None
         \<or> (\<exists>w. chunk_step rd c = Some (Inr (Some w)) \<and> good_window cw (rd_topics rd) w))"
    by (rule Cons.IH) (use Cons.prems in auto)
  from Cons.prems [of e c] Cons.hyps(1) consider
    "chunk_step rd c = None" "entry_rows k e = []"
  | w where "chunk_step rd c = Some (Inr (Some w))" "good_window cw (rd_topics rd) w"
      "pending cw (rd_topics rd) w = entry_rows k e"
    unfolding s by auto
  then show ?case
    by cases (use IH in \<open>auto simp: s\<close>)
qed simp

text \<open>On either path, a chunk that is read gives the rows its window holds.\<close>

definition chunk_ok :: "'e reader_env \<Rightarrow> 'e reader \<Rightarrow> 'e chunk \<Rightarrow> bool" where
  "chunk_ok renv rd c \<longleftrightarrow>
     chunk_step rd c = None
     \<or> (\<exists>w. chunk_step rd c = Some (Inr (Some w)) \<and> good_window (env_cdr renv) (rd_topics rd) w)"

lemma index_window_step:
  assumes "leads_to (env_file renv) r c" "\<not> ch_static c"
  shows "index_window renv rd r = (case chunk_step rd c of None \<Rightarrow> Inr None | Some x \<Rightarrow> x)"
  using assms by (simp add: index_window_def leads_to_def scan_step_def split: option.split)

lemma leads_faithful:
  assumes "leads_to (env_file renv) r c" "\<not> ch_static c" "chunk_ok renv rd c"
  shows "faithful_chunk renv rd r"
proof (cases "chunk_step rd c")
  case None
  then show ?thesis by (simp add: faithful_chunk_def index_window_step [OF assms(1,2)])
next
  case (Some x)
  then obtain w where w: "chunk_step rd c = Some (Inr (Some w))" "good_window (env_cdr renv) (rd_topics rd) w"
    using assms(3) by (auto simp: chunk_ok_def)
  then obtain k where "load_window c k (rd_topics rd ! k) = Inr (Some w)"
    by (auto simp: scan_step_def split: if_splits option.splits)
  then have "w_recv w = unwrap_or (times c RECV_TIMESTAMP) []" using load_window_fresh by blast
  then have "\<forall>t \<in> set (w_recv w). cr_start r \<le> t \<and> t \<le> cr_end r"
    using assms(1) by (cases "times c RECV_TIMESTAMP") (simp_all add: leads_to_def)
  then show ?thesis using w by (simp add: faithful_chunk_def index_window_step [OF assms(1,2)])
qed

lemma leads_windows:
  assumes "list_all2 (leads_to (env_file renv)) refs cs" "\<forall>c \<in> set cs. \<not> ch_static c"
  shows "filter_map (\<lambda>r. loaded (index_window renv rd r)) refs = filter_map (step_window rd) cs"
  using assms
proof (induction rule: list_all2_induct)
  case (Cons r refs c cs)
  have "loaded (index_window renv rd r) = step_window rd c"
    using index_window_step [OF Cons.hyps(1)] Cons.prems by (simp add: step_window_def split: option.split)
  then show ?case using Cons.IH Cons.prems by (simp split: option.split)
qed simp

lemma mset_filter_map: "mset xs = mset ys \<Longrightarrow> mset (filter_map f xs) = mset (filter_map f ys)"
proof -
  have "mset (filter_map f zs) = image_mset the (filter_mset (\<lambda>y. y \<noteq> None) (image_mset f (mset zs)))" for zs
    by (induction zs) (simp_all split: option.split)
  then show "mset xs = mset ys \<Longrightarrow> mset (filter_map f xs) = mset (filter_map f ys)" by simp
qed

lemma mset_concat_map: "mset xs = mset ys \<Longrightarrow> mset (concat (map f xs)) = mset (concat (map f ys))"
proof -
  have "mset (concat (map f zs)) = (\<Sum>z \<in># mset zs. mset (f z))" for zs
    by (induction zs) simp_all
  then show "mset xs = mset ys \<Longrightarrow> mset (concat (map f xs)) = mset (concat (map f ys))" by simp
qed

lemma static_windows: "filter_map (step_window rd) (filter (\<lambda>c. \<not> ch_static c) cs) = filter_map (step_window rd) cs"
proof (induction cs)
  case (Cons c cs)
  have "step_window rd c = None" if "ch_static c" using that by (simp add: step_window_def scan_step_def)
  then show ?case using Cons.IH by (simp split: option.split)
qed simp

lemma read_bag:
  assumes "plays_chunks renv rd chunks" "\<forall>c \<in> set chunks. chunk_ok renv rd c"
  shows "true_recording renv rd"
    "mset (bag renv rd) = mset (concat (map (pending (env_cdr renv) (rd_topics rd)) (filter_map (step_window rd) chunks)))"
proof -
  have "true_recording renv rd
    \<and> mset (bag renv rd) = mset (concat (map (pending (env_cdr renv) (rd_topics rd)) (filter_map (step_window rd) chunks)))"
  proof (cases "rd_index rd")
    case None
    then have chunks: "filter_map chunk_of (file_msgs renv) = chunks" using assms(1) by (simp add: plays_chunks_def)
    have "list_all (readable_msg renv rd) (file_msgs renv)"
      by (rule readable_chunks) (use assms(2) chunks in \<open>simp add: chunk_ok_def\<close>)
    then show ?thesis
      using None by (simp add: true_recording_def bag_def scan_bag_def windows_of_chunks [folded step_window_def] chunks)
  next
    case (Some ix)
    then obtain refs where refs: "mset (ix_chunks ix) = mset refs"
      "list_all2 (leads_to (env_file renv)) refs (filter (\<lambda>c. \<not> ch_static c) chunks)"
      using assms(1) by (auto simp: plays_chunks_def)
    have "faithful_chunk renv rd r" if "r \<in> set (ix_chunks ix)" for r
    proof -
      have "r \<in> set refs" using that mset_eq_setD [OF refs(1)] by simp
      then obtain c where "c \<in> set (filter (\<lambda>c. \<not> ch_static c) chunks)" and leads: "leads_to (env_file renv) r c"
        using list_all2_left [OF refs(2)] by blast
      then have "\<not> ch_static c" "chunk_ok renv rd c" using assms(2) by simp_all
      then show ?thesis by (rule leads_faithful [OF leads])
    qed
    then have "true_recording renv rd"
      using Some by (simp add: true_recording_def chunk_refs_def list_all_iff)
    moreover have "filter_map (\<lambda>r. loaded (index_window renv rd r)) refs = filter_map (step_window rd) chunks"
      using leads_windows [OF refs(2), of rd] by (simp add: static_windows)
    ultimately show ?thesis
      using mset_concat_map [OF mset_filter_map [OF refs(1)],
          of "pending (env_cdr renv) (rd_topics rd)" "\<lambda>r. loaded (index_window renv rd r)"] Some
      by (simp add: bag_def indexed_bag_def chunk_refs_def)
  qed
  then show "true_recording renv rd"
    "mset (bag renv rd) = mset (concat (map (pending (env_cdr renv) (rd_topics rd)) (filter_map (step_window rd) chunks)))"
    by blast+
qed

definition delivered :: "ledger \<Rightarrow> usize \<times> incoming \<Rightarrow> message" where
  "delivered l x =
     \<lparr>msg_topic_name = rec_topic (slot_records l ! fst x), msg_recv_timestamp = in_recv (snd x),
      msg_send_timestamp = in_send (snd x), msg_data = in_cdr (snd x)\<rparr>"

abbreviation written_key :: "usize \<times> incoming \<Rightarrow> sort_key" where
  "written_key x \<equiv> in_key (snd x)"

lemma recorded_entries:
  assumes "recorded env M asked l ss"
  obtains es where "list_all2 (entry_sent env M asked (slot_records l)) es ss"
    "\<And>r. Declared r \<in> set es \<longleftrightarrow> r \<in> set (slot_records l)"
    "\<And>i. i < length (lg_slots l) \<Longrightarrow> flushed i es = messages_to i l"
proof -
  obtain es where es: "list_all2 (entry_sent env M asked (slot_records l)) es ss"
    "\<And>i. i < length (lg_slots l) \<Longrightarrow> Declared (fst (lg_slots l ! i)) \<in> set es"
    "\<And>i. i < length (lg_slots l) \<Longrightarrow> flushed i es = messages_to i l"
    using assms by (auto simp: recorded_def)
  have "Declared r \<in> set es" if r: "r \<in> set (slot_records l)" for r
  proof -
    obtain i where "i < length (lg_slots l)" "r = fst (lg_slots l ! i)"
      using r by (auto simp: set_conv_nth)
    then show ?thesis using es(2) by simp
  qed
  moreover have "r \<in> set (slot_records l)" if "Declared r \<in> set es" for r
    using list_all2_left [OF es(1) that] by (auto simp: entry_sent_def)
  ultimately show thesis using that [OF es(1)] es(3) by blast
qed

lemma recorded_replays:
  assumes "stores (env_file renv) prop (ss @ metadata_sent md)" "faithful env M" "same_libraries env renv"
    and "keeps_metadata prop (env_property renv)" "decodes_values env M decoded"
    and "recorded env M asked l ss" "ledger_ok l" "replays_back env (env_cdr renv) decoded asked l"
    and "sorted_wrt (\<lambda>x y. in_sequence (snd x) < in_sequence (snd y)) (lg_messages l)"
    and "inj_on (\<lambda>r. we_entity env (rec_topic r)) (set (slot_records l))"
  shows "\<exists>rd. reader_open renv = Inr rd \<and> rd_metadata_yaml rd = md
    \<and> drain renv rd = Inr (map (delivered l) (sort_key written_key (lg_messages l)))"
proof -
  obtain es where es: "list_all2 (entry_sent env M asked (slot_records l)) es ss"
    "\<And>r. Declared r \<in> set es \<longleftrightarrow> r \<in> set (slot_records l)"
    "\<And>i. i < length (lg_slots l) \<Longrightarrow> flushed i es = messages_to i l"
    using recorded_entries [OF assms(6)] by blast
  obtain rd where rd: "reader_open renv = Inr rd" "rd_metadata_yaml rd = md"
    "plays_chunks renv rd (map (sent_chunk prop) (ss @ metadata_sent md))"
    "\<And>r. r \<in> set (slot_records l) \<Longrightarrow> \<exists>k. knows_topic env ss rd r k"
    "opened_on renv (declared (we_entity env) es []) md (map (sent_chunk prop) (ss @ metadata_sent md)) rd"
    by (rule open_recorded [OF assms(1-4) es(1,2) assms(10)]) (rule that, blast+)
  let ?k = "place env rd l" and ?cw = "env_cdr renv"
  have build: "builds_chunks (pe_chunk (we_pipeline env))"
    using assms(2) by (simp add: faithful_def lawful_def)
  have entry: "chunk_step rd c = None \<and> entry_rows ?k e = []
      \<or> (\<exists>w. chunk_step rd c = Some (Inr (Some w)) \<and> good_window ?cw (rd_topics rd) w
           \<and> pending ?cw (rd_topics rd) w = entry_rows ?k e)"
    if "e \<in> set es" "SentChunk c \<in> set ss" "entry_sent env M asked (slot_records l) e (SentChunk c)" for e c
  proof (cases e)
    case (Declared r)
    then have "chunk_step rd c = None" using declared_step [OF build] that(3) by blast
    then show ?thesis using Declared by simp
  next
    case (Flushed i mds)
    then show ?thesis
      using entry_window [OF assms(5,7,8,9) es(3) rd(4)] that by metis
  qed
  from entries_read [OF entry es(1), of "prop"]
  have reads: "concat (map (pending ?cw (rd_topics rd)) (filter_map (step_window rd) (map (sent_chunk prop) ss)))
      = concat (map (entry_rows ?k) es)"
    "\<forall>c \<in> set (map (sent_chunk prop) ss). chunk_step rd c = None
       \<or> (\<exists>w. chunk_step rd c = Some (Inr (Some w)) \<and> good_window ?cw (rd_topics rd) w)"
    by simp_all
  note md = metadata_step [OF assms(4), where md = md and rd = rd]
  have ok: "\<forall>c \<in> set (map (sent_chunk prop) (ss @ metadata_sent md)). chunk_ok renv rd c"
    using reads(2) md unfolding chunk_ok_def map_append set_append by blast
  have "mset (bag renv rd) = mset (concat (map (entry_rows ?k) es))"
    using read_bag(2) [OF rd(3) ok] reads(1) md by simp
  then have bag: "mset (bag renv rd) = mset (ledger_rows ?k l)"
    using recorded_rows [OF assms(7) es(1,3)] by simp
  note pass = open_pass [OF rd(1) read_bag(1) [OF rd(3) ok]]
  have "played renv rd = bag renv rd" using pass by (simp add: played_def wanted_def)
  then have "drain renv rd = Inr (messages_of rd (ledger_rows ?k l))"
    by (intro drain_pass) (use pass bag ledger_rows_replay [OF assms(9)] in simp_all)
  also have "messages_of rd (ledger_rows ?k l) = map (delivered l) (sort_key written_key (lg_messages l))"
  proof -
    have "message_of (rd_topics rd) (message_row (?k i) m) = delivered l (i, m)"
      if "(i, m) \<in> set (lg_messages l)" for i m
    proof -
      have "i < length (lg_slots l)" using that assms(7) by (auto simp: ledger_ok_def)
      then have "slot_records l ! i \<in> set (slot_records l)" by (intro nth_mem) simp
      then obtain k where "knows_topic env ss rd (slot_records l ! i) k" using rd(4) by blast
      then show ?thesis
        by (simp add: knows_topic_def place_def message_of_def message_row_def delivered_def)
    qed
    then show ?thesis
      using pass
      by (auto simp: messages_of_def playback_order_def ledger_rows_def sort_key_map message_row_def
          split_beta intro!: map_cong)
  qed
  finally show ?thesis using rd(1,2) by blast
qed

text \<open>The libraries agree: reading undoes what writing did.\<close>

definition libraries_agree ::
  "('e, 'd, 'u) writer_env \<Rightarrow> 'e reader_env \<Rightarrow> ('d, 'v) meaning
   \<Rightarrow> (plan \<Rightarrow> bytes \<Rightarrow> ros_value list) \<Rightarrow> (string \<Rightarrow> string \<Rightarrow> 'e chunk) \<Rightarrow> bool" where
  "libraries_agree env renv M decoded prop \<longleftrightarrow>
     faithful env M \<and> same_libraries env renv \<and> decodes_values env M decoded
     \<and> keeps_metadata prop (env_property renv)
     \<and> (\<forall>yaml. \<not> isl (we_file_property env METADATA_PROPERTY yaml))"

text \<open>
  C1: what was recorded is what is replayed. Take a session of a recording without lenses whose
  decoders do not break (or which keeps raw copies), close it, open the file with or without
  its footer, and read to the end: out come exactly the messages that were written to a topic
  while it was recorded, each once, under its topic's name, with its bytes and both its times,
  in order of receive time and then of writing; and the metadata that was set last.

  The restrictions are needed. A recording that asks for lenses may keep only what they derive,
  and a decoder that breaks takes rows with it where no raw copies are kept. Where raw copies
  are not kept the bytes come out of the reflected form, so they have to be the canonical
  encoding \<open>replay.rs\<close> writes. The rows of a chunk are played in the order they were written, so
  receive times must not go backwards in a topic. Distinct topic records have distinct
  entities, and there are fewer than \<open>2 ^ 32\<close> writes.
\<close>

theorem recording_replays:
  assumes "writer_open env path config reads = Some (Inr w)" "Lenses \<notin> representations config"
    and "list_all (lossless_call env (representations config)) cs"
    and "l = fold entered cs no_ledger" "lg_writes l < 2 ^ 32"
    and "inj_on (\<lambda>r. we_entity env (rec_topic r)) (set (slot_records l))"
    and "stores (env_file renv) prop (os_file (snd (writer_close env (snd (session env cs w)))))"
    and "libraries_agree env renv M decoded prop"
    and "replays_back env (env_cdr renv) decoded (representations config) l"
  shows "\<exists>rd. reader_open renv = Inr rd \<and> rd_metadata_yaml rd = lg_metadata l
    \<and> drain renv rd = Inr (map (delivered l) (sort_key written_key (lg_messages l)))"
proof -
  have libs: "faithful env M" "same_libraries env renv" "decodes_values env M decoded"
    "keeps_metadata prop (env_property renv)"
    "\<And>yaml. \<not> isl (we_file_property env METADATA_PROPERTY yaml)"
    using assms(8) by (simp_all add: libraries_agree_def)
  obtain ss where ss: "recorded env M (representations config) l ss"
    "os_file (snd (writer_close env (snd (session env cs w)))) = ss @ metadata_sent (lg_metadata l)"
    using closed_recorded [OF libs(1) assms(1-5) refl] libs(5) by (auto cong: option.case_cong)
  have order: "sorted_wrt (\<lambda>x y. in_sequence (snd x) < in_sequence (snd y)) (lg_messages l)" "ledger_ok l"
    using ledger_sequences ledger_wf by (simp_all add: assms(4))
  show ?thesis
    by (rule recorded_replays [OF assms(7) [unfolded ss(2)] libs(1,2,4,3) ss(1) order(2) assms(9) order(1) assms(6)])
qed

abbreviation byte_sent :: "nat sent list" where
  "byte_sent \<equiv> os_file (snd (writer_close byte_writer_env
     (snd (session byte_writer_env byte_session (byte_writer {Reflected})))))"

lemma byte_opens:
  "writer_open byte_writer_env ''bag.rrd'' (byte_config {Reflected} None) 0 = Some (Inr (byte_writer {Reflected}))"
  by (rule byte_writer_opens) simp

text \<open>The file of any session on the byte libraries, by what was sent.\<close>

lemma byte_stored:
  assumes "list_all2 (entry_sent byte_writer_env byte_meaning asked (slot_records l)) es ss"
  shows "stores (env_file (byte_reader_env indexed (ss @ metadata_sent md))) byte_prop (ss @ metadata_sent md)"
proof (rule byte_file_stores, intro ballI impI)
  fix c assume c: "c \<in> set (map (sent_chunk byte_prop) (ss @ metadata_sent md))" "\<not> ch_static c"
  have build: "builds_chunks (pe_chunk (we_pipeline byte_writer_env))"
    using byte_faithful by (auto simp: faithful_def lawful_def)
  have md: "\<forall>c \<in> set (map (sent_chunk byte_prop) (metadata_sent md)). ch_static c"
    by (cases md) (simp_all add: byte_prop_def)
  have "\<exists>r. holds_messages (topic_columns byte_writer_env r) (map fst (ch_components c))"
    using rows_sent [OF build assms md c] by blast
  then show "ch_components c \<noteq> []" by (auto simp: holds_messages_def)
qed

lemma byte_sent_stored: "stores (env_file (byte_reader_env indexed byte_sent)) byte_prop byte_sent"
proof -
  have "\<exists>ss. recorded byte_writer_env byte_meaning (representations (byte_config {Reflected} None)) byte_ledger ss
      \<and> byte_sent = ss @
        (case lg_metadata byte_ledger of
           None \<Rightarrow> []
         | Some yaml \<Rightarrow>
             if isl (we_file_property byte_writer_env METADATA_PROPERTY yaml) then []
             else [SentProperty METADATA_PROPERTY yaml])"
    by (rule closed_recorded [OF byte_faithful byte_opens _ _ byte_ledger_entered _ refl])
      (simp_all add: byte_config_def byte_session_lossless byte_ledger_def)
  then obtain ss where ss: "recorded byte_writer_env byte_meaning {Reflected} byte_ledger ss"
    "byte_sent = ss @ metadata_sent (lg_metadata byte_ledger)"
    by (auto simp: byte_config_def byte_ledger_def byte_writer_env_def)
  obtain es where
    "list_all2 (entry_sent byte_writer_env byte_meaning {Reflected} (slot_records byte_ledger)) es ss"
    using ss(1) by (auto simp: recorded_def)
  then show ?thesis unfolding ss(2) by (rule byte_stored)
qed

lemma byte_agree:
  "libraries_agree byte_writer_env (byte_reader_env indexed ss) byte_meaning byte_decoded byte_prop"
  by (simp add: libraries_agree_def byte_faithful byte_libraries byte_decodes)
    (simp add: byte_writer_env_def)

lemma byte_replays: "replays_back byte_writer_env plain_writer byte_decoded asked byte_ledger"
  by (simp add: replays_back_def byte_ledger_def messages_to_def less_Suc_eq in_range_def i64_MIN_def i64_MAX_def
      canonical_def byte_decoded_def plain_writer_def byte_cdr_def ENCAPSULATION_def)

lemma byte_entities: "inj_on (\<lambda>r. we_entity byte_writer_env (rec_topic r)) (set (slot_records byte_ledger))"
  by (simp add: byte_ledger_def byte_topic_def byte_writer_env_def)

theorem recording_replays_witness:
  "\<forall>indexed. \<exists>rd. reader_open (byte_reader_env indexed byte_sent) = Inr rd \<and> rd_metadata_yaml rd = Some ''yaml''
     \<and> drain (byte_reader_env indexed byte_sent) rd = Inr
         [\<lparr>msg_topic_name = ''/bb'', msg_recv_timestamp = 5, msg_send_timestamp = 5, msg_data = byte_cdr 8\<rparr>,
          \<lparr>msg_topic_name = ''/a'', msg_recv_timestamp = 7, msg_send_timestamp = 4, msg_data = byte_cdr 7\<rparr>,
          \<lparr>msg_topic_name = ''/bb'', msg_recv_timestamp = 9, msg_send_timestamp = 2, msg_data = byte_cdr 10\<rparr>]"
proof
  fix indexed
  have "\<exists>rd. reader_open (byte_reader_env indexed byte_sent) = Inr rd \<and> rd_metadata_yaml rd = lg_metadata byte_ledger
      \<and> drain (byte_reader_env indexed byte_sent) rd =
          Inr (map (delivered byte_ledger) (sort_key written_key (lg_messages byte_ledger)))"
    by (rule recording_replays [OF byte_opens _ _ byte_ledger_entered _ _ byte_sent_stored byte_agree])
      (use byte_replays byte_entities byte_session_lossless in \<open>simp_all add: byte_config_def byte_libraries, simp add: byte_ledger_def\<close>)
  moreover have "map (delivered byte_ledger) (sort_key written_key (lg_messages byte_ledger)) =
         [\<lparr>msg_topic_name = ''/bb'', msg_recv_timestamp = 5, msg_send_timestamp = 5, msg_data = byte_cdr 8\<rparr>,
          \<lparr>msg_topic_name = ''/a'', msg_recv_timestamp = 7, msg_send_timestamp = 4, msg_data = byte_cdr 7\<rparr>,
          \<lparr>msg_topic_name = ''/bb'', msg_recv_timestamp = 9, msg_send_timestamp = 2, msg_data = byte_cdr 10\<rparr>]"
    by (simp add: byte_ledger_def delivered_def byte_topic_def)
  ultimately show "\<exists>rd. reader_open (byte_reader_env indexed byte_sent) = Inr rd \<and> rd_metadata_yaml rd = Some ''yaml''
     \<and> drain (byte_reader_env indexed byte_sent) rd = Inr
         [\<lparr>msg_topic_name = ''/bb'', msg_recv_timestamp = 5, msg_send_timestamp = 5, msg_data = byte_cdr 8\<rparr>,
          \<lparr>msg_topic_name = ''/a'', msg_recv_timestamp = 7, msg_send_timestamp = 4, msg_data = byte_cdr 7\<rparr>,
          \<lparr>msg_topic_name = ''/bb'', msg_recv_timestamp = 9, msg_send_timestamp = 2, msg_data = byte_cdr 10\<rparr>]"
    by (simp add: byte_ledger_def)
qed

end
