(* ===== verification/Counts.thy ===== *)
theory Counts
  imports Roundtrip
begin

text \<open>
  What an opened recording says about itself, which is what \<open>ros2 bag info\<close> shows: the number
  of messages, of each topic and in all, and the time between the first and the last, are those
  of the ledger, whether the reader takes them from the chunk index or from the scan.
\<close>

section \<open>The span of receive times\<close>

definition span :: "i64 list \<Rightarrow> (i64 \<times> i64) option" where
  "span ts = (if ts = [] then None else Some (Min (set ts), Max (set ts)))"

lemma span_cong: "set xs = set ys \<Longrightarrow> span xs = span ys"
  by (auto simp: span_def)

lemma merge_span: "merge_range (span xs) (span ys) = span (xs @ ys)"
  by (auto simp: span_def Min_Un Max_Un)

lemma merge_spans: "fold (\<lambda>ts r. merge_range r (span ts)) tss (span xs) = span (xs @ concat tss)"
  by (induction tss arbitrary: xs) (simp_all add: merge_span)

lemma widen_span: "snd (fold widen ts (earliest, span xs)) = span (xs @ ts)"
proof (induction ts arbitrary: xs earliest)
  case (Cons t ts)
  have "widen t (earliest, span xs) = (min earliest t, span (xs @ [t]))"
    by (cases "xs = []") (simp_all add: span_def min.commute max.commute)
  then show ?case using Cons.IH [of _ "xs @ [t]"] by simp
qed simp

lemma scan_chunk_span: "sc_time_range (scan_chunk c) = span (unwrap_or (times c RECV_TIMESTAMP) [])"
  using widen_span [of _ _ "[]"] by (simp add: scan_chunk_def Let_def span_def)

lemma hull_span:
  assumes "rs \<noteq> []"
  shows "Some (Min (cr_start ` set rs), Max (cr_end ` set rs)) =
    fold (\<lambda>r acc. merge_range acc (Some (cr_start r, cr_end r))) rs None"
  using assms
proof (induction rs rule: rev_induct)
  case (snoc r rs)
  show ?case
  proof (cases "rs = []")
    case False
    then have "Min (cr_start ` set (rs @ [r])) = min (Min (cr_start ` set rs)) (cr_start r)"
      "Max (cr_end ` set (rs @ [r])) = max (Max (cr_end ` set rs)) (cr_end r)"
      by (simp_all add: min.commute max.commute)
    then show ?thesis using snoc.IH [OF False, symmetric] by simp
  qed simp
qed simp

section \<open>Rows and their counts\<close>

lemma map_eq_related: "list_all2 R xs ys \<Longrightarrow> (\<And>x y. R x y \<Longrightarrow> f x = g y) \<Longrightarrow> map f xs = map g ys"
  by (induction rule: list_all2_induct) simp_all

text \<open>The chunks of rows among what was sent, each with the entry it is the flush of.\<close>

definition row_chunk ::
  "('e, 'd, 'u) writer_env \<Rightarrow> ('d, 'v) meaning \<Rightarrow> representations \<Rightarrow> topic_record list
   \<Rightarrow> usize \<times> (incoming \<times> bool) list \<Rightarrow> 'e chunk \<Rightarrow> bool" where
  "row_chunk env M asked rs f c \<longleftrightarrow>
     fst f < length rs \<and> chunk_of_topic env M asked (rs ! fst f) (snd f) c"

fun flush_of :: "entry \<Rightarrow> (usize \<times> (incoming \<times> bool) list) option" where
  "flush_of (Declared r) = None"
| "flush_of (Flushed i mds) = Some (i, mds)"

lemma row_chunks:
  assumes "builds_chunks (pe_chunk (we_pipeline env))" "list_all2 (entry_sent env M asked rs) es ss"
  shows "list_all2 (row_chunk env M asked rs) (filter_map flush_of es)
    (filter (\<lambda>c. \<not> ch_static c) (map (sent_chunk prop) ss))"
  using assms(2)
proof (induction rule: list_all2_induct)
  case (Cons e es s ss)
  obtain c where s: "s = SentChunk c" using Cons.hyps(1) by (auto simp: entry_sent_def)
  show ?case
  proof (cases e)
    case (Declared r)
    then have "ch_static c" using declared_static [OF assms(1)] Cons.hyps(1) s by blast
    then show ?thesis using Cons.IH Declared s by simp
  next
    case (Flushed i mds)
    then have "row_chunk env M asked rs (i, mds) c"
      using Cons.hyps(1) by (simp add: entry_sent_def row_chunk_def s)
    moreover from this have "\<not> ch_static c"
      using message_chunk_temporal [of env M asked "rs ! i" mds c] by (simp add: row_chunk_def)
    ultimately show ?thesis using Cons.IH Flushed s by simp
  qed
qed simp

definition flush_messages :: "usize \<times> (incoming \<times> bool) list \<Rightarrow> (usize \<times> incoming) list" where
  "flush_messages f = map (\<lambda>md. (fst f, fst md)) (snd f)"

lemma concat_flushes: "concat (map flush_messages (filter_map flush_of es)) = concat (map entry_messages es)"
proof (induction es)
  case (Cons e es)
  then show ?case by (cases e) (simp_all add: flush_messages_def)
qed simp

lemma row_chunk_counts:
  assumes "row_chunk env M asked rs f c"
  shows "ch_num_rows c = length (flush_messages f)"
    "unwrap_or (times c RECV_TIMESTAMP) [] = map (in_recv \<circ> snd) (flush_messages f)"
    "times c RECV_TIMESTAMP = Some (map (in_recv \<circ> snd) (flush_messages f))"
    "flush_messages f \<noteq> []" "ch_entity c = we_entity env (rec_topic (rs ! fst f))" "fst f < length rs"
    "holds_messages (topic_columns env (rs ! fst f)) (map fst (ch_components c))"
  using assms
  by (auto simp: row_chunk_def chunk_of_topic_def message_chunk_def flush_messages_def comp_def)

section \<open>What opening counts\<close>

lemma tally_at:
  "k < length counts \<Longrightarrow>
   counts ! k + (\<Sum>(e, c, n) \<leftarrow> filter (\<lambda>(e, c, n). counted topics ti e c = Some k) seen. n) < 2 ^ 64 \<Longrightarrow>
     fst (tally topics ti seen (counts, flags)) ! k =
       counts ! k + (\<Sum>(e, c, n) \<leftarrow> filter (\<lambda>(e, c, n). counted topics ti e c = Some k) seen. n)"
proof (induction seen arbitrary: counts flags)
  case (Cons s seen)
  obtain e c n where s: "s = (e, c, n)" by (cases s)
  show ?case
  proof (cases "counted topics ti e c")
    case (Some t)
    let ?counts = "counts[t := wrap_u64 (counts ! t + n)]"
    have "?counts ! k = (if t = k then counts ! k + n else counts ! k)"
      using Cons.prems by (auto simp: s Some wrap_u64_id)
    then show ?thesis using Cons.IH [of ?counts] Cons.prems by (auto simp: s Some)
  qed (use Cons s in simp)
qed simp

definition same_summary :: "'e \<times> string list \<times> usize \<Rightarrow> 'e chunk \<Rightarrow> bool" where
  "same_summary x c \<longleftrightarrow>
     (case x of (e, comps, n) \<Rightarrow>
        e = ch_entity c \<and> set comps = set (map fst (ch_components c)) \<and> n = ch_num_rows c)"

lemma summarizes_seen:
  assumes "summarizes file index scanned rows"
  obtains seen where "mset (seen_chunks index scanned) = mset seen" "list_all2 same_summary seen rows"
proof (cases index)
  case None
  then have "list_all2 same_summary (seen_chunks index scanned) rows"
    using assms
    by (auto simp: summarizes_def seen_chunks_def same_summary_def scan_chunk_def Let_def list_all2_map1
        intro!: list.rel_refl)
  then show thesis using that by blast
next
  case (Some ix)
  obtain refs where refs: "mset (ix_chunks ix) = mset refs" "list_all2 (leads_to file) refs rows"
    using assms Some by (auto simp: summarizes_def)
  let ?seen = "map (\<lambda>c. (cr_entity c, cr_components c, cr_num_rows c)) refs"
  have "list_all2 same_summary ?seen rows"
    unfolding list_all2_map1
    by (rule list_all2_mono [OF refs(2)]) (auto simp: leads_to_def same_summary_def)
  moreover have "mset (seen_chunks index scanned) = mset ?seen"
    using refs(1) Some by (simp add: seen_chunks_def)
  ultimately show thesis using that by blast
qed

lemma sum_mset_cong:
  "mset xs = mset ys \<Longrightarrow> sum_list (map g (filter P xs)) = (sum_list (map g (filter P ys)) :: nat)"
  by (metis mset_filter mset_map sum_mset_sum_list)

lemma seen_rows:
  assumes "list_all2 same_summary seen rows"
    and "\<And>e comps n c. same_summary (e, comps, n) c \<Longrightarrow> c \<in> set rows \<Longrightarrow> P e comps = Q c"
  shows "(\<Sum>(e, comps, n) \<leftarrow> filter (\<lambda>(e, comps, n). P e comps) seen. n)
    = sum_list (map ch_num_rows (filter Q rows))"
  using assms
proof (induction rule: list_all2_induct)
  case (Cons x xs c cs)
  obtain e comps n where x: "x = (e, comps, n)" by (cases x)
  have "P e comps = Q c" "n = ch_num_rows c"
    using Cons.prems [of e comps n c] Cons.hyps(1) by (simp_all add: x same_summary_def)
  moreover have "(\<Sum>(e, comps, n) \<leftarrow> filter (\<lambda>(e, comps, n). P e comps) xs. n)
      = sum_list (map ch_num_rows (filter Q cs))"
    by (rule Cons.IH) (use Cons.prems in simp)
  ultimately show ?case by (simp add: x)
qed simp

text \<open>Every chunk of rows is seated at a topic, so each of its rows is counted there.\<close>

lemma opened_counts:
  assumes "opened_on renv found md chunks rd"
    and "index_topics (env_archetype_ok renv) found [] [] = (topics, ti)"
    and "rows = filter (\<lambda>c. \<not> ch_static c) chunks" "sum_list (map ch_num_rows rows) < 2 ^ 64"
    and seat: "\<And>c comps. c \<in> set rows \<Longrightarrow> set comps = set (map fst (ch_components c)) \<Longrightarrow>
      counted topics ti (ch_entity c) comps = Some (seat c)"
  shows "rd_message_count rd = sum_list (map ch_num_rows rows)"
    "\<And>k. k < length topics \<Longrightarrow> ti_message_count (rd_topics rd ! k) =
       sum_list (map ch_num_rows (filter (\<lambda>c. seat c = k) rows))"
proof -
  obtain index rid scanned where o: "restart renv (reader_of renv index rid found md scanned) = (Inr (), rd)"
    "summarizes (env_file renv) index scanned rows"
    using assms(1,3) by (auto simp: opened_on_def)
  obtain seen where seen: "mset (seen_chunks index scanned) = mset seen" "list_all2 same_summary seen rows"
    by (rule summarizes_seen [OF o(2)])
  have at: "(\<Sum>(e, comps, n) \<leftarrow> filter (\<lambda>(e, comps, n). P (counted topics ti e comps)) (seen_chunks index scanned). n)
      = sum_list (map ch_num_rows (filter (\<lambda>c. P (Some (seat c))) rows))" for P
  proof -
    have "(\<Sum>(e, comps, n) \<leftarrow> filter (\<lambda>(e, comps, n). P (counted topics ti e comps)) (seen_chunks index scanned). n)
        = (\<Sum>(e, comps, n) \<leftarrow> filter (\<lambda>(e, comps, n). P (counted topics ti e comps)) seen. n)"
      by (rule sum_mset_cong [OF seen(1)])
    also have "\<dots> = sum_list (map ch_num_rows (filter (\<lambda>c. P (Some (seat c))) rows))"
      by (rule seen_rows [OF seen(2)]) (use seat in \<open>auto simp: same_summary_def\<close>)
    finally show ?thesis .
  qed
  note kept = restart_counts [OF o(1)]
  have "rd_message_count rd = wrap_u64 (sum_list (map ch_num_rows rows))"
    using kept at [of "\<lambda>x. x \<noteq> None"] by (simp add: reader_of_message_count [OF assms(2)])
  then show "rd_message_count rd = sum_list (map ch_num_rows rows)"
    using assms(4) by (simp add: wrap_u64_id)
  fix k assume k: "k < length topics"
  have part: "sum_list (map ch_num_rows (filter Q rows)) \<le> sum_list (map ch_num_rows rows)" for Q
    by (induction rows) auto
  have "map ti_message_count (rd_topics rd) = fst (tallied topics ti (seen_chunks index scanned))"
    using kept by (simp add: reader_of_topic_counts [OF assms(2)])
  moreover have "fst (tallied topics ti (seen_chunks index scanned)) ! k =
      sum_list (map ch_num_rows (filter (\<lambda>c. seat c = k) rows))"
    using tally_at [of k "replicate (length topics) 0" topics ti "seen_chunks index scanned"]
      at [of "\<lambda>x. x = Some k"] part [of "\<lambda>c. seat c = k"] assms(4) k by simp
  moreover have "length (rd_topics rd) = length topics"
    using kept by (simp add: reader_of_def assms(2) Let_def)
  ultimately show "ti_message_count (rd_topics rd ! k) =
      sum_list (map ch_num_rows (filter (\<lambda>c. seat c = k) rows))"
    using k by (metis nth_map)
qed

lemma fold_related:
  "list_all2 R xs ys \<Longrightarrow> (\<And>x y. R x y \<Longrightarrow> f x = g y) \<Longrightarrow> fold f xs a = fold g ys a"
  by (induction arbitrary: a rule: list_all2_induct) simp_all

lemma opened_range:
  assumes "opened_on renv found md chunks rd"
    and "index_topics (env_archetype_ok renv) found [] [] = (topics, ti)"
    and "rows = filter (\<lambda>c. \<not> ch_static c) chunks" "\<forall>c \<in> set rows. timed c"
    and seat: "\<And>c comps. c \<in> set rows \<Longrightarrow> set comps = set (map fst (ch_components c)) \<Longrightarrow>
      counted topics ti (ch_entity c) comps \<noteq> None"
  shows "rd_time_range rd = span (concat (map (\<lambda>c. unwrap_or (times c RECV_TIMESTAMP) []) rows))"
proof -
  let ?recv = "\<lambda>c. unwrap_or (times c RECV_TIMESTAMP) []"
  obtain index rid scanned where o: "restart renv (reader_of renv index rid found md scanned) = (Inr (), rd)"
    "summarizes (env_file renv) index scanned rows"
    using assms(1,3) by (auto simp: opened_on_def)
  have spans: "fold (\<lambda>c r. merge_range r (span (?recv c))) rows None = span (concat (map ?recv rows))"
    using merge_spans [of "map ?recv rows" "[]"] by (simp add: fold_map comp_def span_def)
  have "rd_time_range rd = rd_time_range (reader_of renv index rid found md scanned)"
    using o(1) by (auto simp: restart_def Let_def split: if_splits sum.splits)
  also have "\<dots> = fold (\<lambda>c r. merge_range r (span (?recv c))) rows None"
  proof (cases index)
    case None
    then have scanned: "scanned = map scan_chunk rows" using o(2) by (simp add: summarizes_def)
    have "filter (\<lambda>c. counted topics ti (sc_entity c) (sc_components c) \<noteq> None) scanned = scanned"
      using seat by (auto simp: scanned scan_chunk_def Let_def)
    then have "rd_time_range (reader_of renv index rid found md scanned)
        = fold (\<lambda>c r. merge_range r (sc_time_range c)) scanned None"
      by (simp add: reader_of_def assms(2) None Let_def del: not_None_eq)
    then show ?thesis by (simp add: scanned fold_map comp_def scan_chunk_span)
  next
    case (Some ix)
    obtain refs where refs: "index_wf ix" "mset (ix_chunks ix) = mset refs"
      "list_all2 (leads_to (env_file renv)) refs rows"
      using o(2) Some by (auto simp: summarizes_def)
    have members: "set (ix_chunks ix) = set refs" by (rule mset_eq_setD [OF refs(2)])
    have "counted topics ti (cr_entity r) (cr_components r) \<noteq> None" if "r \<in> set (ix_chunks ix)" for r
    proof -
      have "r \<in> set refs" using that members by blast
      then obtain c where c: "c \<in> set rows" "leads_to (env_file renv) r c"
        using list_all2_left [OF refs(3)] by blast
      then have same: "cr_entity r = ch_entity c" "set (cr_components r) = set (map fst (ch_components c))"
        unfolding leads_to_def by blast+
      show ?thesis unfolding same(1) by (rule seat [OF c(1) same(2)])
    qed
    then have "filter (\<lambda>c. counted topics ti (cr_entity c) (cr_components c) \<noteq> None) (ix_chunks ix) = ix_chunks ix"
      by simp
    then have "rd_time_range (reader_of renv index rid found md scanned) = index_time_range ix"
      by (simp add: reader_of_def assms(2) Some Let_def index_retain_def recompute_max_end_through_def
          index_time_range_def del: not_None_eq)
    also have "\<dots> = fold (\<lambda>r acc. merge_range acc (Some (cr_start r, cr_end r))) refs None"
    proof (cases "refs = []")
      case False
      then have "ix_chunks ix \<noteq> []" using members by auto
      from time_range_hull [OF refs(1) this] show ?thesis using hull_span [OF False] members by simp
    qed (use refs(2) in \<open>simp add: index_time_range_def\<close>)
    also have "\<dots> = fold (\<lambda>c r. merge_range r (span (?recv c))) rows None"
    proof (rule fold_related [of "\<lambda>r c. leads_to (env_file renv) r c \<and> timed c"])
      show "list_all2 (\<lambda>r c. leads_to (env_file renv) r c \<and> timed c) refs rows"
        by (rule list.rel_mono_strong [OF refs(3)]) (use assms(4) in simp)
    next
      fix r c assume "leads_to (env_file renv) r c \<and> timed c"
      then have "Some (cr_start r, cr_end r) = span (?recv c)"
        by (auto simp: leads_to_def timed_def span_def split: option.splits)
      then show "(\<lambda>acc. merge_range acc (Some (cr_start r, cr_end r))) = (\<lambda>acc. merge_range acc (span (?recv c)))"
        by simp
    qed
    finally show ?thesis .
  qed
  finally show ?thesis using spans by simp
qed

section \<open>What a recording reports\<close>

lemma row_chunks_count:
  assumes "list_all2 (row_chunk env M asked rs) fs rows"
    and "\<And>f c. row_chunk env M asked rs f c \<Longrightarrow> c \<in> set rows \<Longrightarrow> Q c = P (fst f)"
  shows "sum_list (map ch_num_rows (filter Q rows)) =
    length (filter (\<lambda>x. P (fst x)) (concat (map flush_messages fs)))"
  using assms
proof (induction rule: list_all2_induct)
  case (Cons f fs c cs)
  have "filter (\<lambda>x. P (fst x)) (flush_messages f) = (if P (fst f) then flush_messages f else [])"
    by (simp add: flush_messages_def filter_map comp_def)
  moreover have "sum_list (map ch_num_rows (filter Q cs)) =
      length (filter (\<lambda>x. P (fst x)) (concat (map flush_messages fs)))"
    by (rule Cons.IH) (use Cons.prems in simp)
  moreover have "Q c = P (fst f)" using Cons.prems Cons.hyps(1) by simp
  ultimately show ?case using row_chunk_counts(1) [OF Cons.hyps(1)] by simp
qed simp

lemma row_chunks_times:
  assumes "list_all2 (row_chunk env M asked rs) fs rows"
  shows "concat (map (\<lambda>c. unwrap_or (times c RECV_TIMESTAMP) []) rows) =
      map (in_recv \<circ> snd) (concat (map flush_messages fs))"
    and "\<forall>c \<in> set rows. timed c"
proof -
  have "map (\<lambda>f. map (in_recv \<circ> snd) (flush_messages f)) fs = map (\<lambda>c. unwrap_or (times c RECV_TIMESTAMP) []) rows"
    by (rule map_eq_related [OF assms]) (simp add: row_chunk_counts(2))
  then show "concat (map (\<lambda>c. unwrap_or (times c RECV_TIMESTAMP) []) rows) =
      map (in_recv \<circ> snd) (concat (map flush_messages fs))"
    by (simp add: map_concat comp_def)
  show "\<forall>c \<in> set rows. timed c"
  proof
    fix c assume "c \<in> set rows"
    then obtain f where "row_chunk env M asked rs f c" using list_all2_right [OF assms] by blast
    from row_chunk_counts(3,4) [OF this] show "timed c" by (simp add: timed_def)
  qed
qed

lemma opened_topics:
  assumes "opened_on renv found md chunks rd"
    and "index_topics (env_archetype_ok renv) found [] [] = (topics, ti)"
  shows "rd_topic_index rd = ti" "length (rd_topics rd) = length topics"
    "\<And>k. k < length topics \<Longrightarrow> ti_columns (rd_topics rd ! k) = ti_columns (topics ! k)"
    "\<And>e k. map_of ti e = Some k \<Longrightarrow> k < length topics"
proof -
  obtain index rid scanned where o: "restart renv (reader_of renv index rid found md scanned) = (Inr (), rd)"
    using assms(1) by (auto simp: opened_on_def)
  then have "rd_topic_index rd = rd_topic_index (reader_of renv index rid found md scanned)"
    "rd_topics rd = rd_topics (reader_of renv index rid found md scanned)"
    by (auto simp: restart_def Let_def split: if_splits sum.splits)
  then show "rd_topic_index rd = ti" "length (rd_topics rd) = length topics"
    "\<And>k. k < length topics \<Longrightarrow> ti_columns (rd_topics rd ! k) = ti_columns (topics ! k)"
    by (simp_all add: reader_of_def assms(2) Let_def nth_enumerate_eq finish_topic_def)
  show "\<And>e k. map_of ti e = Some k \<Longrightarrow> k < length topics"
    using index_topics_bound [OF assms(2)] by (auto dest!: map_of_SomeD)
qed

lemma row_seat:
  assumes "row_chunk env M asked rs f c" "knows_topic env ss rd (rs ! fst f) k"
    and "opened_on renv found md chunks rd" "index_topics (env_archetype_ok renv) found [] [] = (topics, ti)"
    and "set comps = set (map fst (ch_components c))"
  shows "counted topics ti (ch_entity c) comps = Some k" "k < length topics"
proof -
  note topics = opened_topics [OF assms(3,4)]
  note row = row_chunk_counts [OF assms(1)]
  have k: "map_of ti (ch_entity c) = Some k" "ti_columns (rd_topics rd ! k) = topic_columns env (rs ! fst f)"
    using assms(2) row(5) topics(1) by (simp_all add: knows_topic_def)
  show "k < length topics" by (rule topics(4) [OF k(1)])
  then have "ti_columns (topics ! k) = topic_columns env (rs ! fst f)" using topics(3) k(2) by simp
  then show "counted topics ti (ch_entity c) comps = Some k"
    using k(1) row(7) holds_set(2) [OF assms(5)] by (simp add: counted_def)
qed

lemma knows_one:
  assumes "knows_topic env ss rd r k" "knows_topic env ss rd q k"
    and "inj_on (\<lambda>r. we_entity env (rec_topic r)) rs" "r \<in> rs" "q \<in> rs"
  shows "r = q"
proof -
  have "rec_topic r = rec_topic q" using assms(1,2) by (simp add: knows_topic_def)
  then show ?thesis using inj_onD [OF assms(3) _ assms(4,5)] by simp
qed

lemma recorded_counts:
  fixes env :: "('e::linorder, 'd, 'u) writer_env"
  assumes "stores (env_file renv) prop (ss @ metadata_sent md)" "faithful env M" "same_libraries env renv"
    and "keeps_metadata prop (env_property renv)" "recorded env M asked l ss" "ledger_ok l"
    and "inj_on (\<lambda>r. we_entity env (rec_topic r)) (set (slot_records l))"
    and "length (lg_messages l) < 2 ^ 64"
  shows "\<exists>rd. reader_open renv = Inr rd
    \<and> rd_message_count rd = length (lg_messages l)
    \<and> rd_time_range rd = span (map (in_recv \<circ> snd) (lg_messages l))
    \<and> (\<forall>r \<in> set (slot_records l). \<exists>t \<in> set (rd_topics rd). ti_name t = rec_topic r
         \<and> ti_message_count t = length (filter (\<lambda>x. slot_records l ! fst x = r) (lg_messages l)))"
proof -
  let ?rs = "slot_records l"
  obtain es where es: "list_all2 (entry_sent env M asked ?rs) es ss"
    "\<And>r. Declared r \<in> set es \<longleftrightarrow> r \<in> set ?rs"
    "\<And>i. i < length (lg_slots l) \<Longrightarrow> flushed i es = messages_to i l"
    using recorded_entries [OF assms(5)] by blast
  let ?found = "declared (we_entity env) es []" and ?chunks = "map (sent_chunk prop) (ss @ metadata_sent md)"
  obtain rd where rd: "reader_open renv = Inr rd" "rd_metadata_yaml rd = md" "plays_chunks renv rd ?chunks"
    "\<And>r. r \<in> set ?rs \<Longrightarrow> \<exists>k. knows_topic env ss rd r k" "opened_on renv ?found md ?chunks rd"
    by (rule open_recorded [OF assms(1-4) es(1,2) assms(7)]) (rule that, blast+)
  obtain topics ti where ix: "index_topics (env_archetype_ok renv) ?found [] [] = (topics, ti)" by fastforce
  define fs where "fs = filter_map flush_of es"
  define rows where "rows = filter (\<lambda>c. \<not> ch_static c) ?chunks"
  have build: "builds_chunks (pe_chunk (we_pipeline env))"
    using assms(2) by (simp add: faithful_def lawful_def)
  have "rows = filter (\<lambda>c. \<not> ch_static c) (map (sent_chunk prop) ss)"
    using collected_topics(2) [OF assms(2-4) es(1), of md] by (simp add: rows_def filter_empty_conv)
  then have related: "list_all2 (row_chunk env M asked ?rs) fs rows"
    using row_chunks [OF build es(1)] by (simp add: fs_def)
  have messages: "mset (concat (map flush_messages fs)) = mset (lg_messages l)"
    using recorded_messages [OF assms(6) es(1,3)] by (simp add: fs_def concat_flushes)
  have same: "length (filter P (concat (map flush_messages fs))) = length (filter P (lg_messages l))" for P
    using arg_cong [OF messages, of "\<lambda>X. size (filter_mset P X)"] by (simp flip: mset_filter)
  have known: "\<exists>f k. row_chunk env M asked ?rs f c \<and> knows_topic env ss rd (?rs ! fst f) k" if c: "c \<in> set rows" for c
  proof -
    obtain f where f: "row_chunk env M asked ?rs f c" using list_all2_right [OF related c] by blast
    then have "?rs ! fst f \<in> set ?rs" using row_chunk_counts(6) by (metis nth_mem)
    then show ?thesis using f rd(4) by blast
  qed
  define seat where "seat c = the (map_of ti (ch_entity c))" for c :: "'e chunk"
  have seat_at: "seat c = k" if "row_chunk env M asked ?rs f c" "knows_topic env ss rd (?rs ! fst f) k" for f c k
    using that(2) row_chunk_counts(5) [OF that(1)] opened_topics(1) [OF rd(5) ix]
    by (simp add: seat_def knows_topic_def)
  have seated: "counted topics ti (ch_entity c) comps = Some (seat c)"
    if "c \<in> set rows" "set comps = set (map fst (ch_components c))" for c comps
    using known [OF that(1)] row_seat(1) [OF _ _ rd(5) ix that(2)] seat_at by metis
  have total: "sum_list (map ch_num_rows rows) = length (lg_messages l)"
    using row_chunks_count [OF related, of "\<lambda>_. True" "\<lambda>_. True"] same [of "\<lambda>_. True"] by simp
  note counts = opened_counts [OF rd(5) ix rows_def _ seated]
  have "rd_message_count rd = length (lg_messages l)"
    using counts(1) total assms(8) by simp
  moreover have "rd_time_range rd = span (map (in_recv \<circ> snd) (lg_messages l))"
  proof -
    have "rd_time_range rd = span (map (in_recv \<circ> snd) (concat (map flush_messages fs)))"
      unfolding row_chunks_times(1) [OF related, symmetric]
      by (rule opened_range [OF rd(5) ix rows_def row_chunks_times(2) [OF related]]) (use seated in simp)
    also have "\<dots> = span (map (in_recv \<circ> snd) (lg_messages l))"
      by (rule span_cong) (use mset_eq_setD [OF messages] in \<open>simp only: set_map\<close>)
    finally show ?thesis .
  qed
  moreover have "\<exists>t \<in> set (rd_topics rd). ti_name t = rec_topic r
      \<and> ti_message_count t = length (filter (\<lambda>x. ?rs ! fst x = r) (lg_messages l))" if r: "r \<in> set ?rs" for r
  proof -
    obtain k where k: "knows_topic env ss rd r k" using rd(4) [OF r] by blast
    then have bound: "k < length topics"
      using opened_topics(1,4) [OF rd(5) ix] by (auto simp: knows_topic_def)
    have "(seat c = k) = (?rs ! fst f = r)" if "row_chunk env M asked ?rs f c" for f c
    proof -
      have q: "?rs ! fst f \<in> set ?rs" using row_chunk_counts(6) [OF that] by simp
      then obtain j where j: "knows_topic env ss rd (?rs ! fst f) j" using rd(4) by blast
      then show ?thesis using seat_at [OF that] k knows_one [OF _ _ assms(7) q r] by metis
    qed
    then have "ti_message_count (rd_topics rd ! k) = length (filter (\<lambda>x. ?rs ! fst x = r) (lg_messages l))"
      using counts(2) [OF _ _ _ bound] total assms(8)
        row_chunks_count [OF related, of "\<lambda>c. seat c = k" "\<lambda>i. ?rs ! i = r"] same by simp
    moreover have "rd_topics rd ! k \<in> set (rd_topics rd)"
      using bound opened_topics(2) [OF rd(5) ix] by simp
    ultimately show ?thesis using k by (auto simp: knows_topic_def)
  qed
  ultimately show ?thesis using rd(1) by blast
qed

text \<open>
  C5: a recording reports what was recorded. Take a session of a recording without lenses whose
  decoders do not break (or which keeps raw copies), close it and open the file with
  or without its footer: the reader gives the number of messages that were accepted, the times
  of receiving the first and the last of them (or none, if there is none), and for each topic
  that was declared the number of its own messages, the ones before it was removed and, where it
  was declared again as the same topic, the ones after alike. No order of receive times is asked
  for. A topic that a lens consumes holds no message to count, so lenses are excluded; distinct
  topic records have distinct entities, and there are fewer than \<open>2 ^ 32\<close> writes.
\<close>

theorem recording_reports:
  assumes "writer_open env path config reads = Some (Inr w)" "Lenses \<notin> representations config"
    and "list_all (lossless_call env (representations config)) cs"
    and "l = fold entered cs no_ledger" "lg_writes l < 2 ^ 32"
    and "inj_on (\<lambda>r. we_entity env (rec_topic r)) (set (slot_records l))"
    and "stores (env_file renv) prop (os_file (snd (writer_close env (snd (session env cs w)))))"
    and "libraries_agree env renv M decoded prop"
  shows "\<exists>rd. reader_open renv = Inr rd
    \<and> rd_message_count rd = length (lg_messages l)
    \<and> rd_time_range rd = span (map (in_recv \<circ> snd) (lg_messages l))
    \<and> (\<forall>r \<in> set (slot_records l). \<exists>t \<in> set (rd_topics rd). ti_name t = rec_topic r
         \<and> ti_message_count t = length (filter (\<lambda>x. slot_records l ! fst x = r) (lg_messages l)))"
proof -
  have libs: "faithful env M" "same_libraries env renv" "keeps_metadata prop (env_property renv)"
    "\<And>yaml. \<not> isl (we_file_property env METADATA_PROPERTY yaml)"
    using assms(8) by (simp_all add: libraries_agree_def)
  obtain ss where ss: "recorded env M (representations config) l ss"
    "os_file (snd (writer_close env (snd (session env cs w)))) = ss @ metadata_sent (lg_metadata l)"
    using closed_recorded [OF libs(1) assms(1-5) refl] libs(4) by (auto cong: option.case_cong)
  have ok: "ledger_ok l" using ledger_wf by (simp add: assms(4))
  then have "length (lg_messages l) < 2 ^ 64" using assms(5) by (simp add: ledger_ok_def)
  then show ?thesis
    by (rule recorded_counts [OF assms(7) [unfolded ss(2)] libs(1-3) ss(1) ok assms(6)])
qed

theorem recording_reports_witness:
  "\<forall>indexed. \<exists>rd. reader_open (byte_reader_env indexed byte_sent) = Inr rd
     \<and> rd_message_count rd = 3 \<and> rd_time_range rd = Some (5, 9)
     \<and> (\<exists>t \<in> set (rd_topics rd). ti_name t = ''/a'' \<and> ti_message_count t = 1)"
proof
  fix indexed
  have "\<exists>rd. reader_open (byte_reader_env indexed byte_sent) = Inr rd
      \<and> rd_message_count rd = length (lg_messages byte_ledger)
      \<and> rd_time_range rd = span (map (in_recv \<circ> snd) (lg_messages byte_ledger))
      \<and> (\<forall>r \<in> set (slot_records byte_ledger). \<exists>t \<in> set (rd_topics rd). ti_name t = rec_topic r
         \<and> ti_message_count t = length (filter (\<lambda>x. slot_records byte_ledger ! fst x = r) (lg_messages byte_ledger)))"
    by (rule recording_reports [OF byte_opens _ _ byte_ledger_entered _ byte_entities byte_sent_stored byte_agree])
      (use byte_session_lossless in \<open>simp_all add: byte_config_def, simp add: byte_ledger_def\<close>)
  moreover have "length (lg_messages byte_ledger) = 3"
    "span (map (in_recv \<circ> snd) (lg_messages byte_ledger)) = Some (5, 9)"
    "byte_topic ''/a'' \<in> set (slot_records byte_ledger)"
    "length (filter (\<lambda>x. slot_records byte_ledger ! fst x = byte_topic ''/a'') (lg_messages byte_ledger)) = 1"
    "rec_topic (byte_topic ''/a'') = ''/a''"
    by (simp_all add: byte_ledger_def span_def byte_topic_def)
  ultimately show "\<exists>rd. reader_open (byte_reader_env indexed byte_sent) = Inr rd
      \<and> rd_message_count rd = 3 \<and> rd_time_range rd = Some (5, 9)
      \<and> (\<exists>t \<in> set (rd_topics rd). ti_name t = ''/a'' \<and> ti_message_count t = 1)"
    by metis
qed

end
