(* ===== verification/Recovery.thy ===== *)
theory Recovery
  imports Roundtrip
begin

text \<open>
  A recording that was killed: it was never closed, so the rows its topics still held are gone,
  as is what had not reached the disk, and its file ends without a footer. What is on disk is
  read back as it was written; what is missing is the rows of the chunks that were sent and are
  not on disk, and rows bounded by the flush policy.
\<close>

section \<open>What a file that was not closed holds\<close>

text \<open>
  The part of a ledger that the entries on disk account for: the topics they declare, and the
  messages they hold.
\<close>

definition reached :: "entry list \<Rightarrow> usize \<times> incoming \<Rightarrow> bool" where
  "reached es x \<longleftrightarrow> snd x \<in> set (flushed (fst x) es)"

definition on_disk :: "entry list \<Rightarrow> ledger \<Rightarrow> ledger" where
  "on_disk es l =
     l\<lparr>lg_names := (\<lambda>_. None), lg_slots := take (length (declarations es)) (lg_slots l),
       lg_messages := filter (reached es) (lg_messages l), lg_metadata := None\<rparr>"

text \<open>The rows that a list of sent items has of an entity.\<close>

fun rows_of :: "'e \<Rightarrow> 'e sent \<Rightarrow> nat" where
  "rows_of entity (SentChunk c) = (if ch_entity c = entity \<and> \<not> ch_static c then ch_num_rows c else 0)"
| "rows_of entity (SentProperty name yaml) = 0"

lemma on_disk_simps [simp]:
  "lg_slots (on_disk es l) = take (length (declarations es)) (lg_slots l)"
  "lg_messages (on_disk es l) = filter (reached es) (lg_messages l)"
  "messages_to i (on_disk es l) = map snd (filter (\<lambda>x. reached es x \<and> fst x = i) (lg_messages l))"
  by (simp_all add: on_disk_def messages_to_def conj_commute)

lemma messages_distinct:
  assumes "sorted_wrt (\<lambda>x y. in_sequence (snd x) < in_sequence (snd y)) (lg_messages l)"
  shows "distinct (messages_to i l)"
proof -
  have "sorted_wrt (\<lambda>m n. in_sequence m < in_sequence n) (messages_to i l)"
    using sorted_wrt_filter [OF assms] by (simp add: messages_to_def sorted_wrt_map)
  then have "sorted_wrt (<) (map in_sequence (messages_to i l))" by (simp add: sorted_wrt_map)
  then show ?thesis by (metis distinct_map strict_sorted_iff)
qed

lemma reached_messages:
  assumes "distinct (messages_to i l)" "flushed i es @ rest = messages_to i l"
  shows "map snd (filter (\<lambda>x. reached es x \<and> fst x = i) (lg_messages l)) = flushed i es"
proof -
  have "map snd (filter (\<lambda>x. reached es x \<and> fst x = i) (lg_messages l)) =
      map snd (filter (\<lambda>x. fst x = i \<and> snd x \<in> set (flushed i es)) (lg_messages l))"
    by (rule arg_cong [of _ _ "map snd"], rule filter_cong [OF refl]) (auto simp: reached_def)
  also have "\<dots> = filter (\<lambda>m. m \<in> set (flushed i es)) (messages_to i l)"
    by (simp add: messages_to_def filter_map comp_def conj_commute)
  also have "\<dots> = flushed i es"
    using assms(1) unfolding assms(2) [symmetric]
    by (auto simp: filter_id_conv filter_empty_conv)
  finally show ?thesis .
qed

text \<open>The entries before some point of a file stand for themselves.\<close>

lemma in_turn_declared: "in_turn k es \<Longrightarrow> Flushed i mds \<in> set es \<Longrightarrow> i < k + length (declarations es)"
proof (induction es arbitrary: k)
  case (Cons e es)
  then show ?case by (cases e) fastforce+
qed simp

lemma declarations_take:
  assumes "declarations es = rs"
  shows "declarations (take n es) = take (length (declarations (take n es))) rs"
proof -
  have "rs = declarations (take n es) @ declarations (drop n es)"
    using assms declarations_simps(3) [of "take n es" "drop n es"] by simp
  then show ?thesis by (metis append_eq_conv_conj)
qed

lemma in_turn_take: "in_turn k es \<Longrightarrow> in_turn k (take n es)"
  using in_turn_append [of k "take n es" "drop n es"] by simp

lemma entries_on_disk:
  assumes "list_all2 (entry_sent env M asked rs) es ss" "declarations es = rs" "in_turn 0 es"
  shows "list_all2 (entry_sent env M asked (take (length (declarations (take n es))) rs)) (take n es) (take n ss)"
proof (rule list.rel_mono_strong [OF list_all2_takeI [OF assms(1)]])
  let ?k = "length (declarations (take n es))"
  note declared = declarations_take [OF assms(2), of n]
  have k: "length (take ?k rs) = ?k" using arg_cong [OF declared, of length] by simp
  fix e s assume e: "e \<in> set (take n es)" "entry_sent env M asked rs e s"
  show "entry_sent env M asked (take ?k rs) e s"
  proof (cases e)
    case (Declared r)
    have "r \<in> set (declarations fs)" if "Declared r \<in> set fs" for fs
      using that by (force simp: declarations_def)
    then have "r \<in> set (take ?k rs)" using e(1) declared by (simp add: Declared)
    then show ?thesis using e(2) by (auto simp: entry_sent_def Declared)
  next
    case (Flushed i mds)
    then have "i < ?k" using in_turn_declared [OF in_turn_take [OF assms(3), of n]] e(1) by simp
    then show ?thesis using e(2) k by (auto simp: entry_sent_def Flushed)
  qed
qed

lemma on_disk_recorded:
  assumes "list_all2 (entry_sent env M asked (slot_records l)) es ss" "declarations es = slot_records l"
    and "in_turn 0 es" "\<And>i. i < length (lg_slots l) \<Longrightarrow> \<exists>held. flushed i es @ held = messages_to i l"
    and "sorted_wrt (\<lambda>x y. in_sequence (snd x) < in_sequence (snd y)) (lg_messages l)"
  shows "recorded env M asked (on_disk (take n es) l) (take n ss)"
  unfolding recorded_def
proof (intro exI conjI allI impI)
  let ?es = "take n es" and ?l = "on_disk (take n es) l"
  have k: "slot_records ?l = declarations ?es"
    using declarations_take [OF assms(2), of n] by (simp add: take_map)
  show "list_all2 (entry_sent env M asked (slot_records ?l)) ?es (take n ss)"
    using entries_on_disk [OF assms(1-3), of n] by (simp add: take_map)
  fix i assume i: "i < length (lg_slots ?l)"
  then have "fst (lg_slots ?l ! i) \<in> set (slot_records ?l)" by (metis length_map nth_map nth_mem)
  then show "Declared (fst (lg_slots ?l ! i)) \<in> set ?es" using declarations_in unfolding k by blast
  obtain held where "flushed i es @ held = messages_to i l" using assms(4) i by auto
  then have "flushed i ?es @ flushed i (drop n es) @ held = messages_to i l"
    by (metis append_assoc append_take_drop_id flushed_simps(3))
  from reached_messages [OF messages_distinct [OF assms(5)] this]
  show "flushed i ?es = messages_to i ?l" by simp
qed

text \<open>What is lost with the entries behind that point: no more rows than their chunks have.\<close>

lemma flushed_rows:
  assumes "list_all2 (entry_sent env M asked rs) es ss" "i < length rs"
  shows "length (flushed i es) \<le> sum_list (map (rows_of (we_entity env (rec_topic (rs ! i)))) ss)"
  using assms
proof (induction rule: list_all2_induct)
  case (Cons e es s ss)
  have "length (flushed_from i e) \<le> rows_of (we_entity env (rec_topic (rs ! i))) s"
  proof (cases e)
    case (Flushed j mds)
    then obtain c where c: "s = SentChunk c" "chunk_of_topic env M asked (rs ! j) mds c"
      using Cons.hyps(1) by (auto simp: entry_sent_def)
    then have "\<not> ch_static c" "ch_num_rows c = length mds" "ch_entity c = we_entity env (rec_topic (rs ! j))"
      using message_chunk_temporal by (auto simp: chunk_of_topic_def message_chunk_def)
    then show ?thesis using c(1) by (simp add: Flushed)
  qed simp
  then show ?case using Cons by simp
qed simp

section \<open>The books of a session that is not closed\<close>

lemma session_books:
  assumes "faithful env M" "writer_open env path config reads = Some (Inr w)"
    and "Lenses \<notin> representations config" "list_all (lossless_call env (representations config)) cs"
    and "l = fold entered cs no_ledger" "lg_writes l < 2 ^ 32"
  shows "books env M (representations config) l (wr_topics (snd (session env cs w)))
    (wr_out (snd (session env cs w)))"
proof -
  let ?w = "snd (session env cs w)"
  have acc: "accounts env M l ?w \<and> wr_config ?w = wr_config w"
    unfolding assms(5)
    by (rule session_accounts [OF assms(1)]) (use opened_accounts [OF assms(2,3)] assms(4-6) in auto)
  then have "wr_config ?w = config" using opened_accounts(2) [OF assms(2,3)] by simp
  with acc show ?thesis unfolding accounts_def by metis
qed

lemma replays_on_disk:
  assumes "replays_back env cw decoded asked l"
  shows "replays_back env cw decoded asked (on_disk es l)"
proof -
  have "sorted (map in_recv (messages_to i (on_disk es l)))" for i
  proof -
    have "sorted (map in_recv (messages_to i l))" using assms by (simp add: replays_back_def)
    then have "sorted (map (in_recv \<circ> snd) (filter (reached es) (filter (\<lambda>x. fst x = i) (lg_messages l))))"
      unfolding messages_to_def map_map by (rule sorted_filter)
    then show ?thesis by (simp add: conj_commute comp_def)
  qed
  moreover have "set (messages_to i (on_disk es l)) \<subseteq> set (messages_to i l)" for i
    by (auto simp: messages_to_def)
  moreover have "slot_records (on_disk es l) ! i = slot_records l ! i" if "i < length (lg_slots (on_disk es l))" for i
    using that by simp
  ultimately show ?thesis using assms unfolding replays_back_def by (auto simp del: on_disk_simps(3)) (simp_all, blast+)
qed

lemma reached_declared:
  assumes "list_all2 (entry_sent env M asked (slot_records l)) es ss" "declarations es = slot_records l"
    and "in_turn 0 es" "x \<in> set (lg_messages (on_disk (take n es) l))"
  shows "fst x < length (lg_slots (on_disk (take n es) l))"
proof (rule ccontr)
  let ?k = "length (declarations (take n es))"
  assume "\<not> ?thesis"
  then have "length (take ?k (slot_records l)) \<le> fst x" by (auto simp: min_le_iff_disj)
  from flushed_fresh [OF entries_on_disk [OF assms(1-3)] this] assms(4) show False
    by (simp add: reached_def)
qed

lemma recovered:
  assumes "books env M asked l ts (wr_out w)" "stores (env_file renv) prop (take n (os_file (wr_out w)))"
    and "libraries_agree env renv M decoded prop" "ledger_ok l"
    and "replays_back env (env_cdr renv) decoded asked l"
    and "sorted_wrt (\<lambda>x y. in_sequence (snd x) < in_sequence (snd y)) (lg_messages l)"
    and "inj_on (\<lambda>r. we_entity env (rec_topic r)) (set (slot_records l))"
  obtains P rd where "reader_open renv = Inr rd" "rd_metadata_yaml rd = None"
    "drain renv rd = Inr (map (delivered l) (sort_key written_key (filter P (lg_messages l))))"
    "\<And>i. i < length (lg_slots l) \<Longrightarrow> \<exists>unsaved held.
       topic_holds env M asked (fst (lg_slots l ! i)) (ts ! i) held
       \<and> map snd (filter (\<lambda>x. P x \<and> fst x = i) (lg_messages l)) @ unsaved @ held = messages_to i l
       \<and> length unsaved \<le> sum_list (map (rows_of (we_entity env (rec_topic (slot_records l ! i))))
            (drop n (os_file (wr_out w))))"
proof -
  have libs: "faithful env M" "same_libraries env renv" "decodes_values env M decoded"
    "keeps_metadata prop (env_property renv)"
    using assms(3) by (simp_all add: libraries_agree_def)
  obtain es where es: "list_all2 (entry_sent env M asked (slot_records l)) es (os_file (wr_out w))"
    "declarations es = slot_records l" "in_turn 0 es"
    "\<And>i. i < length (lg_slots l) \<Longrightarrow> slot_ok env M asked l es i (ts ! i)"
    using assms(1) by (auto simp: books_def)
  let ?l = "on_disk (take n es) l" and ?P = "reached (take n es)"
  have slots: "\<exists>held. flushed i es @ held = messages_to i l" if "i < length (lg_slots l)" for i
    using es(4) [OF that] by (auto simp: slot_ok_def)
  have recorded: "recorded env M asked ?l (take n (os_file (wr_out w)))"
    by (rule on_disk_recorded [OF es(1-3) slots assms(6)])
  have disk: "stores (env_file renv) prop (take n (os_file (wr_out w)) @ metadata_sent None)" using assms(2) by simp
  have declared: "\<forall>x \<in> set (lg_messages ?l). fst x < length (lg_slots ?l)"
    using reached_declared [OF es(1-3)] by blast
  have ok: "ledger_ok ?l"
    using assms(4) declared le_trans [OF length_filter_le [of ?P "lg_messages l"]]
    by (simp add: ledger_ok_def) (simp add: on_disk_def)
  have order: "sorted_wrt (\<lambda>x y. in_sequence (snd x) < in_sequence (snd y)) (lg_messages ?l)"
    using sorted_wrt_filter [OF assms(6)] by simp
  have entities: "inj_on (\<lambda>r. we_entity env (rec_topic r)) (set (slot_records ?l))"
    by (rule inj_on_subset [OF assms(7)]) (auto dest: in_set_takeD)
  obtain rd where rd: "reader_open renv = Inr rd" "rd_metadata_yaml rd = None"
    "drain renv rd = Inr (map (delivered ?l) (sort_key written_key (lg_messages ?l)))"
    using recorded_replays [OF disk libs(1,2,4,3) recorded ok replays_on_disk [OF assms(5)] order entities] by blast
  have "map (delivered ?l) (sort_key written_key (lg_messages ?l))
      = map (delivered l) (sort_key written_key (filter ?P (lg_messages l)))"
    using declared by (simp add: delivered_def)
  then have "drain renv rd = Inr (map (delivered l) (sort_key written_key (filter ?P (lg_messages l))))"
    using rd(3) by simp
  moreover have "\<exists>unsaved held. topic_holds env M asked (fst (lg_slots l ! i)) (ts ! i) held
      \<and> map snd (filter (\<lambda>x. ?P x \<and> fst x = i) (lg_messages l)) @ unsaved @ held = messages_to i l
      \<and> length unsaved \<le> sum_list (map (rows_of (we_entity env (rec_topic (slot_records l ! i))))
            (drop n (os_file (wr_out w))))" if i: "i < length (lg_slots l)" for i
  proof -
    obtain held where held: "topic_holds env M asked (fst (lg_slots l ! i)) (ts ! i) held"
      "flushed i es @ held = messages_to i l"
      using es(4) [OF i] by (auto simp: slot_ok_def)
    then have split: "flushed i (take n es) @ flushed i (drop n es) @ held = messages_to i l"
      by (metis append_assoc append_take_drop_id flushed_simps(3))
    have "length (flushed i (drop n es)) \<le> sum_list (map (rows_of (we_entity env (rec_topic (slot_records l ! i))))
            (drop n (os_file (wr_out w))))"
      by (rule flushed_rows [OF list_all2_dropI [OF es(1)]]) (use i in simp)
    then show ?thesis
      using held(1) split reached_messages [OF messages_distinct [OF assms(6)] split] by metis
  qed
  ultimately show thesis using that [of rd ?P] rd(1,2) by blast
qed

text \<open>
  C3: a killed recording loses no more than what was not yet on disk and what the flush policy
  lets a topic hold. Take a session, never close it, and let the first \<open>n\<close> items its file was
  sent have reached the disk, whole; open that, with the footer missing or unreadable and
  whatever else in the file fails to decode skipped. The reader has no metadata, and reading
  to the end delivers, in order of receive time and then of writing, some of the accepted
  messages, each as it was written: of every slot all but the rows of its chunks that were
  sent but not on disk, and behind them the last few, which the topic still held: fewer rows
  than \<open>max_rows\<close> and fewer bytes than \<open>max_bytes\<close>, where the recording sets those.

  The session asks for no lenses, and where a decoder may break it keeps raw copies; receive
  times do not go backwards within a topic; a message of which only the reflected form is kept
  has canonical bytes; distinct topic records have distinct entities; and there are fewer than
  \<open>2 ^ 32\<close> writes.
\<close>

theorem killed_recording_replays:
  assumes "writer_open env path config reads = Some (Inr w)" "Lenses \<notin> representations config"
    and "list_all (lossless_call env (representations config)) cs"
    and "l = fold entered cs no_ledger" "lg_writes l < 2 ^ 32"
    and "inj_on (\<lambda>r. we_entity env (rec_topic r)) (set (slot_records l))"
    and "sent = os_file (wr_out (snd (session env cs w)))" "stores (env_file renv) prop (take n sent)"
    and "libraries_agree env renv M decoded prop"
    and "replays_back env (env_cdr renv) decoded (representations config) l"
  shows "\<exists>rd P. reader_open renv = Inr rd \<and> rd_metadata_yaml rd = None
    \<and> drain renv rd = Inr (map (delivered l) (sort_key written_key (filter P (lg_messages l))))
    \<and> (\<forall>i < length (lg_slots l). \<exists>unsaved held.
         map snd (filter (\<lambda>x. P x \<and> fst x = i) (lg_messages l)) @ unsaved @ held = messages_to i l
         \<and> length unsaved \<le>
             sum_list (map (rows_of (we_entity env (rec_topic (slot_records l ! i)))) (drop n sent))
         \<and> within_limits (flush config) (length held) (wrap_u64 (sum_list (map (length \<circ> in_cdr) held))))"
proof -
  let ?w = "snd (session env cs w)"
  have faithful: "faithful env M" using assms(9) by (simp add: libraries_agree_def)
  have order: "sorted_wrt (\<lambda>x y. in_sequence (snd x) < in_sequence (snd y)) (lg_messages l)" "ledger_ok l"
    using ledger_sequences ledger_wf by (simp_all add: assms(4))
  have books: "books env M (representations config) l (wr_topics ?w) (wr_out ?w)"
    by (rule session_books [OF faithful assms(1-5)])
  obtain P rd where rd: "reader_open renv = Inr rd" "rd_metadata_yaml rd = None"
    "drain renv rd = Inr (map (delivered l) (sort_key written_key (filter P (lg_messages l))))"
    "\<And>i. i < length (lg_slots l) \<Longrightarrow> \<exists>unsaved held.
       topic_holds env M (representations config) (fst (lg_slots l ! i)) (wr_topics ?w ! i) held
       \<and> map snd (filter (\<lambda>x. P x \<and> fst x = i) (lg_messages l)) @ unsaved @ held = messages_to i l
       \<and> length unsaved \<le> sum_list (map (rows_of (we_entity env (rec_topic (slot_records l ! i)))) (drop n sent))"
    by (rule recovered [OF books assms(8) [unfolded assms(7)] assms(9) order(2) assms(10) order(1) assms(6), folded assms(7)])
      (rule that, blast+)
  have "list_all (\<lambda>t. within_policy t \<and> tp_policy t = flush config) (wr_topics ?w)"
    by (rule session_within [OF writing_session [OF writing.opened [OF assms(1)]]])
  then have bounded: "within_limits (flush config) (length held) (wrap_u64 (sum_list (map (length \<circ> in_cdr) held)))"
    if "topic_holds env M (representations config) r (wr_topics ?w ! i) held" "i < length (wr_topics ?w)" for i r held
    using that topic_holds_length [OF that(1)]
    by (auto simp: list_all_length within_policy_def topic_holds_def holds_def Let_def)
  have len: "length (wr_topics ?w) = length (lg_slots l)" using books by (simp add: books_def)
  have "\<exists>unsaved held. map snd (filter (\<lambda>x. P x \<and> fst x = i) (lg_messages l)) @ unsaved @ held = messages_to i l
      \<and> length unsaved \<le> sum_list (map (rows_of (we_entity env (rec_topic (slot_records l ! i)))) (drop n sent))
      \<and> within_limits (flush config) (length held) (wrap_u64 (sum_list (map (length \<circ> in_cdr) held)))"
    if i: "i < length (lg_slots l)" for i
  proof -
    obtain unsaved held where held: "topic_holds env M (representations config) (fst (lg_slots l ! i)) (wr_topics ?w ! i) held"
      "map snd (filter (\<lambda>x. P x \<and> fst x = i) (lg_messages l)) @ unsaved @ held = messages_to i l"
      "length unsaved \<le> sum_list (map (rows_of (we_entity env (rec_topic (slot_records l ! i)))) (drop n sent))"
      using rd(4) [OF i] by blast
    show ?thesis
      by (intro exI [of _ unsaved] exI [of _ held] conjI held(2,3) bounded [OF held(1)])
        (simp add: len i)
  qed
  then show ?thesis using rd(1-3) by blast
qed

text \<open>
  The session of \<open>Ledger\<close> under a policy that flushes every message: killed, it loses none. The
  file has no index, its footer and its last item are torn; or it has one, were it kept.
\<close>

definition eager_config :: "unit recording_config" where
  "eager_config = (byte_config {Reflected} None)\<lparr>flush := \<lparr>max_rows = 1, max_bytes = 0, max_latency = None\<rparr>\<rparr>"

definition eager_writer :: "(nat, bytes, unit) writer" where
  "eager_writer = (byte_writer {Reflected})\<lparr>wr_config := eager_config\<rparr>"

abbreviation killed_sent :: "nat sent list" where
  "killed_sent \<equiv> os_file (wr_out (snd (session byte_writer_env byte_session eager_writer)))"

lemma eager_opens: "writer_open byte_writer_env ''bag.rrd'' eager_config 0 = Some (Inr eager_writer)"
  by (simp add: writer_open_def lenses_for_def eager_config_def byte_config_def recording_open_def eager_writer_def
      byte_writer_def byte_writer_env_def read_clock_def Let_def)

lemma eager_asks: "representations eager_config = {Reflected}" "max_rows (flush eager_config) = 1"
  by (simp_all add: eager_config_def byte_config_def)

lemma killed_stored: "stores (env_file (byte_reader_env indexed killed_sent)) byte_prop killed_sent"
proof -
  have "books byte_writer_env byte_meaning (representations eager_config) byte_ledger
      (wr_topics (snd (session byte_writer_env byte_session eager_writer)))
      (wr_out (snd (session byte_writer_env byte_session eager_writer)))"
    by (rule session_books [OF byte_faithful eager_opens _ _ byte_ledger_entered])
      (simp_all add: eager_asks byte_session_lossless, simp add: byte_ledger_def)
  then obtain es where
    "list_all2 (entry_sent byte_writer_env byte_meaning {Reflected} (slot_records byte_ledger)) es killed_sent"
    by (auto simp: books_def eager_asks)
  from byte_stored [OF this, of indexed None] show ?thesis by simp
qed

text \<open>
  The same policy with raw copies only, one topic and two messages, of which the second is sent
  but not on disk.
\<close>

definition cut_config :: "unit recording_config" where
  "cut_config = (byte_config {Raw} None)\<lparr>flush := \<lparr>max_rows = 1, max_bytes = 0, max_latency = None\<rparr>\<rparr>"

definition cut_writer :: "(nat, bytes, unit) writer" where
  "cut_writer = (byte_writer {Raw})\<lparr>wr_config := cut_config\<rparr>"

abbreviation cut_session :: "command list" where
  "cut_session \<equiv> [CreateTopic (byte_topic ''/a''), WriteMessage 0 [7] 5 4, WriteMessage 0 [8] 6 5]"

abbreviation cut_sent :: "nat sent list" where
  "cut_sent \<equiv> os_file (wr_out (snd (session byte_writer_env cut_session cut_writer)))"

lemma cut_rows: "map (rows_of 3) cut_sent = [0, 1, 1]"
  by (simp add: cut_writer_def cut_config_def perform_def create_topic_def new_topic_def topic_statics_chunk_def utf8_row_def
      one_row_unit byte_writer_def byte_config_def byte_topic_def new_pipeline_def new_events_def log_events_def
      byte_writer_env_def byte_env_def plain_builder_def send_chunk_def log_message_def read_clock_def
      records_nothing_def is_replayable_def stored_def writer_write_def get_def topic_write_def push_events_def
      pipeline_push_def decode_row_def should_flush_def pipeline_len_def rows_len_def rows_push_def no_rows_def
      times_push_def topic_flush_def flush_events_def lens_events_def pipeline_flush_def pipeline_take_def
      apply_lenses_def sent_chunks_def sweep_stale_topics_def elapsed_def times_columns_def optional_blobs_def
      list_len_def Let_def)

definition cut_ledger :: ledger where
  "cut_ledger =
     \<lparr>lg_names = [''/a'' \<mapsto> 0], lg_slots = [(byte_topic ''/a'', True)],
      lg_messages =
        [(0, \<lparr>in_cdr = [7], in_recv = 5, in_send = 4, in_sequence = 0\<rparr>),
         (0, \<lparr>in_cdr = [8], in_recv = 6, in_send = 5, in_sequence = 1\<rparr>)],
      lg_writes = 2, lg_metadata = None\<rparr>"

lemma cut_ledger_entered: "cut_ledger = fold entered cut_session no_ledger"
  by (simp add: cut_ledger_def no_ledger_def entered_def byte_topic_def fun_eq_iff)

lemma cut_opens: "writer_open byte_writer_env ''bag.rrd'' cut_config 0 = Some (Inr cut_writer)"
  by (simp add: writer_open_def lenses_for_def cut_config_def byte_config_def recording_open_def cut_writer_def
      byte_writer_def byte_writer_env_def read_clock_def Let_def)

lemma cut_asks: "representations cut_config = {Raw}" "max_rows (flush cut_config) = 1"
  by (simp_all add: cut_config_def byte_config_def)

lemma cut_stored: "stores (env_file (byte_reader_env indexed (take n cut_sent))) byte_prop (take n cut_sent)"
proof -
  have "books byte_writer_env byte_meaning (representations cut_config) cut_ledger
      (wr_topics (snd (session byte_writer_env cut_session cut_writer)))
      (wr_out (snd (session byte_writer_env cut_session cut_writer)))"
    by (rule session_books [OF byte_faithful cut_opens _ _ cut_ledger_entered])
      (simp_all add: cut_asks lossless_def, simp add: cut_ledger_def)
  then obtain es where
    "list_all2 (entry_sent byte_writer_env byte_meaning {Raw} (slot_records cut_ledger)) es cut_sent"
    unfolding books_def cut_asks by blast
  from byte_stored [OF list_all2_takeI [OF this, of n], of indexed None] show ?thesis by simp
qed

lemma cut_agrees:
  "inj_on (\<lambda>r. we_entity byte_writer_env (rec_topic r)) (set (slot_records cut_ledger))"
  "replays_back byte_writer_env plain_writer byte_decoded {Raw} cut_ledger"
  by (simp_all add: cut_ledger_def replays_back_def messages_to_def in_range_def i64_MIN_def i64_MAX_def)

text \<open>
  Killed with everything on disk, the first session loses nothing. Killed with the last item
  missing, the second still has its first message: what is lost is at most the one row of the
  chunk that is missing.
\<close>

theorem killed_recording_replays_witness:
  "(\<forall>indexed. \<exists>rd. reader_open (byte_reader_env indexed killed_sent) = Inr rd \<and> rd_metadata_yaml rd = None
      \<and> map_sum id (map msg_recv_timestamp) (drain (byte_reader_env indexed killed_sent) rd) = Inr [5, 7, 9])
   \<and> (\<forall>indexed. \<exists>rd ms. reader_open (byte_reader_env indexed (take 2 cut_sent)) = Inr rd
      \<and> drain (byte_reader_env indexed (take 2 cut_sent)) rd = Inr ms \<and> map msg_recv_timestamp (take 1 ms) = [5])"
proof (intro conjI allI)
  fix indexed
  let ?renv = "byte_reader_env indexed killed_sent" and ?ms = "lg_messages byte_ledger"
  have "\<exists>rd P. reader_open ?renv = Inr rd \<and> rd_metadata_yaml rd = None
      \<and> drain ?renv rd = Inr (map (delivered byte_ledger) (sort_key written_key (filter P ?ms)))
      \<and> (\<forall>i < length (lg_slots byte_ledger). \<exists>unsaved held.
           map snd (filter (\<lambda>x. P x \<and> fst x = i) ?ms) @ unsaved @ held = messages_to i byte_ledger
           \<and> length unsaved \<le>
               sum_list (map (rows_of (we_entity byte_writer_env (rec_topic (slot_records byte_ledger ! i))))
                 (drop (length killed_sent) killed_sent))
           \<and> within_limits (flush eager_config) (length held) (wrap_u64 (sum_list (map (length \<circ> in_cdr) held))))"
    by (rule killed_recording_replays [OF eager_opens _ _ byte_ledger_entered _ byte_entities refl _ byte_agree])
      (use byte_replays byte_session_lossless killed_stored in
        \<open>simp_all add: eager_asks byte_libraries del: session.simps\<close>, simp add: byte_ledger_def)
  then obtain rd P where rd: "reader_open ?renv = Inr rd" "rd_metadata_yaml rd = None"
    "drain ?renv rd = Inr (map (delivered byte_ledger) (sort_key written_key (filter P ?ms)))"
    "\<And>i. i < length (lg_slots byte_ledger) \<Longrightarrow>
       map snd (filter (\<lambda>x. P x \<and> fst x = i) ?ms) = messages_to i byte_ledger"
    by (auto simp: within_limits_def eager_asks simp del: session.simps)
  have "filter P ?ms = ?ms"
    using rd(4) [of 0] rd(4) [of 1]
    by (simp add: byte_ledger_def messages_to_def split: if_splits)
  then have "drain ?renv rd = Inr (map (delivered byte_ledger) (sort_key written_key ?ms))" using rd(3) by simp
  moreover have "map msg_recv_timestamp (map (delivered byte_ledger) (sort_key written_key ?ms)) = [5, 7, 9]"
    by (simp add: byte_ledger_def delivered_def)
  ultimately show "\<exists>rd. reader_open ?renv = Inr rd \<and> rd_metadata_yaml rd = None
     \<and> map_sum id (map msg_recv_timestamp) (drain ?renv rd) = Inr [5, 7, 9]"
    using rd(1,2) by (auto simp del: session.simps)
next
  fix indexed
  let ?renv = "byte_reader_env indexed (take 2 cut_sent)" and ?ms = "lg_messages cut_ledger"
  have "\<exists>rd P. reader_open ?renv = Inr rd \<and> rd_metadata_yaml rd = None
      \<and> drain ?renv rd = Inr (map (delivered cut_ledger) (sort_key written_key (filter P ?ms)))
      \<and> (\<forall>i < length (lg_slots cut_ledger). \<exists>unsaved held.
           map snd (filter (\<lambda>x. P x \<and> fst x = i) ?ms) @ unsaved @ held = messages_to i cut_ledger
           \<and> length unsaved \<le>
               sum_list (map (rows_of (we_entity byte_writer_env (rec_topic (slot_records cut_ledger ! i)))) (drop 2 cut_sent))
           \<and> within_limits (flush cut_config) (length held) (wrap_u64 (sum_list (map (length \<circ> in_cdr) held))))"
    by (rule killed_recording_replays [OF cut_opens _ _ cut_ledger_entered _ cut_agrees(1) refl cut_stored byte_agree])
      (use cut_agrees(2) in \<open>simp_all add: cut_asks byte_libraries lossless_def del: session.simps\<close>, simp add: cut_ledger_def)
  moreover have "map (rows_of (we_entity byte_writer_env (rec_topic (slot_records cut_ledger ! 0)))) (drop 2 cut_sent) = [1]"
  proof -
    have "we_entity byte_writer_env (rec_topic (slot_records cut_ledger ! 0)) = 3"
      by (simp add: cut_ledger_def byte_topic_def byte_writer_env_def)
    then show ?thesis using cut_rows by (simp add: drop_map [symmetric] del: session.simps)
  qed
  ultimately obtain rd P unsaved held where rd: "reader_open ?renv = Inr rd"
    "drain ?renv rd = Inr (map (delivered cut_ledger) (sort_key written_key (filter P ?ms)))"
    "map snd (filter (\<lambda>x. P x \<and> fst x = 0) ?ms) @ unsaved @ held = messages_to 0 cut_ledger"
    "length unsaved \<le> 1" "held = []"
    by (auto simp: within_limits_def cut_asks cut_ledger_def simp del: session.simps)
  have "map msg_recv_timestamp (take 1 (map (delivered cut_ledger) (sort_key written_key (filter P ?ms)))) = [5]"
    using rd(3-5) by (auto simp: cut_ledger_def messages_to_def delivered_def split: if_splits)
  with rd(1,2) show "\<exists>rd ms. reader_open ?renv = Inr rd \<and> drain ?renv rd = Inr ms
      \<and> map msg_recv_timestamp (take 1 ms) = [5]" by (intro exI conjI)
qed

end
