(* ===== verification/Refilter.thy ===== *)
theory Refilter
  imports Replaying
begin

text \<open>
  Changing the filter in the middle of a pass: on the indexed path the pass is rebuilt and
  wound back to the cursor, on the scan path it simply goes on. Both deliver the same.
\<close>

section \<open>Reading some messages\<close>

fun read_messages ::
  "nat \<Rightarrow> 'e reader_env \<Rightarrow> 'e reader \<Rightarrow> (message list \<times> 'e reader) option" where
  "read_messages 0 env rd = Some ([], rd)"
| "read_messages (Suc n) env rd =
     (case read_next env rd of
        (Inr (Some m), rd') \<Rightarrow> map_option (\<lambda>(ms, rd). (m # ms, rd)) (read_messages n env rd')
      | _ \<Rightarrow> None)"

abbreviation increasing :: "row list \<Rightarrow> bool" where
  "increasing xs \<equiv> sorted_wrt (\<lambda>r s. row_key r < row_key s) xs"

lemma replayable_increasing:
  assumes "replayable_rows rs"
  shows "increasing (sort_key row_key rs)"
proof -
  have "distinct (map row_key (sort_key row_key rs))"
    using assms by (simp add: replayable_rows_def mset_eq_imp_distinct_iff [of "map row_key (sort_key row_key rs)" "map row_key rs"])
  then have "sorted_wrt (<) (map row_key (sort_key row_key rs))"
    by (simp only: strict_sorted_iff sorted_sort_key)
  then show ?thesis by (simp add: sorted_wrt_map)
qed

lemma all_wanted: "rd_filter rd = [] \<Longrightarrow> wanted_rows (wanted rd) rs = rs"
  by (simp add: wanted_def)

lemma read_first:
  assumes "in_pass env rd" "rd_filter rd = []" "\<not> rd_reverse rd"
    and "to_deliver env rd = mset xs" "increasing xs" "read_next env rd = (Inr (Some m), rd')"
  obtains x ys where "xs = x # ys" "m = message_of (rd_topics rd) x" "in_pass env rd'" "same_pass rd rd'"
    "to_deliver env rd' = mset ys" "rd_cursor rd' = Some (row_key x)" "rd_position rd' = fst (row_key x)"
proof -
  obtain out where step: "result_of (rd_topics rd) out = Inr (Some m)"
    "playback_step (rd_reverse rd) (wanted rd) (to_deliver env rd) out (to_deliver env rd')"
    "in_pass env rd'" "same_pass rd rd'" "cursor_after env rd out rd'"
    using read_pass [OF assms(1)] assms(6) by auto
  then obtain r where r: "out = Delivered r" "m = message_of (rd_topics rd) r" by (cases out) auto
  then have rest: "mset xs = add_mset r (to_deliver env rd')" and least: "least False r (to_deliver env rd')"
    using delivered_least step(2) assms(3,4) all_wanted [OF assms(2)] by fastforce+
  then obtain x ys where xs: "xs = x # ys" by (cases xs) auto
  have "x = r"
  proof (rule ccontr)
    assume "x \<noteq> r"
    have "r \<in># mset xs" "x \<in># mset xs" by (simp add: rest) (simp add: xs)
    then have "r \<in> set xs" "x \<in># add_mset r (to_deliver env rd')" by (simp_all flip: rest)
    then have "row_key x < row_key r" "x \<in># to_deliver env rd'" using \<open>x \<noteq> r\<close> assms(5) xs by auto
    then show False using least by (auto simp: least_def rank_le)
  qed
  then have "to_deliver env rd' = mset ys" using rest xs by simp
  then show thesis
    using that [OF xs] r step(3-5) \<open>x = r\<close> by (simp add: cursor_after_def)
qed

lemma read_some:
  "read_messages n env rd = Some (ms, rd') \<Longrightarrow> in_pass env rd \<Longrightarrow> rd_filter rd = [] \<Longrightarrow> \<not> rd_reverse rd \<Longrightarrow>
     to_deliver env rd = mset xs \<Longrightarrow> increasing xs \<Longrightarrow>
     n \<le> length xs \<and> ms = map (message_of (rd_topics rd)) (take n xs) \<and> in_pass env rd' \<and> same_pass rd rd'
     \<and> to_deliver env rd' = mset (drop n xs)
     \<and> (if n = 0 then rd' = rd
        else rd_cursor rd' = Some (row_key (xs ! (n - 1))) \<and> rd_position rd' = fst (row_key (xs ! (n - 1))))"
proof (induction n arbitrary: rd ms xs)
  case 0
  then show ?case by (simp add: same_pass_def)
next
  case (Suc n)
  obtain m rd1 ms' where first: "read_next env rd = (Inr (Some m), rd1)"
    "read_messages n env rd1 = Some (ms', rd')" "ms = m # ms'"
    using Suc.prems(1) by (auto split: prod.splits sum.splits option.splits)
  obtain x ys where x: "xs = x # ys" "m = message_of (rd_topics rd) x" "in_pass env rd1" "same_pass rd rd1"
    "to_deliver env rd1 = mset ys" "rd_cursor rd1 = Some (row_key x)" "rd_position rd1 = fst (row_key x)"
    using read_first [OF Suc.prems(2-6) first(1)] by blast
  have "rd_filter rd1 = []" "\<not> rd_reverse rd1" "rd_topics rd1 = rd_topics rd" "increasing ys"
    using x(1,4) Suc.prems(3,4,6) by (simp_all add: same_pass_def)
  with Suc.IH [OF first(2) x(3) _ _ x(5)] x(4) show ?case
    by (cases n) (auto simp: x(1,2,6,7) first(3) same_pass_def)
qed

section \<open>A new filter\<close>

definition chosen :: "'e reader \<Rightarrow> string list \<Rightarrow> row \<Rightarrow> bool" where
  "chosen rd topics r = (topics = [] \<or> ti_name (rd_topics rd ! row_topic r) \<in> set topics)"

lemma scan_filter:
  assumes "rd_index rd = None" "in_pass env rd"
  shows "in_pass env (rd\<lparr>rd_filter := topics\<rparr>)"
    "to_deliver env (rd\<lparr>rd_filter := topics\<rparr>) = to_deliver env rd"
proof -
  let ?rd = "rd\<lparr>rd_filter := topics\<rparr>"
  have same: "same_recording rd ?rd" by (simp add: same_recording_def)
  note frame = scan_frame [OF same]
  have "scan_usable env ?rd = scan_usable env rd"
    unfolding scan_usable_def frame by simp
  moreover have "scan_remaining env ?rd = scan_remaining env rd"
    unfolding scan_remaining_def scan_windows_of_def frame by (simp cong: option.case_cong)
  ultimately show "in_pass env ?rd" "to_deliver env ?rd = to_deliver env rd"
    using assms by (simp_all add: in_pass_def to_deliver_def scanned.merge_ok_def scanned.to_emit_def)
qed

lemma rows_after:
  assumes "increasing xs" "0 < n" "n \<le> length xs"
  shows "filter (\<lambda>r. rank False (row_key (xs ! (n - 1))) < rank False (row_key r)) xs = drop n xs"
proof -
  let ?P = "\<lambda>r. rank False (row_key (xs ! (n - 1))) < rank False (row_key r)"
  have less: "row_key (xs ! i) < row_key (xs ! j)" if "i < j" "j < length xs" for i j
    using assms(1) that by (simp add: sorted_wrt_iff_nth_less)
  have "filter ?P (take n xs) = []"
  proof -
    have "row_key (xs ! i) \<le> row_key (xs ! (n - 1))" if "i < n" for i
      using less [of i "n - 1"] that assms(2,3) by (cases "i = n - 1") (auto simp: less_imp_le)
    moreover have "\<exists>i < n. r = xs ! i" if "r \<in> set (take n xs)" for r
      using that assms(3) by (auto simp: in_set_conv_nth)
    ultimately have "\<not> ?P r" if "r \<in> set (take n xs)" for r
      using that by (fastforce simp: rank_less not_less)
    then show ?thesis by (simp add: filter_empty_conv)
  qed
  moreover have "filter ?P (drop n xs) = drop n xs"
  proof -
    have "row_key (xs ! (n - 1)) < row_key (xs ! j)" if "n \<le> j" "j < length xs" for j
      using less [of "n - 1" j] that assms(2) by simp
    moreover have "\<exists>j. n \<le> j \<and> j < length xs \<and> r = xs ! j" if mem: "r \<in> set (drop n xs)" for r
    proof -
      obtain i where "i < length (drop n xs)" "drop n xs ! i = r"
        using mem unfolding in_set_conv_nth by blast
      then have "i < length xs - n" "r = xs ! (n + i)" using assms(3) by auto
      then show ?thesis by (intro exI [of _ "n + i"]) simp
    qed
    ultimately have "?P r" if "r \<in> set (drop n xs)" for r
      using that by (fastforce simp: rank_less)
    then show ?thesis by (simp add: filter_id_conv)
  qed
  ultimately show ?thesis using filter_append [of ?P "take n xs" "drop n xs"] by simp
qed

text \<open>Where a reader stands after some messages were read from the start.\<close>

lemma read_from_open:
  assumes "reader_open env = Inr rd0" "true_recording env rd0" "replayable_rows (bag env rd0)"
    and "read_messages n env rd0 = Some (ms, rd)" "xs = sort_key row_key (bag env rd0)"
  shows "n \<le> length xs" "ms = map (message_of (rd_topics rd)) (take n xs)" "in_pass env rd" "same_pass rd0 rd"
    "to_deliver env rd = mset (drop n xs)" "rd_filter rd = []" "\<not> rd_reverse rd"
    "if n = 0 then rd = rd0
     else rd_cursor rd = Some (row_key (xs ! (n - 1))) \<and> rd_position rd = fst (row_key (xs ! (n - 1)))"
proof -
  note pass = open_pass [OF assms(1,2)]
  have incr: "increasing xs" unfolding assms(5) by (rule replayable_increasing [OF assms(3)])
  have "played env rd0 = bag env rd0" using pass by (simp add: played_def wanted_def)
  then have start: "to_deliver env rd0 = mset xs"
    using pass all_wanted [of rd0 "to_deliver env rd0"] by (simp add: assms(5))
  note some = read_some [OF assms(4) _ _ _ start incr]
  show "n \<le> length xs" "in_pass env rd" "same_pass rd0 rd" "to_deliver env rd = mset (drop n xs)"
    "if n = 0 then rd = rd0
     else rd_cursor rd = Some (row_key (xs ! (n - 1))) \<and> rd_position rd = fst (row_key (xs ! (n - 1)))"
    using some pass by auto
  then show "ms = map (message_of (rd_topics rd)) (take n xs)" "rd_filter rd = []" "\<not> rd_reverse rd"
    using some pass by (auto simp: same_pass_def)
qed

lemma rest_replays:
  assumes "replayable_rows rs" "xs = sort_key row_key rs" "ys = filter P (drop n xs)"
  shows "replayable_rows ys" "sort_key row_key ys = ys"
proof -
  have "mset xs = mset (take n xs) + mset (drop n xs)" by (simp flip: mset_append)
  then have "mset (drop n xs) \<subseteq># mset xs" by simp
  moreover have "mset ys \<subseteq># mset (drop n xs)" by (simp add: assms(3) multiset_filter_subset)
  ultimately have "mset ys \<subseteq># mset rs" by (simp add: assms(2) subset_mset.order_trans)
  then show "replayable_rows ys" by (rule replayable_rows_subset [OF assms(1)])
  have "increasing ys"
    using replayable_increasing [OF assms(1)] sorted_wrt_drop sorted_wrt_filter unfolding assms(2,3) by blast
  then have "sorted (map row_key ys)" by (simp add: sorted_map sorted_wrt_mono_rel [OF less_imp_le])
  then show "sort_key row_key ys = ys" by (rule sort_key_id_if_sorted)
qed

lemma refiltered:
  assumes "reader_open env = Inr rd0" "true_recording env rd0" "replayable_rows (bag env rd0)"
    and "read_messages n env rd0 = Some (ms, rd)" "xs = sort_key row_key (bag env rd0)"
  shows "\<exists>rd'. set_filter env topics rd = (Inr (), rd')
      \<and> drain env rd' = Inr (map (message_of (rd_topics rd)) (filter (chosen rd topics) (drop n xs)))"
proof -
  note state = read_from_open [OF assms]
  let ?ys = "filter (chosen rd topics) (drop n xs)" and ?rd = "rd\<lparr>rd_filter := topics\<rparr>"
  note rest = rest_replays [OF assms(3,5) refl, of "chosen rd topics" n]
  have drained: "drain env rd' = Inr (map (message_of (rd_topics rd)) ?ys)"
    if "in_pass env rd'" "same_pass ?rd rd'" "wanted_rows (wanted rd') (to_deliver env rd') = mset ?ys" for rd'
    using drain_pass [OF that(1) that(3) [symmetric] rest(1)] that(2) state(7) rest(2)
    by (simp add: messages_of_def playback_order_def same_pass_def)
  have "same_recording rd0 ?rd" using state(4) by (simp add: same_pass_def same_recording_def)
  then have playable: "playable env ?rd" and bag: "bag env ?rd = bag env rd0"
    using playable_cong open_pass [OF assms(1,2)] by blast+
  have played: "mset (played env ?rd) = mset (filter (chosen rd topics) xs)"
    by (simp add: played_def bag wanted_def chosen_def [abs_def] assms(5))
  consider (same) "topics = []" | (scan) "topics \<noteq> []" "rd_index rd = None"
    | (start) "topics \<noteq> []" "rd_index rd \<noteq> None" "n = 0" | (wind) "topics \<noteq> []" "rd_index rd \<noteq> None" "0 < n"
    by fastforce
  then show "\<exists>rd'. set_filter env topics rd = (Inr (), rd')
      \<and> drain env rd' = Inr (map (message_of (rd_topics rd)) ?ys)"
  proof cases
    case same
    then have "?rd = rd" using state(6) by simp
    then show ?thesis
      using drained [of rd] state(3,5) same state(6) all_wanted [of rd]
      by (simp add: set_filter_def same_pass_def chosen_def)
  next
    case scan
    then show ?thesis
      using drained [of ?rd] scan_filter [OF scan(2) state(3), of topics] state(5,6)
      by (simp add: set_filter_def same_pass_def wanted_def chosen_def [abs_def])
  next
    case start
    have "rd = rd0" using state(8) start(3) by simp
    moreover have "rd_cursor rd0 = None" "rd_position rd0 = i64_MIN"
      using reader_openE [OF assms(1)] restart_frame by metis+
    ultimately have resume: "set_filter env topics rd = restart env ?rd"
      using start state(6) by (simp add: set_filter_def resume_def)
    obtain rd' where rd': "restart env ?rd = (Inr (), rd')"
      using playable scanned.restart_rows [of env ?rd] indexed.restart_rows [of env ?rd]
      by (auto simp: playable_def split: if_splits)
    have "in_pass env rd'" "same_pass ?rd rd'" "wanted_rows (wanted rd') (to_deliver env rd') = mset ?ys"
      using restart_pass [OF playable rd'] played start(3) by auto
    then show ?thesis using drained resume rd' by simp
  next
    case wind
    have cursor: "rd_cursor rd = Some (row_key (xs ! (n - 1)))" "rd_position rd = fst (row_key (xs ! (n - 1)))"
      using state(8) wind(3) by simp_all
    obtain rd' where rd': "set_filter env topics rd = (Inr (), rd')" "in_pass env rd'" "same_pass ?rd rd'"
      "wanted_rows (wanted rd') (to_deliver env rd') =
         filter_mset (\<lambda>r. rank (rd_reverse rd) (row_key (xs ! (n - 1))) < rank (rd_reverse rd) (row_key r))
           (mset (played env ?rd))"
      using resume_pass [OF playable wind(2) _ cursor] wind(1) state(6) by auto
    have incr: "increasing xs" unfolding assms(5) by (rule replayable_increasing [OF assms(3)])
    have "mset (drop n xs) =
        filter_mset (\<lambda>r. rank False (row_key (xs ! (n - 1))) < rank False (row_key r)) (mset xs)"
      by (simp only: mset_filter [symmetric] rows_after [OF incr wind(3) state(1)])
    then have "wanted_rows (wanted rd') (to_deliver env rd') = mset ?ys"
      using rd'(4) state(7) played by (simp add: filter_filter_mset conj_commute)
    then show ?thesis using rd' drained by blast
  qed
qed

lemma read_next_some:
  assumes "in_pass env rd" "rd_filter rd = []" "to_deliver env rd = mset xs" "xs \<noteq> []" "replayable_rows xs"
  shows "\<exists>m rd'. read_next env rd = (Inr (Some m), rd')"
proof -
  obtain out rd' where step: "read_next env rd = (result_of (rd_topics rd) out, rd')"
    "playback_step (rd_reverse rd) (wanted rd) (to_deliver env rd) out (to_deliver env rd')"
    using read_pass [OF assms(1)] by blast
  show ?thesis
  proof (cases out)
    case Finished
    then have "mset xs = {#}"
      using finished_none [of _ "wanted rd" "mset xs"] step(2) all_wanted [OF assms(2)] assms(3) by metis
    then show ?thesis using assms(4) by simp
  next
    case (Failed e)
    then obtain r where "r \<in> set xs" "row_data r = Inl e"
      using failed_stays_wanted step(2) assms(3) by fastforce
    then show ?thesis using assms(5) by (auto simp: replayable_rows_def list_all_iff)
  qed (use step in simp)
qed

text \<open>
  C13: a filter set in the middle of a pass takes effect at the very next message, on the
  indexed and on the scan path alike. After reading \<open>n\<close> messages of a recording from its
  start, which are its first \<open>n\<close> rows, setting a filter leaves exactly the rows behind them
  that belong to the chosen topics: no row comes twice and none is left out, whether the
  pass is rebuilt and wound back or goes on where it is.
\<close>

theorem filter_takes_effect_in_place:
  assumes "reader_open env = Inr rd0" "true_recording env rd0" "replayable_rows (bag env rd0)"
    and "read_messages n env rd0 = Some (ms, rd)" "xs = sort_key row_key (bag env rd0)"
  shows "ms = map (message_of (rd_topics rd)) (take n xs)
    \<and> (\<exists>rd'. set_filter env topics rd = (Inr (), rd')
         \<and> drain env rd' = Inr (map (message_of (rd_topics rd)) (filter (chosen rd topics) (drop n xs))))"
  using read_from_open(2) [OF assms] refiltered [OF assms] by blast

theorem filter_takes_effect_in_place_witness:
  "\<forall>indexed. \<exists>ms rd rd'. read_messages 1 (bag_env indexed) (bag_reader indexed) = Some (ms, rd)
     \<and> map msg_recv_timestamp ms = [5] \<and> set_filter (bag_env indexed) [''/b''] rd = (Inr (), rd')
     \<and> map_sum id (map msg_recv_timestamp) (drain (bag_env indexed) rd') = Inr [7, 20]"
proof
  fix indexed
  let ?env = "bag_env indexed" and ?rd = "bag_reader indexed"
  have unfiltered: "rd_filter ?rd = []" by (simp add: bag_reader_def)
  have pass: "wanted_rows (wanted ?rd) (to_deliver ?env ?rd) = mset (played ?env ?rd)"
    using open_pass [OF bag_opens bag_true] by blast
  have rows: "to_deliver ?env ?rd = mset (bag ?env ?rd)" "rd_filter ?rd = []"
    by (rule pass [unfolded all_wanted [OF unfiltered] bag_played], rule unfiltered)
  then obtain m rd where "read_next ?env ?rd = (Inr (Some m), rd)"
    using read_next_some [OF bag_pass(2) rows(2,1) _ bag_replayable] by (auto simp: bag_rows)
  then have first: "read_messages 1 ?env ?rd = Some ([m], rd)" by simp
  have sorted: "sort_key row_key (bag ?env ?rd) =
      [((5, 0), 0, 4, Inr [1]), ((7, 1), 1, 6, Inr [3]), ((9, 3), 0, 9, Inr [2]), ((20, 4), 1, 19, Inr [4])]"
    by (simp add: bag_rows)
  have "rd_topics rd = rd_topics ?rd"
    using read_from_open(4) [OF bag_opens bag_true bag_replayable first refl] by (simp add: same_pass_def)
  then have topics: "chosen rd [''/b''] = (\<lambda>r. ti_name (rd_topics ?rd ! row_topic r) = ''/b'')"
    by (simp add: chosen_def fun_eq_iff)
  show "\<exists>ms rd rd'. read_messages 1 ?env ?rd = Some (ms, rd)
     \<and> map msg_recv_timestamp ms = [5] \<and> set_filter ?env [''/b''] rd = (Inr (), rd')
     \<and> map_sum id (map msg_recv_timestamp) (drain ?env rd') = Inr [7, 20]"
    using filter_takes_effect_in_place [OF bag_opens bag_true bag_replayable first refl, of "[''/b'']"] first
    unfolding sorted topics
    by (auto simp: message_of_def bag_reader_def bag_topic_def)
qed

end
