(* ===== verification/Losses.thy ===== *)
theory Losses
  imports Keeping Policy
begin

text \<open>
  What \<open>pipeline.rs\<close> tells about the messages it could not keep as asked. Over any run of pushes
  and flushes the events it logs and the chunks its flushes returned account for every message.
\<close>

section \<open>A run of a pipeline\<close>

datatype pipeline_act = PushMessage incoming | FlushRows

fun pushed :: "pipeline_act list \<Rightarrow> incoming list" where
  "pushed [] = []"
| "pushed (PushMessage m # acts) = m # pushed acts"
| "pushed (FlushRows # acts) = pushed acts"

text \<open>
  The flushes of a run, each as the rows it found in the buffer, the result it returned and
  the events it logged, and the events logged over the whole run.
\<close>

type_synonym 'e flush_record = "rows_buffer \<times> 'e chunk list result \<times> pipeline_event list"

fun pipeline_run ::
  "('e, 'd) pipeline_env \<Rightarrow> pipeline_act list \<Rightarrow> ('e, 'd) pipeline
   \<Rightarrow> 'e flush_record list \<times> pipeline_event list \<times> ('e, 'd) pipeline" where
  "pipeline_run env [] p = ([], [], p)"
| "pipeline_run env (PushMessage m # acts) p =
     (case pipeline_run env acts (push_message env m p) of
        (flushes, events, p') \<Rightarrow> (flushes, push_events env (in_cdr m) p @ events, p'))"
| "pipeline_run env (FlushRows # acts) p =
     (case pipeline_run env acts (snd (pipeline_flush env p)) of
        (flushes, events, p') \<Rightarrow>
          ((pl_rows p, fst (pipeline_flush env p), flush_events env p) # flushes,
           flush_events env p @ events, p'))"

section \<open>The account of a run\<close>

fun rows_lost :: "pipeline_event \<Rightarrow> nat" where
  "rows_lost (RawFromHere lost) = lost"
| "rows_lost _ = 0"

fun decoder_broke :: "pipeline_event \<Rightarrow> bool" where
  "decoder_broke (RawFromHere lost) = True"
| "decoder_broke _ = False"

abbreviation lost_in :: "pipeline_event list \<Rightarrow> nat" where
  "lost_in events \<equiv> sum_list (map rows_lost events)"

abbreviation undecoded :: "bool list \<Rightarrow> nat" where
  "undecoded rows \<equiv> length (filter Not rows)"

text \<open>The rows the flushes found, and whether each was decoded.\<close>

abbreviation rows_flushed :: "'e flush_record list \<Rightarrow> nat" where
  "rows_flushed flushes \<equiv> sum_list (map (\<lambda>f. rows_len (fst f)) flushes)"

abbreviation flags_flushed :: "'e flush_record list \<Rightarrow> bool list" where
  "flags_flushed flushes \<equiv> concat (map (\<lambda>f. rb_decoded (fst f)) flushes)"

text \<open>
  What becomes of a chunk: handed over as it is, or, with lenses, every chunk they derive,
  whole or partial, with an event for each of their errors.
\<close>

definition handed_over ::
  "('e, 'd) pipeline_env \<Rightarrow> lens_set option \<Rightarrow> 'e chunk \<Rightarrow> 'e chunk list \<Rightarrow> pipeline_event list \<Rightarrow> bool"
where
  "handed_over env lenses c chunks events \<longleftrightarrow>
     (case lenses of
        None \<Rightarrow> chunks = [c] \<and> events = []
      | Some ls \<Rightarrow>
          set chunks = {d. Inr d \<in> set (pe_lenses env (ls_mode ls) c)
                         \<or> (\<exists>n. Inl (n, Some d) \<in> set (pe_lenses env (ls_mode ls) c))}
          \<and> events = replicate (sum_list [n. Inl (n, _) \<leftarrow> pe_lenses env (ls_mode ls) c]) LensFailed)"

text \<open>
  The account of one flush. An empty buffer gives no chunk. A success hands over a chunk that
  was built with the three times of every row the buffer held. A failure is the error of the
  take kernel or of the chunk constructor, and the caller gets it.
\<close>

definition flush_accounted ::
  "('e, 'd) pipeline_env \<Rightarrow> 'e \<Rightarrow> lens_set option \<Rightarrow> 'e flush_record \<Rightarrow> bool" where
  "flush_accounted env entity lenses f \<longleftrightarrow>
     (case f of
        (rows, Inr chunks, events) \<Rightarrow>
          (if rows_len rows = 0 then chunks = [] \<and> events = []
           else \<exists>ts cs c. pe_chunk env entity ts cs = Inr c \<and> set (times_columns (rb_times rows)) \<subseteq> set ts
                  \<and> handed_over env lenses c chunks events)
      | (rows, Inl e, events) \<Rightarrow>
          events = [] \<and> 0 < rows_len rows
          \<and> ((\<exists>dense idx. pe_take env dense idx = Inl e \<or> pe_take env dense idx = Inr None)
             \<or> (\<exists>ts cs. pe_chunk env entity ts cs = Inl e)))"

definition aligned :: "('e, 'd) pipeline \<Rightarrow> bool" where
  "aligned p \<longleftrightarrow> length (rb_decoded (pl_rows p)) = pipeline_len p"

lemma push_account:
  fixes env :: "('e, 'd) pipeline_env" and m :: incoming and p :: "('e, 'd) pipeline"
  defines "p' \<equiv> push_message env m p" and "events \<equiv> push_events env (in_cdr m) p"
  assumes "aligned p"
  shows "aligned p'" "pipeline_len p' + lost_in events = Suc (pipeline_len p)"
    and "length (filter decoder_broke events) + (if pl_reflection p' = None then 0 else 1)
      = (if pl_reflection p = None then 0 else (1::nat))"
    and "pl_reflection p' \<noteq> None \<Longrightarrow> undecoded (rb_decoded (pl_rows p')) =
      undecoded (rb_decoded (pl_rows p)) + length (filter ((=) KeptRaw) events)"
proof -
  note defs = p'_def events_def pipeline_push_def decode_row_def push_events_def aligned_def
    pipeline_len_def rows_len_def rows_push_def times_push_def Let_def
  have "aligned p' \<and> pipeline_len p' + lost_in events = Suc (pipeline_len p)
    \<and> length (filter decoder_broke events) + (if pl_reflection p' = None then 0 else 1)
      = (if pl_reflection p = None then 0 else (1::nat))
    \<and> (pl_reflection p' \<noteq> None \<longrightarrow> undecoded (rb_decoded (pl_rows p')) =
      undecoded (rb_decoded (pl_rows p)) + length (filter ((=) KeptRaw) events))"
  proof (cases "pl_reflection p")
    case None
    then show ?thesis using assms(3) by (simp add: defs)
  next
    case (Some rf)
    obtain out d where "pe_decode env (rf_decoder rf) (in_cdr m) = (out, d)" by fastforce
    then show ?thesis
      using assms(3) Some by (cases out) (simp_all add: defs no_rows_def)
  qed
  then show "aligned p'" "pipeline_len p' + lost_in events = Suc (pipeline_len p)"
    "length (filter decoder_broke events) + (if pl_reflection p' = None then 0 else 1)
      = (if pl_reflection p = None then 0 else (1::nat))"
    "pl_reflection p' \<noteq> None \<Longrightarrow> undecoded (rb_decoded (pl_rows p')) =
      undecoded (rb_decoded (pl_rows p)) + length (filter ((=) KeptRaw) events)"
    by blast+
qed

lemma flush_account:
  assumes "aligned p"
  shows "aligned (snd (pipeline_flush env p))"
    "rows_len (pl_rows p) + pipeline_len (snd (pipeline_flush env p)) = pipeline_len p"
    "undecoded (rb_decoded (pl_rows p)) + undecoded (rb_decoded (pl_rows (snd (pipeline_flush env p))))
      = undecoded (rb_decoded (pl_rows p))"
    "(pl_reflection (snd (pipeline_flush env p)) = None) = (pl_reflection p = None)"
  using assms
  by (auto simp: snd_flush pipeline_take_def aligned_def pipeline_len_def no_rows_def rows_len_def Let_def
      split: option.splits prod.splits sum.splits)

lemma lenses_hand_over:
  "handed_over env (pl_lenses p) c (apply_lenses env p c) (lens_events env p c)"
proof (cases "pl_lenses p")
  case (Some ls)
  let ?rs = "pe_lenses env (ls_mode ls) c"
  have "concat (map (\<lambda>r. case r of Inr c \<Rightarrow> [] | Inl partial \<Rightarrow> replicate (fst partial) LensFailed) rs)
      = replicate (sum_list [n. Inl (n, _) \<leftarrow> rs]) LensFailed"
    for rs :: "(nat \<times> 'a chunk option + 'a chunk) list"
    by (induction rs) (auto simp: replicate_add split: sum.split)
  moreover have "set (filter_map (\<lambda>r. case r of Inr c \<Rightarrow> Some c | Inl partial \<Rightarrow> snd partial) rs)
      = {d. Inr d \<in> set rs \<or> (\<exists>n. Inl (n, Some d) \<in> set rs)}"
    for rs :: "(nat \<times> 'a chunk option + 'a chunk) list"
    by (induction rs) (auto split: sum.splits option.splits)
  ultimately show ?thesis using Some by (simp add: handed_over_def apply_lenses_def lens_events_def)
qed (simp add: handed_over_def apply_lenses_def lens_events_def)

lemma times_in_timelines:
  "fst ` set stamps \<subseteq> {HEADER_STAMP} \<Longrightarrow> set (times_columns t) \<subseteq> set (timelines (times_columns t @ stamps))"
  by (auto simp: times_columns_def timeline_names)

lemma take_built:
  assumes "fst (pipeline_take env p) = Inr r" "rows_len (pl_rows p) \<noteq> 0"
  obtains c p' where "pipeline_take env p = (Inr (Some c), p')" "pl_lenses p' = pl_lenses p"
    "\<exists>ts cs. pe_chunk env (pl_entity p) ts cs = Inr c \<and> set (times_columns (rb_times (pl_rows p))) \<subseteq> set ts"
proof -
  let ?rows = "pl_rows p"
  define structs where "structs =
    (case pl_reflection p of
       None \<Rightarrow> (Inr ([], []), None)
     | Some rf \<Rightarrow> map_prod id Some (struct_column env rf (rb_decoded ?rows)))"
  obtain stamps messages where cols: "fst structs = Inr (stamps, messages)"
    using assms by (cases "fst structs") (auto simp: pipeline_take_def structs_def Let_def)
  then have stamps: "fst ` set stamps \<subseteq> {HEADER_STAMP}"
    by (auto simp: structs_def struct_column_def Let_def split: option.splits prod.splits sum.splits if_splits)
  let ?ts = "timelines (times_columns (rb_times ?rows) @ stamps)"
  let ?cs = "timelines ((if rb_blob_rows ?rows > 0 then [(raw_descriptor, pe_blobs env (rb_blobs ?rows))] else [])
    @ messages)"
  let ?p' = "p\<lparr>pl_rows := no_rows, pl_bytes := 0, pl_reflection := snd structs\<rparr>"
  have take: "pipeline_take env p = (case pe_chunk env (pl_entity p) ?ts ?cs of
      Inl e \<Rightarrow> (Inl e, ?p') | Inr chunk \<Rightarrow> (Inr (Some chunk), ?p'))"
    using assms(2) cols by (simp add: pipeline_take_def structs_def Let_def split: sum.split)
  then obtain c where "pe_chunk env (pl_entity p) ?ts ?cs = Inr c"
    using assms(1) by (cases "pe_chunk env (pl_entity p) ?ts ?cs") auto
  with take times_in_timelines [OF stamps, of "rb_times ?rows"] show ?thesis by (intro that [of c ?p']) auto
qed

lemma flush_is_accounted:
  "flush_accounted env (pl_entity p) (pl_lenses p) (pl_rows p, fst (pipeline_flush env p), flush_events env p)"
proof (cases "rows_len (pl_rows p) = 0")
  case True
  then show ?thesis by (simp add: flush_accounted_def pipeline_flush_def pipeline_take_def flush_events_def)
next
  case False
  define p1 where "p1 = p\<lparr>pl_rows := no_rows, pl_bytes := 0\<rparr>"
  show ?thesis
  proof (cases "fst (pipeline_take env p)")
    case (Inl e)
    then have "(\<exists>dense idx. pe_take env dense idx = Inl e \<or> pe_take env dense idx = Inr None)
        \<or> (\<exists>ts cs. pe_chunk env (pl_entity p) ts cs = Inl e)"
      using False
      by (auto simp: pipeline_take_def struct_column_def scatter_def Let_def
          split: option.splits prod.splits sum.splits if_splits)
    with Inl False show ?thesis
      by (cases "pipeline_take env p") (simp add: flush_accounted_def pipeline_flush_def flush_events_def)
  next
    case (Inr r)
    then obtain c p' where take: "pipeline_take env p = (Inr (Some c), p')" "pl_lenses p' = pl_lenses p"
        "\<exists>ts cs. pe_chunk env (pl_entity p) ts cs = Inr c \<and> set (times_columns (rb_times (pl_rows p))) \<subseteq> set ts"
      by (rule take_built [OF _ False])
    have "handed_over env (pl_lenses p) c (apply_lenses env p' c) (lens_events env p' c)"
      using lenses_hand_over [of env p' c] take(2) by simp
    with take False show ?thesis
      by (auto simp: flush_accounted_def pipeline_flush_def flush_events_def)
  qed
qed

lemma flush_events_simps:
  "lost_in (flush_events env p) = 0" "filter decoder_broke (flush_events env p) = []"
  "filter ((=) KeptRaw) (flush_events env p) = []"
proof -
  have lens: "e = LensFailed" if "e \<in> set (flush_events env p)" for e
    using that
    by (auto simp: flush_events_def lens_events_def split: prod.splits sum.splits option.splits)
  show "lost_in (flush_events env p) = 0" using lens by (simp add: sum_list_eq_0_iff) force
  show "filter decoder_broke (flush_events env p) = []" using lens by (force simp: filter_empty_conv)
  show "filter ((=) KeptRaw) (flush_events env p) = []" using lens by (force simp: filter_empty_conv)
qed

lemma flush_settings:
  "pl_entity (snd (pipeline_flush env p)) = pl_entity p" "pl_lenses (snd (pipeline_flush env p)) = pl_lenses p"
  by (auto simp: snd_flush pipeline_take_def Let_def split: option.splits prod.splits sum.splits)

lemma run_account:
  assumes "pipeline_run env acts p = (flushes, events, p')" "aligned p"
  shows "rows_flushed flushes + pipeline_len p' + lost_in events = pipeline_len p + length (pushed acts)
    \<and> list_all (flush_accounted env (pl_entity p) (pl_lenses p)) flushes
    \<and> length (filter decoder_broke events) + (if pl_reflection p' = None then 0 else 1)
      = (if pl_reflection p = None then 0 else (1::nat))
    \<and> (pl_reflection p' \<noteq> None \<longrightarrow> pl_reflection p \<noteq> None
         \<and> undecoded (flags_flushed flushes @ rb_decoded (pl_rows p')) =
             undecoded (rb_decoded (pl_rows p)) + length (filter ((=) KeptRaw) events))"
  using assms
proof (induction acts arbitrary: p flushes events)
  case Nil
  then show ?case by simp
next
  case (Cons act acts)
  show ?case
  proof (cases act)
    case (PushMessage m)
    obtain flushes1 events1 where run: "pipeline_run env acts (push_message env m p) = (flushes1, events1, p')"
      "flushes = flushes1" "events = push_events env (in_cdr m) p @ events1"
      using Cons.prems(1) by (auto simp: PushMessage split: prod.splits)
    note push = push_account [OF Cons.prems(2), of env m]
    from Cons.IH [OF run(1) push(1)] push(2-4) show ?thesis
      unfolding run(2,3) PushMessage push_settings by (auto split: if_splits)
  next
    case FlushRows
    let ?f = "(pl_rows p, fst (pipeline_flush env p), flush_events env p)"
    obtain flushes1 events1 where
      run: "pipeline_run env acts (snd (pipeline_flush env p)) = (flushes1, events1, p')"
        "flushes = ?f # flushes1" "events = flush_events env p @ events1"
      using Cons.prems(1) by (auto simp: FlushRows split: prod.splits)
    note flush = flush_account [OF Cons.prems(2), of env]
    from Cons.IH [OF run(1) flush(1)] flush(2-4) flush_is_accounted [of env p] show ?thesis
      unfolding run(2,3) FlushRows flush_settings by (auto simp: flush_events_simps)
  qed
qed

text \<open>
  C21: no message is lost in silence. Over any run of pushes and flushes on a new topic, every
  message is in the buffer, left it in a flush, or is counted by the event of a decoder that
  broke. A flush that found rows hands over a chunk built with the times of all of them (with
  lenses, everything they derive from it, each of their errors logged), or it fails with the
  error of the take kernel or of the chunk constructor, which its caller gets. The event of a
  broken decoder comes exactly once when the reflection of a topic is given up; while it is not,
  the rows kept raw for want of decoding are exactly the ones announced; and a topic that never
  had the reflection it asked for said so when it was created.
\<close>

theorem losses_are_logged:
  fixes env entity asked type_name enc schema lenses
  defines "new \<equiv> new_pipeline env entity asked type_name enc schema lenses"
  assumes "pipeline_run env acts new = (flushes, events, p)"
  shows "rows_flushed flushes + pipeline_len p + lost_in events = length (pushed acts)
    \<and> list_all (flush_accounted env entity lenses) flushes
    \<and> length (filter decoder_broke events) =
        (if pl_reflection new \<noteq> None \<and> pl_reflection p = None then 1 else 0)
    \<and> (pl_reflection p \<noteq> None \<longrightarrow>
         undecoded (flags_flushed flushes @ rb_decoded (pl_rows p)) = length (filter ((=) KeptRaw) events))
    \<and> (new_events env asked type_name enc schema \<noteq> []) =
        ((Reflected \<in> asked \<or> Lenses \<in> asked) \<and> pl_reflection new = None)"
proof -
  have new: "pl_rows new = no_rows" "pl_entity new = entity" "pl_lenses new = lenses"
    by (simp_all add: new_def new_pipeline_def Let_def)
  then have "aligned new" by (simp add: aligned_def pipeline_len_def)
  moreover have "(new_events env asked type_name enc schema \<noteq> []) =
      ((Reflected \<in> asked \<or> Lenses \<in> asked) \<and> pl_reflection new = None)"
    by (auto simp: new_events_def new_def new_pipeline_def Let_def split: sum.splits if_splits)
  moreover have "pipeline_len new = 0" "rb_decoded (pl_rows new) = []"
    by (simp_all add: new pipeline_len_def)
  ultimately show ?thesis
    using run_account [OF assms(2)] unfolding new(2,3) by (auto split: if_splits)
qed

lemma unlensed_flush_events: "pl_lenses p = None \<Longrightarrow> flush_events env p = []"
  by (auto simp: flush_events_def lens_events_def pipeline_take_def Let_def
      split: option.splits prod.splits sum.splits if_splits)

lemma flush_reflection: "pl_reflection p \<noteq> None \<Longrightarrow> pl_reflection (snd (pipeline_flush env p)) \<noteq> None"
  by (auto simp: snd_flush pipeline_take_def Let_def split: option.splits prod.splits sum.splits)

lemma byte_push_events:
  assumes "pl_reflection p \<noteq> None"
  shows "push_events byte_env (in_cdr (byte_message b t)) p = []"
    "pl_reflection (push_message byte_env (byte_message b t) p) \<noteq> None"
    "push_events byte_env (in_cdr (odd_message [b'] t)) p = [KeptRaw]"
    "pl_reflection (push_message byte_env (odd_message [b'] t) p) \<noteq> None"
  using assms
  by (auto simp: push_events_def pipeline_push_def decode_row_def byte_env_def decode_byte_def
      byte_message_def odd_message_def ENCAPSULATION_def Let_def)

theorem losses_are_logged_witness:
  "\<exists>f events p.
     pipeline_run byte_env [PushMessage (byte_message 7 5), PushMessage (odd_message [1] 6), FlushRows,
         PushMessage (byte_message 8 7), PushMessage (odd_message [2] 8)]
       (byte_pipeline {Reflected} None) = ([f], events, p)
     \<and> events = [KeptRaw, KeptRaw] \<and> rows_len (fst f) + pipeline_len p = 4
     \<and> flush_accounted byte_env 3 None f \<and> undecoded (rb_decoded (fst f) @ rb_decoded (pl_rows p)) = 2"
proof -
  let ?acts = "[PushMessage (byte_message 7 5), PushMessage (odd_message [1] 6), FlushRows,
         PushMessage (byte_message 8 7), PushMessage (odd_message [2] 8)]"
  let ?new = "byte_pipeline {Reflected} None"
  obtain f events p where run: "pipeline_run byte_env ?acts ?new = ([f], events, p)"
    by (simp split: prod.split)
  have new: "pl_reflection ?new \<noteq> None" "pl_lenses ?new = None"
    using byte_reflection [of "{Reflected}" None] by (simp, simp add: byte_pipeline_def new_pipeline_def Let_def)
  have "pl_reflection (push_message byte_env (odd_message [2] 8) (push_message byte_env (byte_message 8 7)
      (snd (pipeline_flush byte_env (push_message byte_env (odd_message [1] 6)
        (push_message byte_env (byte_message 7 5) ?new)))))) \<noteq> None"
    by (intro byte_push_events flush_reflection new)
  then have "pl_reflection p \<noteq> None" using run by (auto split: prod.splits)
  moreover have "events = [KeptRaw, KeptRaw]"
    using run
    by (auto simp: byte_push_events new flush_reflection unlensed_flush_events push_settings split: prod.splits)
  ultimately have "rows_len (fst f) + pipeline_len p = 4 \<and> flush_accounted byte_env 3 None f
      \<and> undecoded (rb_decoded (fst f) @ rb_decoded (pl_rows p)) = 2"
    using losses_are_logged [OF run [unfolded byte_pipeline_def]] by simp
  then show ?thesis using run \<open>events = [KeptRaw, KeptRaw]\<close> by blast
qed

end
