(* ===== verification/Spec2Isabelle.thy ===== *)
theory Spec2Isabelle
  imports Config Statics Replay Failing Stored Session Connecting Live Latency Boundary Logging
    Counts Recovery Refilter Losses
begin

text \<open>
  The Rust core of the rosbag2 storage plugin \<open>rosbag2_storage_rrd\<close>, the crate
  \<open>src/crates/rosbag2_storage_rrd_ffi\<close>: it records ROS 2 messages into Rerun recordings and
  replays them. The C++ shim calls the entry points of \<open>lib.rs\<close>, which drive a \<open>Writer\<close> or a
  \<open>Reader\<close>.

  \<^bold>\<open>How the parts interact.\<close> A recording is configured by \<open>config.rs\<close>. \<open>writer.rs\<close> holds the
  streams (the file, and optionally a server) and the topics; \<open>record.rs\<close> decides when a topic
  is flushed; \<open>pipeline.rs\<close> turns the buffered messages of a topic into chunks, with a column of
  raw bytes and one of reflected structs; \<open>statics.rs\<close> records what a topic is. Reading goes the
  other way: \<open>index.rs\<close> reads the chunk index out of the footer, \<open>statics.rs\<close> reads the topics
  back, \<open>reader.rs\<close> merges the chunks by receive time, and \<open>replay.rs\<close> encodes a row that was
  kept only as a struct. \<open>error.rs\<close> carries reasons across the boundary and \<open>logging.rs\<close> the
  diagnostics.

  \<^bold>\<open>Where the code is modelled.\<close>
  \<^item> \<open>Prelude\<close>: machine integers, UTF-8 and strings, the error values, and the iterator and
    vector operations of the standard library the code uses.
  \<^item> \<open>Config\<close>: \<open>config.rs\<close>; profiles, the config file, and what \<open>resolve\<close> accepts.
  \<^item> \<open>Arrow\<close>: what the crate observes of Arrow arrays and Rerun chunks. \<open>Columns\<close>: the
    timelines and components of a topic, from \<open>pipeline.rs\<close>.
  \<^item> \<open>Statics\<close>: \<open>statics.rs\<close>. \<open>Replay\<close>: \<open>replay.rs\<close>. \<open>Index\<close>: \<open>index.rs\<close>.
  \<^item> \<open>Pipeline\<close>: \<open>pipeline.rs\<close>; \<open>Pipeline\<close>, \<open>Rows\<close>, \<open>Times\<close>, \<open>Reflection\<close> and \<open>LensSet\<close> are the
    records \<open>pipeline\<close>, \<open>rows_buffer\<close>, \<open>times_buffer\<close>, \<open>reflection\<close> and \<open>lens_set\<close>.
  \<^item> \<open>Topic\<close>: \<open>record.rs\<close>, and the streams of \<open>writer.rs\<close> as the record \<open>outside\<close>. \<open>Writer\<close>: the rest
    of \<open>writer.rs\<close>.
  \<^item> \<open>Window\<close>, \<open>Reader\<close>, \<open>Playback\<close>: \<open>reader.rs\<close>, from the rows of one chunk to the public
    methods.
  \<^item> \<open>Ffi\<close>: \<open>error.rs\<close> and \<open>lib.rs\<close>; every entry point is a function on \<open>ffi_state\<close>, the reason slot
    and the handles. \<open>Logging\<close>: \<open>logging.rs\<close>.

  A method that changes \<open>self\<close> is a function that returns the record updated; a fallible one
  returns a \<open>result\<close> beside it, so that the state after an error is part of the model.

  \<^bold>\<open>What is proved, and where.\<close>
  \<^item> \<open>Contract\<close> says what playback promises without windows or files: the rows left are a
    multiset, and a read delivers the least wanted one. \<open>Merge\<close> proves it of the reader for any
    source of chunks that keeps the locales \<open>chunk_source\<close> and \<open>playback_source\<close>; \<open>Sources\<close>
    interprets them on the indexed and on the scan path, and \<open>Passes\<close> and \<open>Replaying\<close> draw the
    theorems about opening, reading, seeking, filtering and reversing. \<open>Failing\<close> says what a
    read that fails leaves: a row that cannot be encoded stays the next one, a chunk that does
    not load is behind the reader. \<open>Refilter\<close>
    follows the cursor through a pass and shows that a filter set in the middle of one neither
    repeats nor loses a row, on either path.
  \<^item> \<open>Flushing\<close> relates the buffers of a pipeline to the list of messages pushed, and \<open>Keeping\<close>
    and \<open>Stored\<close> conclude what a flush writes, what a broken decoder costs, and that a topic
    keeps the forms it announces, except under \<open>unmatched: drop\<close>. \<open>Losses\<close> balances the messages
    pushed against the rows held, the losses logged and the rows of every flush, each of which
    returned a chunk built with them or an error.
  \<^item> \<open>Policy\<close> states the flush policy through the locale \<open>row_buffer\<close>; \<open>Session\<close> is the step
    relation of a writer (\<open>writing\<close>), with the invariants of the policy and of the topic
    indices; \<open>Latency\<close> bounds how long a quiet topic waits; \<open>Live\<close> shows through the locale
    \<open>topic_operation\<close> that the live stream neither disturbs nor differs from the file;
    \<open>Connecting\<close> shows that opening returns, and after which poll with what answer.
  \<^item> \<open>Ledger\<close>: the abstract state of a bag being written, the \<open>ledger\<close> of declared topics and
    accepted messages; every call of a session keeps the \<open>books\<close>, by which the file and the
    buffers add up to the ledger, and closing leaves all of it in the file. The sessions are those
    of recordings without lenses, whose decoders do not break or which keep raw copies.
  \<^item> \<open>Manifest\<close>: what \<open>ChunkIndex::open\<close> makes of a manifest that describes the file's chunks.
    \<open>Reopening\<close>: how the chunks of a ledger are opened and loaded, on either path.
    \<open>Roundtrip\<close> composes the writer and the reader: recording, closing, opening and draining
    delivers the messages of the ledger. \<open>Counts\<close>: the message counts and the time range the
    opened recording reports are those of the ledger. \<open>Recovery\<close>: a recording that was never closed
    and of which the first items are on disk still delivers all but the rows of the chunks that
    are not on disk and the rows its topics held.
  \<^item> \<open>Boundary\<close>: every entry point as a call: status codes, reasons, null arguments, the error buffer, the filter text, and the
    read loop over the entry points. \<open>Logging\<close>: which callback stays, and the line of an event.
  \<^item> \<open>Values\<close>: the value a row of Arrow columns holds and its serialization, which together are
    the encoder of \<open>Replay\<close>.
  \<^item> \<open>Config\<close>, \<open>Statics\<close>, \<open>Replay\<close>, \<open>Index\<close>: the theorems about one component each.
  \<^item> \<open>Sample_Bag\<close>, \<open>Sample_Pipeline\<close>, \<open>Sample_Writer\<close>, \<open>Sample_File\<close>: a concrete recording, concrete
    libraries, and the file of any session on them, which show that the hypotheses of the theorems can hold.

  \<^bold>\<open>Bounds.\<close> A \<open>usize\<close> counter that the code adds to wraps at \<open>2 ^ 64\<close> (\<open>wrap_u64\<close>), the sequence
  number at 64 bits signed (\<open>wrap_i64\<close>), the indices of \<open>scatter\<close> at \<open>2 ^ 32\<close>, which is why the
  theorems about flushing ask for fewer than \<open>2 ^ 32\<close> buffered messages. The reader's loops end
  because chunks run out, shown by a measure on what is unread. The connection loop may in
  principle poll for ever, so it is a \<open>partial_function\<close>; with a clock that advances by the 50 ms
  the loop sleeps it makes at most 101 polls in the 5 s of \<open>CONNECT_TIMEOUT\<close>. There is no fuel.

  \<^bold>\<open>Parameters.\<close> Libraries are arguments: \<open>reader_env\<close> (the file, its footer and messages, the CDR
  writer), \<open>pipeline_env\<close> (the reflection of a definition, the CDR decoder, the Arrow builders and
  the take kernel, the chunk constructor, the lenses), \<open>writer_env\<close> (the clock, the streams of the
  SDK, the connection status), \<open>ffi_env\<close> (the YAML and URL parsers, how an error is displayed). What the
  theorems rely on of them are named predicates: \<open>lawful\<close> and its parts for the decoder and the
  builders (\<open>faithful\<close>: for every plan), \<open>lossless\<close> for a decoder that does not break,
  \<open>decodes_values\<close> for the value of a message its decoded row holds, \<open>canonical\<close> for messages that
  are the serialization of their value, \<open>stores\<close>, \<open>describes_file\<close> and \<open>keeps_metadata\<close> for the
  file the SDK makes of what it was sent, \<open>forwards_columns\<close> and \<open>lenses_work\<close> for the lenses,
  \<open>flushes_work\<close> and \<open>sleeps\<close> for the writer, \<open>indexed_playable\<close> and \<open>scan_playable\<close> for what a
  recording on disk satisfies.

  \<^bold>\<open>Not modelled.\<close> The C++ shim, the Python command line plugin and the repository's scripts; the
  unit tests and their helpers (\<open>testing.rs\<close>); the wording of what is logged (the log of a
  session is a list of \<open>diagnostic\<close> values), and the warning of \<open>index.rs\<close> about a footer that
  cannot be read; the batcher settings other than its tick and the application id handed to the SDK; the
  encoding of a recording on disk. Using a handle after closing it is undefined behaviour of the caller and left unspecified.
\<close>

end
